(* ===== verification/CRuntime.thy ===== *)
theory CRuntime
  imports Main "HOL-Library.Word"
begin

unbundle bit_operations_syntax

text \<open>
  The prelude of the development: the machine types of the x86-64 Linux target, the view of
  memory that the value-level components share, the C11 mutex, and the generic lemmas on lists
  and words that several components use.

  Conventions.
  \<^item> A heap buffer that one struct owns is a value of type \<open>buf\<close>, declared below:
    \<open>Null\<close>, \<open>Buf xs\<close> (a live block that holds the bytes \<open>xs\<close>), or \<open>Wild\<close>, a
    pointer value that the tracking allocator does not know (an uninitialised local, say).
  \<^item> An undefined memory access is a value: a function that can run into one returns
    \<open>fault + 'a\<close>, with \<open>Inl\<close> for the fault.  So "does not fault" is a theorem to prove.  It says
    nothing of mutexes: their misuse (unlocking one that is not held, locking a destroyed one) is
    visible in the state but is not a fault, so that the code can be followed past it.
  \<^item> An allocation whose result the code checks gets a boolean (or an optional address) that says
    what libc answered; an allocation whose result the code uses unchecked is taken to succeed.
\<close>

type_synonym byte = "8 word"
type_synonym addr = "64 word"
type_synonym size_t = "64 word"
type_synonym ullong = "64 word"

datatype buf = Null | Buf "byte list" | Wild

datatype fault =
    NullAccess       \<comment> \<open>a read or write through \<open>NULL\<close>\<close>
  | OutOfBounds      \<comment> \<open>past the end of a block\<close>
  | WildAccess       \<comment> \<open>through a pointer that was never initialised\<close>
  | UseAfterFree     \<comment> \<open>through a pointer to a freed object\<close>
  | DoubleFree       \<comment> \<open>\<open>free\<close> of a block that is not live\<close>

type_synonym 'a res = "fault + 'a"

text \<open>Sequencing: the next statement runs unless this one faulted.\<close>

definition bind_res :: "'a res \<Rightarrow> ('a \<Rightarrow> 'b res) \<Rightarrow> 'b res" where
  "bind_res m f = (case m of Inl e \<Rightarrow> Inl e | Inr x \<Rightarrow> f x)"

lemma bind_res_simps [simp]: "bind_res (Inl e) f = Inl e" "bind_res (Inr x) f = f x"
  by (simp_all add: bind_res_def)

lemma bind_res_Inr_iff: "bind_res m f = Inr y \<longleftrightarrow> (\<exists>x. m = Inr x \<and> f x = Inr y)"
  by (cases m) simp_all

lemma bind_res_InrE:
  assumes "bind_res m f = Inr y"
  obtains x where "m = Inr x" and "f x = Inr y"
  using assms by (auto simp: bind_res_Inr_iff)

named_theorems crt \<comment> \<open>evaluation rules of the runtime helpers\<close>
named_theorems wf_intro \<comment> \<open>introduction rules of the well-formedness predicates\<close>

subsection \<open>Reading and replacing an owned buffer\<close>

text \<open>\<open>memcpy(dst, p, n)\<close> seen from its source: the bytes it reads.\<close>

definition memcpy_from :: "buf \<Rightarrow> nat \<Rightarrow> byte list res" where
  "memcpy_from p n =
     (if n = 0 then Inr []
      else case p of
        Null \<Rightarrow> Inl NullAccess
      | Wild \<Rightarrow> Inl WildAccess
      | Buf xs \<Rightarrow> (if n \<le> length xs then Inr (take n xs) else Inl OutOfBounds))"

text \<open>
  \<open>p = alc_realloc(allc, p, n); memcpy(p, bs, n)\<close> with \<open>n = length bs\<close>, as the queue and
  packet code writes it.  What \<open>alc_realloc\<close> answers follows its code (theory Allocator):
  a null pointer is a fresh allocation, size 0 frees and answers \<open>NULL\<close>, and an untracked
  pointer is answered with \<open>NULL\<close>, into which the \<open>memcpy\<close> then writes.
\<close>

fun realloc_memcpy :: "buf \<Rightarrow> byte list \<Rightarrow> buf res" where
  "realloc_memcpy Null bs = Inr (Buf bs)"
| "realloc_memcpy (Buf _) bs = (if bs = [] then Inr Null else Inr (Buf bs))"
| "realloc_memcpy Wild bs = (if bs = [] then Inr Null else Inl NullAccess)"

lemma memcpy_from_0 [simp, crt]: "memcpy_from p 0 = Inr []"
  by (simp add: memcpy_from_def)

lemma memcpy_from_Buf [crt]: "n \<le> length xs \<Longrightarrow> memcpy_from (Buf xs) n = Inr (take n xs)"
  by (simp add: memcpy_from_def)

lemma memcpy_from_InrD: "memcpy_from p n = Inr bs \<Longrightarrow> length bs = n"
  by (auto simp: memcpy_from_def split: if_splits buf.splits)

subsection \<open>Mutexes\<close>

text \<open>
  A recursive C11 mutex as its holder sees it: the number of times it is locked.  Locking a
  destroyed mutex answers an error that no caller of this code base looks at, so a lock call on
  it has no effect.
\<close>

datatype mtx = Mtx nat | MtxDestroyed

fun mtx_lock :: "mtx \<Rightarrow> mtx" where
  "mtx_lock (Mtx n) = Mtx (Suc n)"
| "mtx_lock MtxDestroyed = MtxDestroyed"

fun mtx_unlock :: "mtx \<Rightarrow> mtx" where
  "mtx_unlock (Mtx n) = Mtx (n - 1)"
| "mtx_unlock MtxDestroyed = MtxDestroyed"

lemma mtx_unlock_lock [simp]: "mtx_unlock (mtx_lock m) = m"
  by (cases m) simp_all

subsection \<open>What the kernel answers\<close>

text \<open>
  One answer of \<open>read\<close>: bytes (and whether the caller's buffer can then be grown), end of
  stream, \<open>EAGAIN\<close>, or another error; and one answer of \<open>write\<close>.
\<close>

datatype read_ans = ReadBytes "byte list" bool | ReadEof | ReadAgain | ReadError

datatype write_ans = Wrote nat | WouldBlock | WriteError

text \<open>The receive buffer of both socket loops.\<close>

definition MAX_BUFFER_SIZE :: nat where
  "MAX_BUFFER_SIZE = 1024"

subsection \<open>Lists\<close>

lemma list_update_length_append [simp]: "(xs @ y # ys)[length xs := z] = xs @ z # ys"
  by (induction xs) auto

lemma take_Suc_snoc: "i < length xs \<Longrightarrow> take (Suc i) xs = take i xs @ [xs ! i]"
  by (rule take_Suc_conv_app_nth)

lemma nth_map_upt_id: "map (\<lambda>i. xs ! i) [0..<length xs] = xs"
  by (rule map_nth)

lemma tl_map: "tl (map f xs) = map f (tl xs)"
  by (cases xs) auto

lemma filter_fst_Nil: "filter (\<lambda>x. fst x = q) xs = [] \<longleftrightarrow> q \<notin> fst ` set xs"
  by (induction xs) auto

end
