(* ===== verification/Interfaces.thy ===== *)
theory Interfaces
  imports CRuntime
begin

text \<open>
  The contracts between components, as locales.  A provider's theory interprets its contract on
  the code's own operations; a client's lemmas are proved here once from the laws alone.
  \<^item> \<open>fifo_channel\<close>: what the byte-block queue promises to the socket loops and the
    packet handlers.
  \<^item> \<open>fixed_codec\<close>: the fixed-width object representation of an integer that the packet
    format copies with \<open>memcpy\<close>.
  \<^item> \<open>block_registry\<close>: what the tracking allocator promises about the blocks it hands out.
  \<^item> \<open>kv_store\<close>: what the linear map promises to the server's and the client's registries.
  \<^item> \<open>stream_framing\<close>: how a receiver cuts a byte stream that arrives in chunks into frames.
  \<^item> \<open>invariant_of\<close>: what an invariant of a step relation promises of its runs.
\<close>

subsection \<open>First-in first-out channels\<close>

locale fifo_channel =
  fixes enq :: "'q \<Rightarrow> 'b \<Rightarrow> 'q"
    and deq :: "'q \<Rightarrow> 'q"
    and stored :: "'q \<Rightarrow> 'x list"
    and payload :: "'b \<Rightarrow> 'x"
    and qok :: "'q \<Rightarrow> bool"
    and bok :: "'b \<Rightarrow> bool"
  assumes stored_enq: "qok q \<Longrightarrow> bok b \<Longrightarrow> stored (enq q b) = stored q @ [payload b]"
    and qok_enq: "qok q \<Longrightarrow> bok b \<Longrightarrow> qok (enq q b)"
    and stored_deq: "qok q \<Longrightarrow> stored q \<noteq> [] \<Longrightarrow> stored (deq q) = tl (stored q)"
    and qok_deq: "qok q \<Longrightarrow> stored q \<noteq> [] \<Longrightarrow> qok (deq q)"
begin

lemma enqs:
  "qok q \<Longrightarrow> (\<And>b. b \<in> set bs \<Longrightarrow> bok b) \<Longrightarrow>
   qok (foldl enq q bs) \<and> stored (foldl enq q bs) = stored q @ map payload bs"
  by (induction bs arbitrary: q) (simp_all add: stored_enq qok_enq)

lemma deqs:
  "qok q \<Longrightarrow> n \<le> length (stored q) \<Longrightarrow>
   qok ((deq ^^ n) q) \<and> stored ((deq ^^ n) q) = drop n (stored q)"
proof (induction n)
  case 0
  then show ?case by simp
next
  case (Suc n)
  then have ih: "qok ((deq ^^ n) q)" "stored ((deq ^^ n) q) = drop n (stored q)"
    and ne: "stored ((deq ^^ n) q) \<noteq> []"
    by auto
  show ?case
    using stored_deq [OF ih(1) ne] qok_deq [OF ih(1) ne]
    by (simp add: ih(2) drop_Suc tl_drop)
qed

text \<open>The \<open>i\<close>-th block that comes out is the \<open>i\<close>-th that went in.\<close>

lemma fifo_order:
  assumes "qok q" and "stored q = []" and "\<And>b. b \<in> set bs \<Longrightarrow> bok b" and "i < length bs"
  shows "hd (stored ((deq ^^ i) (foldl enq q bs))) = payload (bs ! i)"
proof -
  have "qok (foldl enq q bs)" and "stored (foldl enq q bs) = map payload bs"
    using enqs [OF assms(1,3)] assms(2) by simp_all
  then have "stored ((deq ^^ i) (foldl enq q bs)) = drop i (map payload bs)"
    using deqs [of "foldl enq q bs" i] assms(4) by simp
  then show ?thesis
    using assms(4) by (simp add: hd_drop_conv_nth)
qed

text \<open>Filling and then emptying a channel leaves it empty.\<close>

lemma fill_drain:
  assumes "qok q" and "stored q = []" and "\<And>b. b \<in> set bs \<Longrightarrow> bok b"
  shows "stored ((deq ^^ length bs) (foldl enq q bs)) = []"
  using enqs [OF assms(1,3)] deqs [of "foldl enq q bs" "length bs"] assms(2) by simp

end

subsection \<open>Fixed-width codecs\<close>

locale fixed_codec =
  fixes enc :: "'a \<Rightarrow> byte list"
    and dec :: "byte list \<Rightarrow> 'a"
    and width :: nat
  assumes enc_length: "length (enc a) = width"
    and dec_enc: "dec (enc a) = a"
    and enc_dec: "length bs = width \<Longrightarrow> enc (dec bs) = bs"
begin

text \<open>A field at offset \<open>k\<close> of a larger object is read back as it was written.\<close>

lemma field_read:
  assumes "length pre = k"
  shows "dec (take width (drop k (pre @ enc a @ post))) = a"
  using assms by (simp add: enc_length dec_enc)

lemma field_write:
  assumes "k + width \<le> length bs"
  shows "take k bs @ enc (dec (take width (drop k bs))) @ drop (k + width) bs = bs"
proof -
  have "enc (dec (take width (drop k bs))) = take width (drop k bs)"
    using assms by (simp add: enc_dec)
  moreover have "take width (drop k bs) @ drop (k + width) bs = drop k bs"
    by (metis add.commute append_take_drop_id drop_drop)
  ultimately show ?thesis by simp
qed

lemma enc_inject: "enc a = enc b \<longleftrightarrow> a = b"
  by (metis dec_enc)

end

subsection \<open>Cutting a chunked stream into frames\<close>

text \<open>
  \<open>feed_all drain t cs\<close>: with \<open>t\<close> buffered, receive the chunks \<open>cs\<close> one after the other
  and drain the buffer after each.
\<close>

fun feed_all ::
  "('b list \<Rightarrow> ('b list list \<times> 'b list) option) \<Rightarrow> 'b list \<Rightarrow> 'b list list
   \<Rightarrow> ('b list list \<times> 'b list) option" where
  "feed_all drain t [] = Some ([], t)"
| "feed_all drain t (c # cs) =
     (case drain (t @ c) of
        None \<Rightarrow> None
      | Some (fs, u) \<Rightarrow> map_option (\<lambda>(gs, v). (fs @ gs, v)) (feed_all drain u cs))"

locale stream_framing =
  fixes next_of :: "'b list \<Rightarrow> ('b list \<times> 'b list) option"
    and drain :: "'b list \<Rightarrow> ('b list list \<times> 'b list) option"
  assumes next_split: "next_of acc = Some (f, r) \<Longrightarrow> acc = f @ r"
    and next_extend: "next_of acc = Some (f, r) \<Longrightarrow> next_of (acc @ more) = Some (f, r @ more)"
    and drain_unfold: "drain acc =
      (case next_of acc of
         None \<Rightarrow> Some ([], acc)
       | Some (f, r) \<Rightarrow> map_option (\<lambda>(fs, t). (f # fs, t)) (drain r))"
begin

lemma drain_NilD: "drain acc = Some ([], t) \<Longrightarrow> next_of acc = None \<and> t = acc"
  using drain_unfold [of acc] by (auto split: option.splits)

lemma drain_ConsD:
  "drain acc = Some (f # fs, t) \<Longrightarrow> \<exists>r. next_of acc = Some (f, r) \<and> drain r = Some (fs, t)"
  using drain_unfold [of acc] by (auto split: option.splits)

lemma drain_stuck: "next_of acc = None \<Longrightarrow> drain acc = Some ([], acc)"
  using drain_unfold [of acc] by simp

lemma drain_step:
  "next_of acc = Some (f, r) \<Longrightarrow> drain acc = map_option (\<lambda>(fs, t). (f # fs, t)) (drain r)"
  using drain_unfold [of acc] by simp

lemma drain_conserves: "drain acc = Some (fs, t) \<Longrightarrow> acc = concat fs @ t"
  by (induction fs arbitrary: acc) (auto dest!: drain_NilD drain_ConsD next_split)

lemma drain_rest: "drain acc = Some (fs, t) \<Longrightarrow> next_of t = None"
  by (induction fs arbitrary: acc) (auto dest: drain_NilD drain_ConsD)

lemma drain_append:
  "drain acc = Some (fs, t) \<Longrightarrow>
   drain (acc @ more) = map_option (\<lambda>(gs, u). (fs @ gs, u)) (drain (t @ more))"
proof (induction fs arbitrary: acc)
  case Nil
  then have "t = acc" by (auto dest: drain_NilD)
  then show ?case by (cases "drain (acc @ more)") auto
next
  case (Cons f fs)
  then obtain r where r: "next_of acc = Some (f, r)" "drain r = Some (fs, t)"
    by (auto dest: drain_ConsD)
  have "drain (acc @ more) = map_option (\<lambda>(fs, t). (f # fs, t)) (drain (r @ more))"
    by (rule drain_step [OF next_extend [OF r(1)]])
  also have "\<dots> = map_option (\<lambda>(gs, u). ((f # fs) @ gs, u)) (drain (t @ more))"
    unfolding Cons.IH [OF r(2)] by (cases "drain (t @ more)") auto
  finally show ?case .
qed

lemma drain_prefix: "drain (acc @ more) = Some (hs, u) \<Longrightarrow> \<exists>fs t. drain acc = Some (fs, t)"
proof (induction hs arbitrary: acc)
  case Nil
  then have "next_of (acc @ more) = None" by (auto dest: drain_NilD)
  then have "next_of acc = None"
    using next_extend [of acc] by (cases "next_of acc") auto
  then show ?case by (auto simp: drain_stuck)
next
  case (Cons h hs)
  show ?case
  proof (cases "next_of acc")
    case None
    then show ?thesis by (auto simp: drain_stuck)
  next
    case (Some fr)
    obtain f r where fr: "fr = (f, r)" by (cases fr)
    then have "next_of (acc @ more) = Some (f, r @ more)"
      using Some next_extend by simp
    then have "drain (r @ more) = Some (hs, u)"
      using drain_ConsD [OF Cons.prems] by auto
    then obtain fs t where "drain r = Some (fs, t)"
      using Cons.IH by blast
    then show ?thesis
      using drain_step [of acc f r] Some fr by auto
  qed
qed

text \<open>The frames do not depend on how the network cut the stream into chunks.\<close>

theorem feed_all_concat:
  "next_of t = None \<Longrightarrow> feed_all drain t cs = Some out \<longleftrightarrow> drain (t @ concat cs) = Some out"
proof (induction cs arbitrary: t out)
  case Nil
  then show ?case by (auto simp: drain_stuck)
next
  case (Cons c cs)
  show ?case
  proof (cases "drain (t @ c)")
    case None
    then have "drain (t @ c @ concat cs) \<noteq> Some out"
      using drain_prefix [of "t @ c" "concat cs"] by (cases out) auto
    with None show ?thesis by simp
  next
    case (Some fu)
    obtain fs u where fu: "fu = (fs, u)" by (cases fu)
    then have d: "drain (t @ c) = Some (fs, u)" using Some by simp
    have nu: "next_of u = None" by (rule drain_rest [OF d])
    have "drain (t @ c @ concat cs) = map_option (\<lambda>(gs, v). (fs @ gs, v)) (drain (u @ concat cs))"
      using drain_append [OF d] by simp
    moreover have "feed_all drain u cs = drain (u @ concat cs)"
    proof (cases "drain (u @ concat cs)")
      case None
      then show ?thesis using Cons.IH [OF nu] by (cases "feed_all drain u cs") auto
    next
      case (Some v)
      then show ?thesis using Cons.IH [OF nu] by simp
    qed
    ultimately show ?thesis
      by (simp add: d)
  qed
qed

lemma drain_frames:
  assumes "\<And>f more. f \<in> set fs \<Longrightarrow> next_of (f @ more) = Some (f, more)" and "next_of t = None"
  shows "drain (concat fs @ t) = Some (fs, t)"
  using assms(1)
proof (induction fs)
  case Nil
  then show ?case using assms(2) by (simp add: drain_stuck)
next
  case (Cons f fs)
  then have "next_of (f @ concat fs @ t) = Some (f, concat fs @ t)" by simp
  then show ?case
    using drain_step Cons by simp
qed

end

subsection \<open>Key-value stores\<close>

locale kv_store =
  fixes get :: "'m \<Rightarrow> 'k \<Rightarrow> 'v option"
    and put :: "'k \<Rightarrow> 'v \<Rightarrow> 'm \<Rightarrow> 'm"
    and del :: "'k \<Rightarrow> 'm \<Rightarrow> 'm"
    and mok :: "'m \<Rightarrow> bool"
  assumes get_put: "mok m \<Longrightarrow> get (put k v m) = (get m)(k \<mapsto> v)"
    and mok_put: "mok m \<Longrightarrow> mok (put k v m)"
    and get_del: "mok m \<Longrightarrow> get (del k m) = (get m)(k := None)"
    and mok_del: "mok m \<Longrightarrow> mok (del k m)"
begin

lemma get_put_same: "mok m \<Longrightarrow> get (put k v m) k = Some v"
  by (simp add: get_put)

lemma get_put_other: "mok m \<Longrightarrow> k' \<noteq> k \<Longrightarrow> get (put k v m) k' = get m k'"
  by (simp add: get_put)

lemma put_del: "mok m \<Longrightarrow> get m k = None \<Longrightarrow> get (del k (put k v m)) = get m"
  by (simp add: get_put get_del mok_put fun_eq_iff)

lemma puts:
  "mok m \<Longrightarrow> mok (fold (\<lambda>(k, v). put k v) kvs m)
      \<and> get (fold (\<lambda>(k, v). put k v) kvs m) = get m ++ map_of (rev kvs)"
proof (induction kvs arbitrary: m)
  case Nil
  then show ?case by simp
next
  case (Cons kv kvs)
  obtain k v where kv: "kv = (k, v)" by (cases kv)
  have "get m ++ map_of (rev kvs @ [(k, v)]) = (get m)(k \<mapsto> v) ++ map_of (rev kvs)"
    by (simp add: map_add_def fun_eq_iff split: option.splits)
  then show ?case
    using Cons.IH [of "put k v m"] Cons.prems by (simp add: kv mok_put get_put fun_upd_def)
qed

text \<open>A property of all stored values is kept by storing a value that has it, and by deleting.\<close>

lemma put_all:
  "mok m \<Longrightarrow> (\<And>k' v'. get m k' = Some v' \<Longrightarrow> P k' v') \<Longrightarrow> P k v
   \<Longrightarrow> get (put k v m) k' = Some v' \<Longrightarrow> P k' v'"
  by (auto simp: get_put split: if_splits)

lemma del_all:
  "mok m \<Longrightarrow> (\<And>k' v'. get m k' = Some v' \<Longrightarrow> P k' v')
   \<Longrightarrow> get (del k m) k' = Some v' \<Longrightarrow> P k' v'"
  by (auto simp: get_del split: if_splits)

end

subsection \<open>Registries of live blocks\<close>

text \<open>
  \<open>live s\<close> are the blocks that libc has handed out and not taken back, \<open>tracked s\<close> those the
  registry answers for; \<open>fresh\<close> says which addresses libc may hand out next.
\<close>

locale block_registry =
  fixes tracked :: "'s \<Rightarrow> 'p set"
    and live :: "'s \<Rightarrow> 'p set"
    and acquire :: "'p \<Rightarrow> 's \<Rightarrow> 's"
    and release :: "'p \<Rightarrow> 's \<Rightarrow> 's"
    and collect :: "'s \<Rightarrow> 's"
    and rok :: "'s \<Rightarrow> bool"
    and fresh :: "'p \<Rightarrow> 's \<Rightarrow> bool"
  assumes fresh_live: "fresh p s \<Longrightarrow> p \<notin> live s"
    and tracked_live: "rok s \<Longrightarrow> tracked s \<subseteq> live s"
    and rok_acquire: "rok s \<Longrightarrow> fresh p s \<Longrightarrow> rok (acquire p s)"
    and tracked_acquire: "rok s \<Longrightarrow> fresh p s \<Longrightarrow> tracked (acquire p s) = insert p (tracked s)"
    and live_acquire: "rok s \<Longrightarrow> fresh p s \<Longrightarrow> live (acquire p s) = insert p (live s)"
    and rok_release: "rok s \<Longrightarrow> rok (release p s)"
    and tracked_release: "rok s \<Longrightarrow> tracked (release p s) = tracked s - {p}"
    and live_release: "rok s \<Longrightarrow>
          live (release p s) = (if p \<in> tracked s then live s - {p} else live s)"
    and rok_collect: "rok s \<Longrightarrow> rok (collect s)"
    and tracked_collect: "rok s \<Longrightarrow> tracked (collect s) = {}"
    and live_collect: "rok s \<Longrightarrow> live (collect s) = live s - tracked s"
begin

lemma acquire_release:
  assumes "rok s" and "fresh p s"
  shows "tracked (release p (acquire p s)) = tracked s" and "live (release p (acquire p s)) = live s"
proof -
  have "p \<notin> live s" by (rule fresh_live [OF assms(2)])
  moreover from this have "p \<notin> tracked s" using tracked_live [OF assms(1)] by blast
  ultimately show "tracked (release p (acquire p s)) = tracked s"
    and "live (release p (acquire p s)) = live s"
    using assms by (auto simp: tracked_release live_release tracked_acquire live_acquire rok_acquire)
qed

text \<open>Releasing any blocks, tracked or not and in any order, keeps the registry consistent.\<close>

lemma releases:
  "rok s \<Longrightarrow> rok (fold release ps s) \<and> tracked (fold release ps s) = tracked s - set ps
     \<and> live (fold release ps s) = live s - (tracked s \<inter> set ps)"
proof (induction ps arbitrary: s)
  case Nil
  then show ?case by simp
next
  case (Cons p ps)
  then show ?case
    using Cons.IH [OF rok_release [OF Cons.prems, of p]] tracked_release [OF Cons.prems, of p]
      live_release [OF Cons.prems, of p]
    by auto
qed

text \<open>What was not tracked survives the final collection, and nothing else does.\<close>

lemma collect_after_releases:
  assumes "rok s"
  shows "live (collect (fold release ps s)) = live s - tracked s"
  using releases [OF assms, of ps] live_collect [of "fold release ps s"] by auto

end

subsection \<open>Step relations and their invariants\<close>

text \<open>The states that a step relation reaches from its initial states.\<close>

inductive reach :: "('s \<Rightarrow> bool) \<Rightarrow> ('s \<Rightarrow> 's \<Rightarrow> bool) \<Rightarrow> 's \<Rightarrow> bool" for init step where
  reach_init: "init s \<Longrightarrow> reach init step s"
| reach_step: "reach init step s \<Longrightarrow> step s t \<Longrightarrow> reach init step t"

fun is_run :: "('s \<Rightarrow> 's \<Rightarrow> bool) \<Rightarrow> 's \<Rightarrow> 's list \<Rightarrow> bool" where
  "is_run step s [] \<longleftrightarrow> True"
| "is_run step s (t # ts) \<longleftrightarrow> step s t \<and> is_run step t ts"

lemma reach_run: "reach init step s \<Longrightarrow> is_run step s ts \<Longrightarrow> reach init step (last (s # ts))"
proof (induction ts arbitrary: s)
  case (Cons t ts)
  then have "reach init step t" by (auto intro: reach_step)
  then show ?case using Cons.IH [of t] Cons.prems by simp
qed simp

lemma exI_conj: "P x \<Longrightarrow> Q x \<Longrightarrow> \<exists>x. P x \<and> Q x"
  by blast

locale invariant_of =
  fixes init :: "'s \<Rightarrow> bool"
    and step :: "'s \<Rightarrow> 's \<Rightarrow> bool"
    and inv :: "'s \<Rightarrow> bool"
  assumes inv_start: "init s \<Longrightarrow> inv s"
    and inv_next: "inv s \<Longrightarrow> step s t \<Longrightarrow> inv t"
begin

lemma reach_inv: "reach init step s \<Longrightarrow> inv s"
  by (induction rule: reach.induct) (auto intro: inv_start inv_next)

lemma run_inv: "inv s \<Longrightarrow> is_run step s ts \<Longrightarrow> t \<in> set ts \<Longrightarrow> inv t"
  by (induction ts arbitrary: s) (auto dest: inv_next)

text \<open>A quantity that no step from a good state changes is the same throughout a run.\<close>

lemma run_const:
  assumes "\<And>s t. inv s \<Longrightarrow> step s t \<Longrightarrow> f t = f s"
  shows "inv s \<Longrightarrow> is_run step s ts \<Longrightarrow> t \<in> set ts \<Longrightarrow> f t = f s"
proof (induction ts arbitrary: s)
  case (Cons u ts)
  then show ?case using inv_next [of s u] assms [of s u] by auto
qed simp

end

end
