(* ===== verification/Queue.thy ===== *)
theory Queue
  imports Interfaces
begin

text \<open>
  The byte-block queue of \<open>code/DCN/src/queue.c\<close>: the \<open>struct qblock\<close> helpers, the
  \<open>struct queue\<close> operations on every branch, the FIFO contract as a locale, and its
  interpretation on the code's operations.
\<close>

record qblock =
  data :: buf
  dsize :: nat

record queue =
  blocks :: "qblock list"  \<comment> \<open>the initialised slots \<open>blocks[0 .. bsize - 1]\<close>\<close>
  bcap :: nat              \<comment> \<open>slots the array was last allocated with, 0 for \<open>NULL\<close>\<close>
  bsize :: nat
  head_size :: nat
  blocks_mtx :: mtx

definition QUEUE_HEAD_STEP :: nat where
  "QUEUE_HEAD_STEP = 5"

subsection \<open>Blocks\<close>

definition qblock_init :: qblock where
  "qblock_init = \<lparr>data = Null, dsize = 0\<rparr>"

definition qblock_free :: "qblock \<Rightarrow> qblock" where
  "qblock_free b = b\<lparr>data := Null, dsize := 0\<rparr>"

text \<open>\<open>qblock_fill\<close> and \<open>generic_qbfill\<close>: \<open>bs\<close> are the \<open>sz\<close> bytes at \<open>data\<close>.\<close>

definition qblock_fill :: "qblock \<Rightarrow> byte list \<Rightarrow> qblock res" where
  "qblock_fill dest bs =
     (case realloc_memcpy (data dest) bs of
        Inl e \<Rightarrow> Inl e
      | Inr p \<Rightarrow> Inr (dest\<lparr>data := p, dsize := length bs\<rparr>))"

definition generic_qbfill :: "qblock \<Rightarrow> byte list \<Rightarrow> qblock res" where
  "generic_qbfill out bs =
     (case realloc_memcpy (data out) bs of
        Inl e \<Rightarrow> Inl e
      | Inr p \<Rightarrow> Inr (out\<lparr>data := p, dsize := length bs\<rparr>))"

definition generic_qbout :: "qblock \<Rightarrow> nat \<Rightarrow> byte list res" where
  "generic_qbout inp sz = memcpy_from (data inp) sz"

definition qblock_cmp :: "qblock option \<Rightarrow> qblock option \<Rightarrow> bool res" where
  "qblock_cmp a b =
     (case (a, b) of
        (Some a, Some b) \<Rightarrow>
          (if dsize a \<noteq> dsize b then Inr False
           else case memcpy_from (data a) (dsize a) of
             Inl e \<Rightarrow> Inl e
           | Inr xs \<Rightarrow> (case memcpy_from (data b) (dsize a) of
               Inl e \<Rightarrow> Inl e
             | Inr ys \<Rightarrow> Inr (xs = ys)))
      | _ \<Rightarrow> Inr True)"

text \<open>The body of \<open>qblock_copy\<close> behind its null check.\<close>

definition qblock_dup :: "qblock \<Rightarrow> qblock \<Rightarrow> qblock res" where
  "qblock_dup dest src =
     (let dest = qblock_free dest in
      if data src = Null \<or> dsize src = 0 then Inr (dest\<lparr>data := Null, dsize := 0\<rparr>)
      else case memcpy_from (data src) (dsize src) of
        Inl e \<Rightarrow> Inl e
      | Inr bs \<Rightarrow> (case realloc_memcpy (data dest) bs of
          Inl e \<Rightarrow> Inl e
        | Inr p \<Rightarrow> Inr (dest\<lparr>data := p, dsize := dsize src\<rparr>)))"

fun qblock_copy :: "qblock option \<Rightarrow> qblock option \<Rightarrow> qblock option res" where
  "qblock_copy (Some dest) (Some src) =
     (case qblock_dup dest src of Inl e \<Rightarrow> Inl e | Inr d \<Rightarrow> Inr (Some d))"
| "qblock_copy dest _ = Inr dest"

subsection \<open>Queues\<close>

definition queue_init :: queue where
  "queue_init = \<lparr>blocks = [], bcap = 0, bsize = 0, head_size = 0, blocks_mtx = Mtx 0\<rparr>"

definition queue_free :: "queue \<Rightarrow> queue" where
  "queue_free q = q\<lparr>blocks := [], bcap := 0, bsize := 0, blocks_mtx := MtxDestroyed\<rparr>"

definition queue_empty :: "queue \<Rightarrow> bool" where
  "queue_empty q \<longleftrightarrow> bsize q = 0"

text \<open>\<open>push_block\<close>; \<open>ok\<close> says whether the array's reallocation succeeds.\<close>

definition push_block :: "bool \<Rightarrow> queue \<Rightarrow> qblock \<Rightarrow> (int \<times> queue) res" where
  "push_block ok q b =
     (let q = q\<lparr>blocks_mtx := mtx_lock (blocks_mtx q)\<rparr>;
          q = (if head_size q \<le> bsize q + 1
               then q\<lparr>head_size := head_size q + QUEUE_HEAD_STEP\<rparr> else q)
      in if \<not> ok then Inr (-1, q\<lparr>blocks_mtx := mtx_unlock (blocks_mtx q)\<rparr>)
         else if head_size q \<le> bsize q then Inl OutOfBounds
         else case qblock_dup \<lparr>data = Null, dsize = 0\<rparr> b of
           Inl e \<Rightarrow> Inl e
         | Inr c \<Rightarrow> Inr (0, q\<lparr>blocks := blocks q @ [c], bcap := head_size q,
                              bsize := bsize q + 1,
                              blocks_mtx := mtx_unlock (blocks_mtx q)\<rparr>))"

text \<open>The loop of \<open>pop_block\<close> that moves every block one slot down.\<close>

function shift_blocks :: "nat \<Rightarrow> nat \<Rightarrow> qblock list \<Rightarrow> qblock list res" where
  "shift_blocks i n bs =
     (if i < n then
        (case qblock_dup (bs ! (i - 1)) (bs ! i) of
           Inl e \<Rightarrow> Inl e
         | Inr c \<Rightarrow> shift_blocks (Suc i) n (bs[i - 1 := c]))
      else Inr bs)"
  by pat_completeness auto
termination
  by (relation "measure (\<lambda>(i, n, bs). n - i)") auto

declare shift_blocks.simps [simp del]

definition pop_block :: "queue \<Rightarrow> qblock option \<Rightarrow> (int \<times> queue \<times> qblock option) res" where
  "pop_block q b =
     (let q = q\<lparr>blocks_mtx := mtx_lock (blocks_mtx q)\<rparr> in
      if bsize q = 0 then Inr (1, q\<lparr>blocks_mtx := mtx_unlock (blocks_mtx q)\<rparr>, b)
      else if bsize q = 1 then
        (case qblock_copy b (Some (blocks q ! 0)) of
           Inl e \<Rightarrow> Inl e
         | Inr b \<Rightarrow>
             Inr (2, queue_free (q\<lparr>blocks_mtx := mtx_unlock (blocks_mtx q)\<rparr>), b))
      else
        (case qblock_copy b (Some (blocks q ! 0)) of
           Inl e \<Rightarrow> Inl e
         | Inr b \<Rightarrow> (case shift_blocks 1 (bsize q) (blocks q) of
             Inl e \<Rightarrow> Inl e
           | Inr bs \<Rightarrow>
               Inr (0, q\<lparr>blocks := butlast bs, bcap := bsize q - 1, bsize := bsize q - 1,
                         blocks_mtx := mtx_unlock (blocks_mtx q)\<rparr>, b))))"

definition peek_block :: "queue \<Rightarrow> qblock option \<Rightarrow> (int \<times> qblock option) res" where
  "peek_block q b =
     (if bsize q = 0 then Inr (1, b)
      else case qblock_copy b (Some (blocks q ! 0)) of
        Inl e \<Rightarrow> Inl e
      | Inr b \<Rightarrow> Inr (0, b))"

text \<open>\<open>queue_forward\<close>: the results are whether a block moved, and the two queues.\<close>

definition queue_forward :: "queue \<Rightarrow> queue \<Rightarrow> bool \<Rightarrow> (bool \<times> queue \<times> queue) res" where
  "queue_forward to from_q peek =
     (if queue_empty from_q then Inr (False, to, from_q)
      else if peek then
        (case peek_block from_q (Some qblock_init) of
           Inl e \<Rightarrow> Inl e
         | Inr (_, b) \<Rightarrow> (case push_block True to (the b) of
             Inl e \<Rightarrow> Inl e
           | Inr (_, to) \<Rightarrow> Inr (True, to, from_q)))
      else
        (case pop_block from_q (Some qblock_init) of
           Inl e \<Rightarrow> Inl e
         | Inr (_, from_q, b) \<Rightarrow> (case push_block True to (the b) of
             Inl e \<Rightarrow> Inl e
           | Inr (_, to) \<Rightarrow> Inr (True, to, from_q))))"

subsection \<open>Abstraction and invariant\<close>

text \<open>What a block holds, when it may be read, and the form in which a queue stores it.\<close>

definition qb_bytes :: "qblock \<Rightarrow> byte list" where
  "qb_bytes b = (case data b of Buf xs \<Rightarrow> take (dsize b) xs | _ \<Rightarrow> [])"

definition qb_wf :: "qblock \<Rightarrow> bool" where
  "qb_wf b \<longleftrightarrow> (case data b of Buf xs \<Rightarrow> dsize b \<le> length xs | Null \<Rightarrow> dsize b = 0 | Wild \<Rightarrow> False)"

definition mk_block :: "byte list \<Rightarrow> qblock" where
  "mk_block xs = (if xs = [] then \<lparr>data = Null, dsize = 0\<rparr> else \<lparr>data = Buf xs, dsize = length xs\<rparr>)"

definition queue_inv :: "queue \<Rightarrow> bool" where
  "queue_inv q \<longleftrightarrow> bsize q = length (blocks q) \<and> bsize q \<le> bcap q \<and> bsize q \<le> head_size q
     \<and> (\<exists>xs. blocks q = map mk_block xs)"

definition contents :: "queue \<Rightarrow> byte list list" where
  "contents q = map qb_bytes (blocks q)"

lemma qb_bytes_mk_block [simp]: "qb_bytes (mk_block xs) = xs"
  by (simp add: qb_bytes_def mk_block_def)

lemma qb_bytes_Buf [simp]: "qb_bytes \<lparr>data = Buf xs, dsize = n\<rparr> = take n xs"
  by (simp add: qb_bytes_def)

lemma qb_bytes_comp_mk [simp]: "qb_bytes \<circ> mk_block = id"
  by (simp add: fun_eq_iff)

lemma qb_wf_mk_block [simp, wf_intro]: "qb_wf (mk_block xs)"
  by (simp add: qb_wf_def mk_block_def)

lemma dsize_mk_block [simp]: "dsize (mk_block xs) = length xs"
  by (simp add: mk_block_def)

lemma qb_wf_init [simp, wf_intro]: "qb_wf qblock_init"
  by (simp add: qb_wf_def qblock_init_def)

lemma qb_bytes_init [simp]: "qb_bytes qblock_init = []"
  by (simp add: qb_bytes_def qblock_init_def)

lemma qb_wf_dsize: "qb_wf b \<Longrightarrow> dsize b = length (qb_bytes b)"
  by (auto simp: qb_wf_def qb_bytes_def split: buf.splits)

lemma qb_wf_read: "qb_wf b \<Longrightarrow> memcpy_from (data b) (dsize b) = Inr (qb_bytes b)"
  by (auto simp: qb_wf_def qb_bytes_def memcpy_from_def split: buf.splits)

lemma qb_bytes_empty_iff: "qb_wf b \<Longrightarrow> qb_bytes b = [] \<longleftrightarrow> data b = Null \<or> dsize b = 0"
  by (auto simp: qb_wf_def qb_bytes_def split: buf.splits)

lemma qblock_upd_all [simp]: "(d::qblock)\<lparr>data := x, dsize := n\<rparr> = \<lparr>data = x, dsize = n\<rparr>"
  by (cases d) simp

text \<open>A copy stores the block's bytes in normal form, whatever was in the destination.\<close>

lemma qblock_dup_wf [simp, crt]:
  assumes wf: "qb_wf s"
  shows "qblock_dup d s = Inr (mk_block (qb_bytes s))"
proof (cases "qb_bytes s = []")
  case True
  with wf show ?thesis
    by (auto simp: qblock_dup_def qb_bytes_empty_iff mk_block_def qblock_free_def)
next
  case False
  then have "data s \<noteq> Null" and "dsize s \<noteq> 0"
    using qb_bytes_empty_iff [OF wf] by blast+
  with False show ?thesis
    by (simp add: qblock_dup_def mk_block_def qblock_free_def qb_wf_read [OF wf]
          qb_wf_dsize [OF wf, symmetric])
qed

lemma qblock_fill_Null [simp, crt]:
  "data d = Null \<Longrightarrow> qblock_fill d bs = Inr (d\<lparr>data := Buf bs, dsize := length bs\<rparr>)"
  by (simp add: qblock_fill_def)

lemma qblock_fill_wf:
  assumes "qb_wf d"
  shows "\<exists>d'. qblock_fill d bs = Inr d' \<and> qb_wf d' \<and> qb_bytes d' = bs"
proof (cases "data d")
  case Null
  then show ?thesis by (simp add: qb_wf_def qb_bytes_def)
next
  case (Buf xs)
  then show ?thesis by (simp add: qblock_fill_def qb_wf_def qb_bytes_def)
next
  case Wild
  with assms show ?thesis by (simp add: qb_wf_def)
qed

lemma generic_qbfill_fill: "generic_qbfill = qblock_fill"
  by (simp add: fun_eq_iff generic_qbfill_def qblock_fill_def)

lemma qblock_fill_out:
  assumes "qb_wf d" and "qblock_fill d bs = Inr d'" and "bs \<noteq> []"
  shows "generic_qbout d' (length bs) = Inr bs"
  using assms by (cases "data d") (auto simp: qblock_fill_def generic_qbout_def memcpy_from_def)

lemma qblock_cmp_wf:
  assumes "qb_wf a" and "qb_wf b"
  shows "qblock_cmp (Some a) (Some b) = Inr (qb_bytes a = qb_bytes b)"
proof (cases "dsize a = dsize b")
  case True
  then show ?thesis
    using qb_wf_read [OF assms(1)] qb_wf_read [OF assms(2)] by (simp add: qblock_cmp_def)
next
  case False
  then have "length (qb_bytes a) \<noteq> length (qb_bytes b)"
    using assms by (simp add: qb_wf_dsize)
  with False show ?thesis by (auto simp: qblock_cmp_def)
qed

subsection \<open>The operations on well-formed queues\<close>

lemma queue_inv_init [simp, wf_intro]: "queue_inv queue_init"
  by (simp add: queue_inv_def queue_init_def)

lemma contents_init [simp]: "contents queue_init = []"
  by (simp add: contents_def queue_init_def)

lemma queue_inv_free [simp, wf_intro]: "queue_inv (queue_free q)"
  by (simp add: queue_inv_def queue_free_def)

lemma contents_free [simp]: "contents (queue_free q) = []"
  by (simp add: contents_def queue_free_def)

lemma queue_inv_blocks: "queue_inv q \<Longrightarrow> blocks q = map mk_block (contents q)"
  by (auto simp: queue_inv_def contents_def)

lemma queue_inv_bsize: "queue_inv q \<Longrightarrow> bsize q = length (contents q)"
  by (simp add: queue_inv_def contents_def)

lemma queue_empty_iff: "queue_inv q \<Longrightarrow> queue_empty q \<longleftrightarrow> contents q = []"
  by (simp add: queue_empty_def queue_inv_bsize)

lemma queue_inv_lock [simp]: "queue_inv (q\<lparr>blocks_mtx := m\<rparr>) = queue_inv q"
  by (simp add: queue_inv_def)

lemma queue_mtx_id [simp]: "q\<lparr>blocks_mtx := blocks_mtx q\<rparr> = q"
  by (cases q) simp

lemma contents_lock [simp]: "contents (q\<lparr>blocks_mtx := m\<rparr>) = contents q"
  by (simp add: contents_def)

text \<open>
  \<open>enqueue\<close> and \<open>dequeue\<close> name the state that \<open>push_block\<close> and \<open>pop_block\<close>
  leave; the lemmas after them say that the calls do not fault and what they answer.
\<close>

definition enqueue :: "queue \<Rightarrow> qblock \<Rightarrow> queue" where
  "enqueue q b = snd (projr (push_block True q b))"

definition dequeue :: "queue \<Rightarrow> queue" where
  "dequeue q = fst (snd (projr (pop_block q None)))"

lemma push_block_step:
  assumes inv: "queue_inv q" and wf: "qb_wf b"
  shows "push_block True q b = Inr (0, enqueue q b)"
    and "queue_inv (enqueue q b)"
    and "contents (enqueue q b) = contents q @ [qb_bytes b]"
    and "blocks_mtx (enqueue q b) = blocks_mtx q"
proof -
  have le: "bsize q \<le> head_size q"
    using inv by (simp add: queue_inv_def)
  let ?h = "if head_size q \<le> bsize q + 1 then head_size q + 5 else head_size q"
  have eq: "push_block True q b =
      Inr (0, q\<lparr>head_size := ?h, blocks := blocks q @ [mk_block (qb_bytes b)],
                bcap := ?h, bsize := bsize q + 1\<rparr>)"
    using wf le by (cases q) (auto simp: push_block_def QUEUE_HEAD_STEP_def Let_def)
  then have enq: "enqueue q b =
      q\<lparr>head_size := ?h, blocks := blocks q @ [mk_block (qb_bytes b)],
         bcap := ?h, bsize := bsize q + 1\<rparr>"
    by (simp add: enqueue_def)
  show "push_block True q b = Inr (0, enqueue q b)"
    by (simp add: eq enq)
  have "\<exists>ys. blocks q @ [mk_block (qb_bytes b)] = map mk_block ys"
    using queue_inv_blocks [OF inv] by (intro exI [of _ "contents q @ [qb_bytes b]"]) simp
  then show "queue_inv (enqueue q b)"
    using inv by (auto simp: enq queue_inv_def)
  show "contents (enqueue q b) = contents q @ [qb_bytes b]"
    by (simp add: enq contents_def)
  show "blocks_mtx (enqueue q b) = blocks_mtx q"
    by (simp add: enq)
qed

text \<open>When the reallocation fails nothing but the capacity hint has changed.\<close>

lemma push_block_nomem:
  "push_block False q b =
     Inr (-1, if head_size q \<le> bsize q + 1 then q\<lparr>head_size := head_size q + 5\<rparr> else q)"
  by (cases q) (simp add: push_block_def QUEUE_HEAD_STEP_def Let_def)

lemma shift_blocks_mk:
  "0 < i \<Longrightarrow> i \<le> length xs \<Longrightarrow>
   shift_blocks i (length xs) (map mk_block xs) =
     Inr (map mk_block (take (i - 1) xs @ drop i xs @ drop (length xs - 1) xs))"
proof (induction "length xs - i" arbitrary: i xs)
  case 0
  then have "i = length xs" by simp
  with 0 show ?case
    by (simp add: shift_blocks.simps [of "length xs"] map_append [symmetric] del: map_append)
next
  case (Suc k)
  then have lt: "i < length xs" by simp
  let ?ys = "xs[i - 1 := xs ! i]"
  have "shift_blocks i (length xs) (map mk_block xs)
      = shift_blocks (Suc i) (length ?ys) (map mk_block ?ys)"
    using lt by (simp add: shift_blocks.simps [of i] map_update)
  also have "\<dots> = Inr (map mk_block (take i ?ys @ drop (Suc i) ?ys @ drop (length ?ys - 1) ?ys))"
    using Suc.hyps(1) [of ?ys "Suc i"] Suc.hyps(2) Suc.prems lt by simp
  also have "take i ?ys @ drop (Suc i) ?ys @ drop (length ?ys - 1) ?ys
      = take (i - 1) xs @ drop i xs @ drop (length xs - 1) xs"
  proof -
    have "take i ?ys = take (i - 1) xs @ [xs ! i]"
      using Suc.prems lt by (cases i) (simp_all add: take_Suc_conv_app_nth)
    moreover have "drop (Suc i) ?ys = drop (Suc i) xs"
      using Suc.prems by simp
    moreover have "drop (length ?ys - 1) ?ys = drop (length xs - 1) xs"
      using Suc.prems lt by simp
    moreover have "drop i xs = xs ! i # drop (Suc i) xs"
      using lt by (rule Cons_nth_drop_Suc [symmetric])
    ultimately show ?thesis by simp
  qed
  finally show ?case .
qed

lemma pop_block_step:
  assumes inv: "queue_inv q" and ne: "contents q \<noteq> []"
  shows "pop_block q b =
       Inr (if length (contents q) = 1 then 2 else 0, dequeue q,
            map_option (\<lambda>_. mk_block (hd (contents q))) b)"
    and "queue_inv (dequeue q)"
    and "contents (dequeue q) = tl (contents q)"
proof -
  obtain x xs where c: "contents q = x # xs"
    using ne by (cases "contents q") auto
  have bl: "blocks q = mk_block x # map mk_block xs"
    using queue_inv_blocks [OF inv] c by simp
  have bs: "bsize q = Suc (length xs)"
    using queue_inv_bsize [OF inv] c by simp
  have copy: "qblock_copy b (Some (mk_block x)) = Inr (map_option (\<lambda>_. mk_block x) b)" for b
    by (cases b) auto
  let ?q' = "if xs = [] then queue_free q
             else q\<lparr>blocks := map mk_block xs, bcap := length xs, bsize := length xs\<rparr>"
  have pop: "pop_block q b = Inr (if xs = [] then 2 else 0, ?q', map_option (\<lambda>_. mk_block x) b)" for b
  proof (cases "xs = []")
    case True
    then show ?thesis
      by (simp add: pop_block_def bs bl copy queue_free_def)
  next
    case False
    have "shift_blocks 1 (bsize q) (blocks q) = Inr (map mk_block (xs @ drop (length xs) (x # xs)))"
      using shift_blocks_mk [of 1 "x # xs"] by (simp add: bs bl)
    moreover have "butlast (map mk_block (xs @ drop (length xs) (x # xs))) = map mk_block xs"
      using False by (cases xs rule: rev_cases) (simp_all add: butlast_append)
    ultimately show ?thesis
      using False by (simp add: pop_block_def Let_def bs bl copy)
  qed
  have deq: "dequeue q = ?q'"
    by (simp add: dequeue_def pop)
  show "pop_block q b = Inr (if length (contents q) = 1 then 2 else 0, dequeue q,
            map_option (\<lambda>_. mk_block (hd (contents q))) b)"
    by (simp add: pop deq c)
  show "queue_inv (dequeue q)"
    using inv bs by (auto simp: deq queue_inv_def queue_free_def)
  show "contents (dequeue q) = tl (contents q)"
    unfolding deq c by (simp add: contents_def queue_free_def)
qed

lemma pop_block_empty: "bsize q = 0 \<Longrightarrow> pop_block q b = Inr (1, q, b)"
  by (cases q) (simp add: pop_block_def)

lemma peek_block_step:
  assumes "queue_inv q" and "contents q \<noteq> []"
  shows "peek_block q b = Inr (0, map_option (\<lambda>_. mk_block (hd (contents q))) b)"
proof -
  have "blocks q ! 0 = mk_block (hd (contents q))"
    using queue_inv_blocks [OF assms(1)] assms(2) by (simp add: hd_conv_nth)
  moreover have "bsize q \<noteq> 0"
    using queue_inv_bsize [OF assms(1)] assms(2) by simp
  ultimately show ?thesis
    by (cases b) (simp_all add: peek_block_def)
qed

lemma peek_block_empty: "bsize q = 0 \<Longrightarrow> peek_block q b = Inr (1, b)"
  by (simp add: peek_block_def)

lemmas queue_steps = push_block_step pop_block_step pop_block_empty peek_block_step peek_block_empty

text \<open>The queue is unlocked again by every call, except that emptying it destroys the mutex.\<close>

lemma dequeue_mtx:
  assumes "queue_inv q" and "contents q \<noteq> []"
  shows "blocks_mtx (dequeue q) = (if length (contents q) = 1 then MtxDestroyed else blocks_mtx q)"
proof (cases "bsize q = 1")
  case True
  then have "\<exists>x. contents q = [x]"
    using queue_inv_bsize [OF assms(1)] by (cases "contents q") auto
  then obtain x where x: "contents q = [x]" ..
  then have "blocks q = [mk_block x]"
    using queue_inv_blocks [OF assms(1)] by simp
  with True x show ?thesis
    by (cases q) (simp add: dequeue_def pop_block_def queue_free_def)
next
  case False
  obtain x xs where c: "contents q = x # xs"
    using assms(2) by (cases "contents q") auto
  then have bl: "blocks q = map mk_block (x # xs)" and bs: "bsize q = length (x # xs)"
    using queue_inv_blocks [OF assms(1)] queue_inv_bsize [OF assms(1)] by simp_all
  have "shift_blocks 1 (bsize q) (blocks q)
      = Inr (map mk_block (take (1 - 1) (x # xs) @ drop 1 (x # xs) @ drop (length (x # xs) - 1) (x # xs)))"
    unfolding bl bs by (rule shift_blocks_mk) simp_all
  with False c show ?thesis
    by (simp add: dequeue_def pop_block_def Let_def bs)
qed

subsection \<open>The FIFO contract\<close>

interpretation bq: fifo_channel enqueue dequeue contents qb_bytes queue_inv qb_wf
  by unfold_locales (simp_all add: queue_steps)

lemmas queue_simps = queue_steps queue_empty_iff contents_init contents_free

text \<open>\<open>queue_forward\<close> on well-formed queues.\<close>

lemma queue_forward_step:
  assumes "queue_inv to" and "queue_inv from_q" and ne: "contents from_q \<noteq> []"
  shows "queue_forward to from_q peek =
    Inr (True, enqueue to (mk_block (hd (contents from_q))),
         if peek then from_q else dequeue from_q)"
  using assms by (simp add: queue_forward_def queue_steps queue_empty_iff)

lemma queue_forward_empty: "bsize from_q = 0 \<Longrightarrow> queue_forward to from_q peek = Inr (False, to, from_q)"
  by (simp add: queue_forward_def queue_empty_def)

subsection \<open>Runs of a queue against a list\<close>

text \<open>
  A client's calls on one queue, run on the code's operations and on a plain list.  \<open>Pop\<close> and
  \<open>Peek\<close> pass a block to fill; the outputs are the return code and, where there is one, the
  bytes of the filled block.
\<close>

datatype qop = Push qblock | Pop | Peek

fun queue_run :: "queue \<Rightarrow> qop list \<Rightarrow> ((int \<times> byte list) list \<times> queue) res" where
  "queue_run q [] = Inr ([], q)"
| "queue_run q (Push b # ops) =
     (case push_block True q b of
        Inl e \<Rightarrow> Inl e
      | Inr (r, q) \<Rightarrow> (case queue_run q ops of
          Inl e \<Rightarrow> Inl e | Inr (out, q) \<Rightarrow> Inr ((r, []) # out, q)))"
| "queue_run q (Pop # ops) =
     (case pop_block q (Some qblock_init) of
        Inl e \<Rightarrow> Inl e
      | Inr (r, q, b) \<Rightarrow> (case queue_run q ops of
          Inl e \<Rightarrow> Inl e | Inr (out, q) \<Rightarrow> Inr ((r, qb_bytes (the b)) # out, q)))"
| "queue_run q (Peek # ops) =
     (case peek_block q (Some qblock_init) of
        Inl e \<Rightarrow> Inl e
      | Inr (r, b) \<Rightarrow> (case queue_run q ops of
          Inl e \<Rightarrow> Inl e | Inr (out, q) \<Rightarrow> Inr ((r, qb_bytes (the b)) # out, q)))"

fun list_run :: "byte list list \<Rightarrow> qop list \<Rightarrow> (int \<times> byte list) list \<times> byte list list" where
  "list_run xs [] = ([], xs)"
| "list_run xs (Push b # ops) =
     (let (out, ys) = list_run (xs @ [qb_bytes b]) ops in ((0, []) # out, ys))"
| "list_run [] (Pop # ops) = (let (out, ys) = list_run [] ops in ((1, []) # out, ys))"
| "list_run (x # xs) (Pop # ops) =
     (let (out, ys) = list_run xs ops in ((if xs = [] then 2 else 0, x) # out, ys))"
| "list_run [] (Peek # ops) = (let (out, ys) = list_run [] ops in ((1, []) # out, ys))"
| "list_run (x # xs) (Peek # ops) =
     (let (out, ys) = list_run (x # xs) ops in ((0, x) # out, ys))"

lemma queue_run_list:
  "queue_inv q \<Longrightarrow> (\<forall>b. Push b \<in> set ops \<longrightarrow> qb_wf b) \<Longrightarrow>
   \<exists>q'. queue_run q ops = Inr (fst (list_run (contents q) ops), q') \<and> queue_inv q'
       \<and> contents q' = snd (list_run (contents q) ops)"
proof (induction "contents q" ops arbitrary: q rule: list_run.induct)
  case (1 q)
  then show ?case by simp
next
  case (2 b ops q)
  then have wf: "qb_wf b" by simp
  note st = push_block_step [OF \<open>queue_inv q\<close> wf]
  show ?case
    using "2.hyps" [of "enqueue q b"] "2.prems" st by (auto simp: split_beta)
next
  case (3 ops q)
  then have e: "contents q = []" by simp
  then have z: "bsize q = 0" using queue_inv_bsize [OF \<open>queue_inv q\<close>] by simp
  obtain q' where "queue_run q ops = Inr (fst (list_run [] ops), q')" and "queue_inv q'"
    and "contents q' = snd (list_run [] ops)"
    using "3.hyps"(1) [of q] "3.prems" e by auto
  then show ?case by (simp add: pop_block_empty [OF z] e split_beta)
next
  case (4 x xs ops q)
  then have c: "contents q = x # xs" by simp
  then have ne: "contents q \<noteq> []" by simp
  note st = pop_block_step [OF \<open>queue_inv q\<close> ne]
  show ?case
    using "4.hyps"(1) [of "dequeue q"] "4.prems" st c by (auto simp: split_beta)
next
  case (5 ops q)
  then have e: "contents q = []" by simp
  then have z: "bsize q = 0" using queue_inv_bsize [OF \<open>queue_inv q\<close>] by simp
  obtain q' where "queue_run q ops = Inr (fst (list_run [] ops), q')" and "queue_inv q'"
    and "contents q' = snd (list_run [] ops)"
    using "5.hyps"(1) [of q] "5.prems" e by auto
  then show ?case by (simp add: peek_block_empty [OF z] e split_beta)
next
  case (6 x xs ops q)
  then have c: "contents q = x # xs" by simp
  then have ne: "contents q \<noteq> []" by simp
  note st = peek_block_step [OF \<open>queue_inv q\<close> ne]
  show ?case
    using "6.hyps"(1) [of q] "6.prems" st c by (auto simp: split_beta)
qed

subsection \<open>Properties\<close>

text \<open>C19: any sequence of pushes, pops and peeks on a queue answers what a list would, with the
  return codes of the code (0, 1 for an empty queue, 2 when the last block leaves), and never
  faults.\<close>

theorem queue_refines_list:
  assumes "queue_inv q" and "\<forall>b. Push b \<in> set ops \<longrightarrow> qb_wf b"
  shows "\<exists>q'. queue_run q ops = Inr (fst (list_run (contents q) ops), q') \<and> queue_inv q'
       \<and> contents q' = snd (list_run (contents q) ops)"
  using assms by (rule queue_run_list)

theorem queue_refines_list_witness:
  "\<exists>q'. queue_run queue_init [Push (mk_block [1]), Push (mk_block [2, 3]), Peek, Pop, Pop, Pop]
     = Inr ([(0, []), (0, []), (0, [1]), (0, [1]), (2, [2, 3]), (1, [])], q') \<and> contents q' = []"
  using queue_refines_list [of queue_init "[Push (mk_block [1]), Push (mk_block [2, 3]), Peek, Pop, Pop, Pop]"]
  by auto

text \<open>Blocks leave a queue in the order in which they entered it, copied byte for byte.\<close>

theorem queue_is_fifo:
  assumes "\<forall>b \<in> set bs. qb_wf b" and "i < length bs"
  shows "peek_block ((dequeue ^^ i) (foldl enqueue queue_init bs)) (Some qblock_init)
       = Inr (0, Some (mk_block (qb_bytes (bs ! i))))"
proof -
  let ?q = "foldl enqueue queue_init bs" and ?qi = "(dequeue ^^ i) (foldl enqueue queue_init bs)"
  have e: "queue_inv ?q" "contents ?q = map qb_bytes bs"
    using bq.enqs [of queue_init bs] assms(1) by simp_all
  then have d: "queue_inv ?qi" "contents ?qi = drop i (map qb_bytes bs)"
    using bq.deqs [of ?q i] assms(2) by simp_all
  moreover have "hd (contents ?qi) = qb_bytes (bs ! i)"
    by (rule bq.fifo_order) (use assms in simp_all)
  ultimately show ?thesis
    using peek_block_step [OF d(1), of "Some qblock_init"] assms(2) by simp
qed

theorem queue_is_fifo_witness:
  "peek_block (dequeue (foldl enqueue queue_init [mk_block [1], mk_block [2, 3]])) (Some qblock_init)
     = Inr (0, Some (mk_block [2, 3]))"
  using queue_is_fifo [of "[mk_block [1], mk_block [2, 3]]" 1] by simp

text \<open>Taking the last block off a queue destroys the queue's mutex: \<open>pop_block\<close> answers 2
  and calls \<open>queue_free\<close>, so from then on the queue is used without mutual exclusion.\<close>

theorem drained_queue_unlocked:
  assumes "queue_inv q" and "contents q = [x]"
  shows "\<exists>q'. pop_block q None = Inr (2, q', None) \<and> blocks_mtx q' = MtxDestroyed
    \<and> (\<forall>b. qb_wf b \<longrightarrow> (\<exists>q''. push_block True q' b = Inr (0, q'') \<and> blocks_mtx q'' = MtxDestroyed))"
proof -
  have ne: "contents q \<noteq> []" using assms(2) by simp
  have "blocks_mtx (dequeue q) = MtxDestroyed" using dequeue_mtx [OF assms(1) ne] assms(2) by simp
  then show ?thesis
    using pop_block_step(1) [OF assms(1) ne, of None] pop_block_step(2) [OF assms(1) ne]
      push_block_step(1,4) assms(2) by auto
qed

theorem drained_queue_unlocked_witness:
  "\<exists>q'. pop_block (enqueue queue_init (mk_block [7])) None = Inr (2, q', None)
      \<and> blocks_mtx q' = MtxDestroyed"
  using drained_queue_unlocked [of "enqueue queue_init (mk_block [7])" "[7]"]
    push_block_step [of queue_init "mk_block [7]"] by auto

end
