(* ===== verification/ByteCodec.thy ===== *)
theory ByteCodec
  imports Interfaces
begin

text \<open>
  The object representation of unsigned integers on the target: \<open>memcpy\<close> of an integer writes
  its bytes least significant first.  The codec contract of the interfaces is interpreted for
  the widths that the packet code uses.
\<close>

definition le_bytes :: "nat \<Rightarrow> 'a::len word \<Rightarrow> byte list" where
  "le_bytes n w = map (\<lambda>i. ucast (drop_bit (8 * i) w)) [0..<n]"

fun le_word :: "byte list \<Rightarrow> 'a::len word" where
  "le_word [] = 0"
| "le_word (b # bs) = ucast b OR push_bit 8 (le_word bs)"

lemma length_le_bytes [simp]: "length (le_bytes n w) = n"
  by (simp add: le_bytes_def)

lemma le_bytes_0 [simp]: "le_bytes 0 w = []"
  by (simp add: le_bytes_def)

lemma le_bytes_Suc: "le_bytes (Suc n) w = ucast w # le_bytes n (drop_bit 8 w)"
proof -
  have "map (\<lambda>i. ucast (drop_bit (8 * i) w)) [0..<Suc n]
      = ucast w # map (\<lambda>i. ucast (drop_bit (8 * Suc i) w)) [0..<n]"
    by (simp add: map_upt_Suc del: upt_Suc)
  then show ?thesis
    by (simp add: le_bytes_def drop_bit_drop_bit add.commute)
qed

lemma le_bytes_take_bit: "8 * n \<le> m \<Longrightarrow> le_bytes n (take_bit m w) = le_bytes n w"
  by (rule nth_equalityI)
     (auto simp: le_bytes_def bit_eq_iff bit_unsigned_iff bit_drop_bit_eq bit_take_bit_iff
       bit_ucast_iff)

lemma le_word_le_bytes_take: "le_word (le_bytes n w) = take_bit (8 * n) w"
proof (induction n arbitrary: w)
  case 0
  then show ?case by simp
next
  case (Suc n)
  have "(ucast (ucast w :: byte) :: 'a word) OR push_bit 8 (take_bit (8 * n) (drop_bit 8 w))
      = take_bit (8 * Suc n) w"
    by (rule bit_eqI)
       (auto simp: bit_or_iff bit_push_bit_iff bit_take_bit_iff bit_drop_bit_eq bit_ucast_iff
          bit_unsigned_iff)
  then show ?case
    by (simp add: le_bytes_Suc Suc)
qed

lemma le_word_le_bytes:
  "LENGTH('a::len) \<le> 8 * n \<Longrightarrow> le_word (le_bytes n (w :: 'a word)) = w"
  by (simp add: le_word_le_bytes_take take_bit_word_eq_self)

lemma le_bytes_le_word:
  "8 * length bs \<le> LENGTH('a::len) \<Longrightarrow> le_bytes (length bs) (le_word bs :: 'a word) = bs"
proof (induction bs)
  case Nil
  then show ?case by simp
next
  case (Cons b bs)
  have "ucast (ucast b OR push_bit 8 (le_word bs) :: 'a word) = b"
    using Cons.prems
    by (intro bit_eqI) (auto simp: bit_or_iff bit_push_bit_iff bit_unsigned_iff bit_ucast_iff)
  moreover have "drop_bit 8 (ucast b OR push_bit 8 (le_word bs) :: 'a word)
      = take_bit (LENGTH('a) - 8) (le_word bs)"
    by (rule bit_eqI)
       (auto simp: bit_or_iff bit_push_bit_iff bit_unsigned_iff bit_ucast_iff bit_drop_bit_eq
          bit_take_bit_iff dest: bit_imp_le_length)
  ultimately show ?case
    using Cons by (simp add: le_bytes_Suc le_bytes_take_bit)
qed

lemma le_bytes_le_word_n:
  "length bs = n \<Longrightarrow> 8 * n \<le> LENGTH('a::len) \<Longrightarrow> le_bytes n (le_word bs :: 'a word) = bs"
  using le_bytes_le_word [of bs, where 'a = 'a] by simp

interpretation u64_codec: fixed_codec "le_bytes 8 :: ullong \<Rightarrow> byte list" le_word 8
  by unfold_locales (simp_all add: le_word_le_bytes le_bytes_le_word_n)

interpretation u32_codec: fixed_codec "le_bytes 4 :: 32 word \<Rightarrow> byte list" le_word 4
  by unfold_locales (simp_all add: le_word_le_bytes le_bytes_le_word_n)

end
