(* ===== verification/Packet.thy ===== *)
theory Packet
  imports Queue ByteCodec
begin

text \<open>
  The packet of \<open>code/DCN/src/dnet/general.c\<close>: its record, the functions that build, copy and
  free it, its wire format (\<open>packet_serial\<close>, \<open>packet_deserial\<close>) and that of the traceroute
  record.
\<close>

datatype PACKET_TYPE = REQUEST | RESPONSE | SIGNAL | BROADCAST | SIG_BROADCAST | TRACEROUTE | PING

text \<open>
  An object of the enumeration type is an \<open>int\<close> that \<open>packet_deserial\<close> fills from the wire
  without a check, so a packet holds the 32-bit value and not the enumerator.
\<close>

fun pt_code :: "PACKET_TYPE \<Rightarrow> 32 word" where
  "pt_code REQUEST = 0"
| "pt_code RESPONSE = 1"
| "pt_code SIGNAL = 2"
| "pt_code BROADCAST = 3"
| "pt_code SIG_BROADCAST = 4"
| "pt_code TRACEROUTE = 5"
| "pt_code PING = 6"

lemma pt_code_inject [simp]: "pt_code a = pt_code b \<longleftrightarrow> a = b"
  by (cases a; cases b) simp_all

instantiation PACKET_TYPE :: linorder
begin

definition less_eq_PACKET_TYPE :: "PACKET_TYPE \<Rightarrow> PACKET_TYPE \<Rightarrow> bool" where
  "less_eq_PACKET_TYPE a b \<longleftrightarrow> pt_code a \<le> pt_code b"

definition less_PACKET_TYPE :: "PACKET_TYPE \<Rightarrow> PACKET_TYPE \<Rightarrow> bool" where
  "less_PACKET_TYPE a b \<longleftrightarrow> pt_code a < pt_code b"

instance
proof
  fix a b :: PACKET_TYPE
  show "a \<le> b \<Longrightarrow> b \<le> a \<Longrightarrow> a = b"
    unfolding less_eq_PACKET_TYPE_def using order.antisym pt_code_inject by blast
qed (auto simp: less_eq_PACKET_TYPE_def less_PACKET_TYPE_def order.strict_iff_order)

end

record packet =
  packtype :: "32 word"
  from_os :: bool
  from_uid :: ullong
  to_uid :: ullong
  trav_fuid :: ullong
  trav_tuid :: ullong
  muid :: ullong
  cmuid :: ullong
  pdata :: qblock

record trp_data =
  is_response :: bool
  success :: bool
  req_uid :: ullong

subsection \<open>The wire format\<close>

definition packet_general_ofs :: nat where
  "packet_general_ofs = 8 * 6 + 8 + 4 + 1"

text \<open>The object representation of a \<open>bool\<close>; a byte other than 0 reads as true.\<close>

definition bool_byte :: "bool \<Rightarrow> byte" where
  "bool_byte b = (if b then 1 else 0)"

definition packet_header :: "packet \<Rightarrow> byte list" where
  "packet_header p =
     le_bytes 8 (from_uid p) @ le_bytes 8 (to_uid p) @ le_bytes 8 (trav_fuid p)
     @ le_bytes 8 (trav_tuid p) @ le_bytes 8 (muid p) @ le_bytes 8 (cmuid p)
     @ le_bytes 4 (packtype p) @ [bool_byte (from_os p)]
     @ le_bytes 8 (of_nat (dsize (pdata p)) :: size_t)"

text \<open>
  The size is computed in \<open>size_t\<close>; a block that wraps around is too short for the bytes that
  are then written.
\<close>

definition packet_serial :: "packet \<Rightarrow> qblock res" where
  "packet_serial pack =
     (let rssize = of_nat (dsize (pdata pack)) + of_nat packet_general_ofs :: size_t in
      if unat rssize < packet_general_ofs + dsize (pdata pack) then Inl OutOfBounds
      else case memcpy_from (data (pdata pack)) (dsize (pdata pack)) of
        Inl e \<Rightarrow> Inl e
      | Inr bs \<Rightarrow> Inr \<lparr>data = Buf (packet_header pack @ bs), dsize = unat rssize\<rparr>)"

definition u64_at :: "nat \<Rightarrow> byte list \<Rightarrow> ullong" where
  "u64_at k bs = le_word (take 8 (drop k bs))"

text \<open>
  \<open>packet_deserial\<close> fills \<open>out\<close>, also on the failing paths: the second check comes after the
  header fields and the declared size have been stored.
\<close>

definition packet_deserial :: "packet \<Rightarrow> qblock \<Rightarrow> (bool \<times> packet) res" where
  "packet_deserial out d =
     (if dsize d < packet_general_ofs then Inr (False, out)
      else case memcpy_from (data d) packet_general_ofs of
        Inl e \<Rightarrow> Inl e
      | Inr h \<Rightarrow>
          let data_size = u64_at 53 h;
              out = out\<lparr>from_uid := u64_at 0 h, to_uid := u64_at 8 h,
                        trav_fuid := u64_at 16 h, trav_tuid := u64_at 24 h,
                        muid := u64_at 32 h, cmuid := u64_at 40 h,
                        packtype := le_word (take 4 (drop 48 h)),
                        from_os := (h ! 52 \<noteq> 0),
                        pdata := (pdata out)\<lparr>dsize := unat data_size\<rparr>\<rparr>
          in if (of_nat (dsize d) :: size_t) - data_size \<noteq> of_nat packet_general_ofs
             then Inr (False, out)
             else case memcpy_from (data d) (packet_general_ofs + unat data_size) of
               Inl e \<Rightarrow> Inl e
             | Inr bs \<Rightarrow>
                 Inr (True, out\<lparr>pdata := \<lparr>data = Buf (drop packet_general_ofs bs),
                                          dsize = unat data_size\<rparr>\<rparr>))"

text \<open>The padding bytes of \<open>struct trp_data\<close> are indeterminate: \<open>pad\<close>, six bytes.\<close>

definition trp_offset :: nat where
  "trp_offset = 16"

definition trp_data_serial :: "byte list \<Rightarrow> trp_data \<Rightarrow> qblock" where
  "trp_data_serial pad t =
     \<lparr>data = Buf ([bool_byte (is_response t), bool_byte (success t)] @ pad
                  @ le_bytes 8 (req_uid t)),
      dsize = trp_offset\<rparr>"

definition trp_data_deserial :: "trp_data \<Rightarrow> qblock \<Rightarrow> (bool \<times> trp_data) res" where
  "trp_data_deserial t d =
     (if dsize d \<noteq> trp_offset then Inr (False, t)
      else case memcpy_from (data d) trp_offset of
        Inl e \<Rightarrow> Inl e
      | Inr bs \<Rightarrow> Inr (True, \<lparr>is_response = (bs ! 0 \<noteq> 0), success = (bs ! 1 \<noteq> 0),
                             req_uid = u64_at 8 bs\<rparr>))"

subsection \<open>Building, copying and freeing packets\<close>

definition packet_free :: "packet \<Rightarrow> packet" where
  "packet_free p =
     p\<lparr>pdata := qblock_free (pdata p), from_uid := 0, to_uid := 0, muid := 0, cmuid := 0,
       trav_fuid := 0, trav_tuid := 0, packtype := pt_code REQUEST, from_os := False\<rparr>"

definition packet_init :: "buf \<Rightarrow> nat \<Rightarrow> ullong \<Rightarrow> ullong \<Rightarrow> ullong \<Rightarrow> packet res" where
  "packet_init d sz from to m =
     (let fields = \<lambda>b. \<lparr>packtype = pt_code REQUEST, from_os = False, from_uid = from,
                        to_uid = to, trav_fuid = 0, trav_tuid = 0, muid = m, cmuid = 0,
                        pdata = b\<rparr>
      in if d = Null then Inr (fields qblock_init)
         else case memcpy_from d sz of
           Inl e \<Rightarrow> Inl e
         | Inr bs \<Rightarrow> (case qblock_fill qblock_init bs of
             Inl e \<Rightarrow> Inl e
           | Inr b \<Rightarrow> Inr (fields b)))"

definition qpacket_init :: "qblock \<Rightarrow> ullong \<Rightarrow> ullong \<Rightarrow> ullong \<Rightarrow> packet res" where
  "qpacket_init d from to m =
     (case qblock_dup qblock_init d of
        Inl e \<Rightarrow> Inl e
      | Inr b \<Rightarrow> Inr \<lparr>packtype = pt_code REQUEST, from_os = False, from_uid = from,
                     to_uid = to, trav_fuid = 0, trav_tuid = 0, muid = m, cmuid = 0,
                     pdata = b\<rparr>)"

definition packet_fill :: "packet \<Rightarrow> byte list \<Rightarrow> packet res" where
  "packet_fill pack bs =
     (case qblock_fill (pdata pack) bs of
        Inl e \<Rightarrow> Inl e
      | Inr b \<Rightarrow> Inr (pack\<lparr>pdata := b\<rparr>))"

definition packet_templ :: "packet \<Rightarrow> byte list \<Rightarrow> packet res" where
  "packet_templ pack bs =
     (case qblock_fill qblock_init bs of
        Inl e \<Rightarrow> Inl e
      | Inr b \<Rightarrow> Inr (pack\<lparr>pdata := b\<rparr>))"

definition copy_packet :: "packet \<Rightarrow> packet res" where
  "copy_packet src =
     (case qblock_dup qblock_init (pdata src) of
        Inl e \<Rightarrow> Inl e
      | Inr b \<Rightarrow> Inr \<lparr>packtype = packtype src, from_os = from_os src,
                     from_uid = from_uid src, to_uid = to_uid src,
                     trav_fuid = trav_fuid src, trav_tuid = trav_tuid src,
                     muid = muid src, cmuid = cmuid src, pdata = b\<rparr>)"

text \<open>\<open>move_packet\<close>: the new packet, and what the freed source object last held.\<close>

definition move_packet :: "packet \<Rightarrow> (packet \<times> packet) res" where
  "move_packet src =
     (case copy_packet src of
        Inl e \<Rightarrow> Inl e
      | Inr dest \<Rightarrow> Inr (dest, packet_free src))"

definition create_traceroute :: "byte list \<Rightarrow> trp_data \<Rightarrow> ullong \<Rightarrow> packet res" where
  "create_traceroute pad t from =
     (case packet_init Null 0 from 0 0 of
        Inl e \<Rightarrow> Inl e
      | Inr output \<Rightarrow> (case qblock_dup (pdata output) (trp_data_serial pad t) of
          Inl e \<Rightarrow> Inl e
        | Inr b \<Rightarrow> Inr (output\<lparr>pdata := b, packtype := pt_code TRACEROUTE\<rparr>)))"

subsection \<open>Lemmas on the wire format\<close>

text \<open>
  \<open>packet_bytes p\<close> is what travels for \<open>p\<close>; \<open>packet_norm p\<close> is \<open>p\<close> with its payload
  in a block of exactly its size, which is how a receiver holds it.
\<close>

definition packet_bytes :: "packet \<Rightarrow> byte list" where
  "packet_bytes p = packet_header p @ qb_bytes (pdata p)"

definition packet_norm :: "packet \<Rightarrow> packet" where
  "packet_norm p = p\<lparr>pdata := \<lparr>data = Buf (qb_bytes (pdata p)), dsize = dsize (pdata p)\<rparr>\<rparr>"

definition packet_wf :: "packet \<Rightarrow> bool" where
  "packet_wf p \<longleftrightarrow> qb_wf (pdata p) \<and> packet_general_ofs + dsize (pdata p) < 2 ^ 64"

lemma packet_general_ofs_61 [simp]: "packet_general_ofs = 61"
  by (simp add: packet_general_ofs_def)

lemma length_packet_header [simp]: "length (packet_header p) = 61"
  by (simp add: packet_header_def)

lemma length_packet_bytes:
  "packet_wf p \<Longrightarrow> length (packet_bytes p) = 61 + dsize (pdata p)"
  by (simp add: packet_bytes_def packet_wf_def qb_wf_dsize)

lemma bool_byte_neq_0 [simp]: "bool_byte b \<noteq> 0 \<longleftrightarrow> b"
  by (simp add: bool_byte_def)

lemma packet_serial_ok [crt]:
  assumes "packet_wf p"
  shows "packet_serial p = Inr \<lparr>data = Buf (packet_bytes p), dsize = length (packet_bytes p)\<rparr>"
proof -
  have "unat (of_nat (dsize (pdata p)) + of_nat packet_general_ofs :: size_t) = 61 + dsize (pdata p)"
    using assms by (simp add: packet_wf_def unat_word_ariths unat_of_nat)
  then show ?thesis
    using assms length_packet_bytes [OF assms]
    by (simp add: packet_serial_def packet_wf_def qb_wf_read packet_bytes_def)
qed

lemma memcpy_from_wf:
  assumes "qb_wf d" and "n \<le> dsize d"
  shows "memcpy_from (data d) n = Inr (take n (qb_bytes d))"
  using assms by (cases "data d") (auto simp: qb_wf_def qb_bytes_def memcpy_from_def min_def)

lemma packet_header_fields [simp]:
  "u64_at 0 (packet_header p) = from_uid p"
  "u64_at 8 (packet_header p) = to_uid p"
  "u64_at 16 (packet_header p) = trav_fuid p"
  "u64_at 24 (packet_header p) = trav_tuid p"
  "u64_at 32 (packet_header p) = muid p"
  "u64_at 40 (packet_header p) = cmuid p"
  "le_word (take 4 (drop 48 (packet_header p))) = packtype p"
  "packet_header p ! 52 = bool_byte (from_os p)"
  "u64_at 53 (packet_header p) = of_nat (dsize (pdata p))"
  by (simp_all add: u64_at_def packet_header_def nth_append u64_codec.dec_enc u32_codec.dec_enc)

lemma packet_deserial_bytes:
  assumes d: "qb_wf d" "qb_bytes d = packet_bytes p" and p: "packet_wf p"
  shows "packet_deserial out d = Inr (True, packet_norm p)"
proof -
  let ?n = "dsize (pdata p)"
  have n: "?n < 2 ^ 64" "61 + ?n < 2 ^ 64"
    using p by (simp_all add: packet_wf_def)
  have dn: "dsize d = 61 + ?n"
    using qb_wf_dsize [OF d(1)] d(2) length_packet_bytes [OF p] by simp
  have h: "memcpy_from (data d) 61 = Inr (packet_header p)"
    using memcpy_from_wf [OF d(1), of 61] dn by (simp add: d(2) packet_bytes_def)
  have sz: "unat (of_nat ?n :: size_t) = ?n"
    using n by (simp add: unat_of_nat)
  have all: "memcpy_from (data d) (61 + ?n) = Inr (packet_bytes p)"
    using memcpy_from_wf [OF d(1), of "61 + ?n"] dn length_packet_bytes [OF p]
    by (simp add: d(2))
  have diff: "(of_nat (dsize d) :: size_t) - of_nat ?n = 61"
    by (simp add: dn)
  have drp: "drop 61 (packet_bytes p) = qb_bytes (pdata p)"
    by (simp add: packet_bytes_def)
  show ?thesis
    by (cases p) (use h sz all diff drp dn in \<open>simp add: packet_deserial_def packet_norm_def Let_def\<close>)
qed

text \<open>Which blocks are accepted, and that no well-formed block faults.\<close>

lemma packet_deserial_cases:
  assumes d: "qb_wf d" "dsize d < 2 ^ 64"
  shows "\<exists>p. packet_deserial out d =
           Inr (61 \<le> dsize d \<and> unat (u64_at 53 (qb_bytes d)) = dsize d - 61, p)"
proof (cases "61 \<le> dsize d")
  case False
  then show ?thesis by (simp add: packet_deserial_def)
next
  case True
  let ?h = "take 61 (qb_bytes d)"
  have h: "memcpy_from (data d) 61 = Inr ?h"
    using memcpy_from_wf [OF d(1) True] .
  have u: "u64_at 53 ?h = u64_at 53 (qb_bytes d)"
    by (simp add: u64_at_def drop_take)
  let ?w = "u64_at 53 (qb_bytes d)"
  have "(of_nat (dsize d) :: size_t) - ?w = 61 \<longleftrightarrow> ?w = of_nat (dsize d - 61)"
    using True by (auto simp: of_nat_diff algebra_simps)
  also have "\<dots> \<longleftrightarrow> unat ?w = dsize d - 61"
    using d(2) by (simp add: word_unat_eq_iff unat_of_nat)
  finally have eq: "(of_nat (dsize d) :: size_t) - ?w = 61 \<longleftrightarrow> unat ?w = dsize d - 61" .
  show ?thesis
  proof (cases "unat ?w = dsize d - 61")
    case False
    with True h u eq show ?thesis by (simp add: packet_deserial_def Let_def)
  next
    case acc: True
    then have "memcpy_from (data d) (61 + unat ?w) = Inr (qb_bytes d)"
      using memcpy_from_wf [OF d(1), of "61 + unat ?w"] True qb_wf_dsize [OF d(1)] by simp
    with True h u eq acc show ?thesis by (simp add: packet_deserial_def Let_def)
  qed
qed

text \<open>The bytes of an accepted block come back, if its \<open>bool\<close> byte is one that C writes.\<close>

lemma take_u64: "k + 8 \<le> length bs \<Longrightarrow> le_bytes 8 (u64_at k bs) = take 8 (drop k bs)"
  unfolding u64_at_def by (rule u64_codec.enc_dec) simp

lemma packet_deserial_serial:
  assumes d: "qb_wf d" "dsize d < 2 ^ 64" and acc: "packet_deserial out d = Inr (True, p)"
    and b: "qb_bytes d ! 52 \<in> {0, 1}"
  shows "packet_serial p = Inr \<lparr>data = Buf (qb_bytes d), dsize = dsize d\<rparr>"
proof -
  let ?bs = "qb_bytes d"
  have len: "dsize d = length ?bs" by (rule qb_wf_dsize [OF d(1)])
  have ge: "61 \<le> length ?bs" and sz: "unat (u64_at 53 ?bs) = length ?bs - 61"
    using packet_deserial_cases [OF d, of out] acc len by auto
  have h: "memcpy_from (data d) 61 = Inr (take 61 ?bs)"
    using memcpy_from_wf [OF d(1)] ge len by simp
  have all: "memcpy_from (data d) (61 + (length ?bs - 61)) = Inr ?bs"
    using memcpy_from_wf [OF d(1)] ge len by simp
  have u: "u64_at k (take 61 ?bs) = u64_at k ?bs" if "k + 8 \<le> 61" for k
    using that by (simp add: u64_at_def drop_take min_def)
  have p: "p = \<lparr>packtype = le_word (take 4 (drop 48 ?bs)), from_os = (?bs ! 52 \<noteq> 0),
      from_uid = u64_at 0 ?bs, to_uid = u64_at 8 ?bs, trav_fuid = u64_at 16 ?bs,
      trav_tuid = u64_at 24 ?bs, muid = u64_at 32 ?bs, cmuid = u64_at 40 ?bs,
      pdata = \<lparr>data = Buf (drop 61 ?bs), dsize = length ?bs - 61\<rparr>\<rparr>"
    using acc ge len h all
    by (cases out) (simp add: packet_deserial_def Let_def u sz drop_take split: if_splits)
  have wf: "packet_wf p"
    using d(2) len ge by (simp add: p packet_wf_def qb_wf_def)
  have bytes: "bool_byte (?bs ! 52 \<noteq> 0) = ?bs ! 52"
    using b by (auto simp: bool_byte_def)
  have w4: "le_bytes 4 (le_word (take 4 (drop 48 ?bs)) :: 32 word) = take 4 (drop 48 ?bs)"
    by (rule u32_codec.enc_dec) (use ge in simp)
  have szw: "(of_nat (length ?bs - 61) :: size_t) = u64_at 53 ?bs"
    by (simp add: sz [symmetric])
  have cut: "take n (drop k ?bs) @ drop (k + n) ?bs = drop k ?bs" for n k
    by (metis add.commute append_take_drop_id drop_drop)
  have one: "[?bs ! 52] = take 1 (drop 52 ?bs)"
    using ge by (simp add: take_Suc hd_drop_conv_nth)
  have "packet_bytes p = take 8 (drop 0 ?bs) @ take 8 (drop 8 ?bs) @ take 8 (drop 16 ?bs)
     @ take 8 (drop 24 ?bs) @ take 8 (drop 32 ?bs) @ take 8 (drop 40 ?bs)
     @ take 4 (drop 48 ?bs) @ take 1 (drop 52 ?bs) @ take 8 (drop 53 ?bs) @ drop 61 ?bs"
    using ge unfolding one [symmetric]
    by (simp add: p packet_bytes_def packet_header_def bytes w4 szw take_u64)
  also have "\<dots> = ?bs"
    using cut [of 8 0] cut [of 8 8] cut [of 8 16] cut [of 8 24] cut [of 8 32] cut [of 8 40]
      cut [of 4 48] cut [of 1 52] cut [of 8 53] by simp
  finally have "packet_bytes p = ?bs" .
  then show ?thesis
    using packet_serial_ok [OF wf] len by simp
qed

lemma copy_packet_ok [crt]:
  "qb_wf (pdata p) \<Longrightarrow> copy_packet p = Inr (p\<lparr>pdata := mk_block (qb_bytes (pdata p))\<rparr>)"
  by (simp add: copy_packet_def)

lemma packet_bytes_copy:
  "qb_wf (pdata p) \<Longrightarrow> packet_bytes (p\<lparr>pdata := mk_block (qb_bytes (pdata p))\<rparr>) = packet_bytes p"
  by (simp add: packet_bytes_def packet_header_def qb_wf_dsize)

lemma trp_round_trip:
  assumes "length pad = 6"
  shows "trp_data_deserial t' (trp_data_serial pad t) = Inr (True, t)"
  using assms
  by (cases t) (simp add: trp_data_deserial_def trp_data_serial_def trp_offset_def memcpy_from_def
      u64_at_def nth_append u64_codec.dec_enc)

subsection \<open>Properties\<close>

text \<open>A packet that the witnesses below and in later theories use.\<close>

definition sample_packet :: "ullong \<Rightarrow> ullong \<Rightarrow> packet" where
  "sample_packet from to =
     \<lparr>packtype = pt_code REQUEST, from_os = False, from_uid = from, to_uid = to, trav_fuid = 0,
      trav_tuid = 0, muid = 3, cmuid = 1, pdata = mk_block [7, 8]\<rparr>"

lemma sample_packet_wf [simp]: "packet_wf (sample_packet a b)"
  by (simp add: sample_packet_def packet_wf_def)

lemma sample_packet_simps [simp]:
  "pdata (sample_packet a b) = mk_block [7, 8]" "from_uid (sample_packet a b) = a"
  "to_uid (sample_packet a b) = b" "packtype (sample_packet a b) = pt_code REQUEST"
  "muid (sample_packet a b) = 3" "cmuid (sample_packet a b) = 1"
  "from_os (sample_packet a b) = False"
  by (simp_all add: sample_packet_def)

lemma length_sample_packet [simp]: "length (packet_bytes (sample_packet a b)) = 63"
  using length_packet_bytes [OF sample_packet_wf] by simp

text \<open>C15: what \<open>packet_serial\<close> writes, \<open>packet_deserial\<close> accepts and reads back: the same
  header fields, and the same payload in a block of exactly its size, whatever the receiving object
  held before.\<close>

theorem packet_round_trip:
  assumes "packet_wf p"
  shows "\<exists>blk. packet_serial p = Inr blk \<and> dsize blk = packet_general_ofs + dsize (pdata p)
    \<and> packet_deserial out blk = Inr (True, p\<lparr>pdata := \<lparr>data = Buf (qb_bytes (pdata p)), dsize = dsize (pdata p)\<rparr>\<rparr>)"
proof -
  let ?blk = "\<lparr>data = Buf (packet_bytes p), dsize = length (packet_bytes p)\<rparr>"
  have "qb_wf ?blk" and "qb_bytes ?blk = packet_bytes p" by (simp_all add: qb_wf_def)
  from packet_deserial_bytes [OF this assms] show ?thesis
    using packet_serial_ok [OF assms] length_packet_bytes [OF assms] by (simp add: packet_norm_def)
qed

theorem packet_round_trip_witness:
  "\<exists>blk. packet_serial (sample_packet 10 20) = Inr blk \<and> dsize blk = 63"
  using packet_round_trip [of "sample_packet 10 20"] by auto

text \<open>Conversely, serialising an accepted packet gives the received bytes back, for every
  block whose boolean byte is one that C writes.\<close>

theorem packet_bytes_round_trip:
  assumes "qb_wf d" and "dsize d < 2 ^ 64" and "packet_deserial out d = Inr (True, p)"
    and "qb_bytes d ! 52 \<in> {0, 1}"
  shows "packet_serial p = Inr \<lparr>data = Buf (qb_bytes d), dsize = dsize d\<rparr>"
  using assms by (rule packet_deserial_serial)

theorem packet_bytes_round_trip_witness:
  "packet_serial (packet_norm (sample_packet 10 20))
     = Inr \<lparr>data = Buf (packet_bytes (sample_packet 10 20)), dsize = 63\<rparr>"
proof -
  let ?p = "sample_packet 10 20" and ?d = "mk_block (packet_bytes (sample_packet 10 20))"
  have "packet_deserial ?p ?d = Inr (True, packet_norm ?p)"
    by (rule packet_deserial_bytes) simp_all
  moreover have "qb_bytes ?d ! 52 \<in> {0, 1}"
    by (simp add: packet_bytes_def nth_append bool_byte_def)
  ultimately show ?thesis
    using packet_bytes_round_trip [of ?d ?p "packet_norm ?p"] by simp
qed

text \<open>C16: \<open>packet_deserial\<close> never faults on a well-formed block, and accepts it exactly when it
  is at least a header long and its declared payload size is what follows the header.\<close>

theorem packet_accepted_iff:
  assumes "qb_wf d" and "dsize d < 2 ^ 64"
  shows "\<exists>p. packet_deserial out d =
     Inr (packet_general_ofs \<le> dsize d
          \<and> unat (u64_at 53 (qb_bytes d)) = dsize d - packet_general_ofs, p)"
  using packet_deserial_cases [OF assms] by simp

theorem packet_accepted_iff_witness:
  "\<exists>p. packet_deserial (sample_packet 1 2) (mk_block [1, 2, 3]) = Inr (False, p)"
  using packet_accepted_iff [of "mk_block [1, 2, 3]" "sample_packet 1 2"] by simp

text \<open>The traceroute record survives its own serialisation, whatever its padding holds.\<close>

theorem traceroute_round_trip:
  assumes "length pad = 6"
  shows "trp_data_deserial t' (trp_data_serial pad t) = Inr (True, t)"
  using assms by (rule trp_round_trip)

theorem traceroute_round_trip_witness:
  "trp_data_deserial \<lparr>is_response = False, success = False, req_uid = 0\<rparr>
     (trp_data_serial [9, 9, 9, 9, 9, 9] \<lparr>is_response = True, success = False, req_uid = 77\<rparr>)
   = Inr (True, \<lparr>is_response = True, success = False, req_uid = 77\<rparr>)"
  by (rule traceroute_round_trip) simp

end
