(* ===== verification/ThreadPool.thy ===== *)
theory ThreadPool
  imports Packet
begin

text \<open>
  The thread pool of \<open>code/DCN/src/thr-pool.c\<close>, one call and one round of a worker's loop at a
  time (theory PoolSteps runs the same code action by action).  The objects that tasks point to are
  in heaps of their own: futures, the blocks of tasks without a future, and the atomic counters of
  a thread that gathers several futures.
\<close>

record future =
  fut_pool :: bool          \<comment> \<open>\<open>pool\<close> is not \<open>NULL\<close>\<close>
  inp_block :: qblock
  out_block :: qblock
  fut_ready :: bool         \<comment> \<open>\<open>is_ready\<close>\<close>
  shared_is_ready :: addr
  shared_cond_mtx :: addr
  shared_is_done :: addr
  shared_done :: addr

record task =
  is_future :: bool
  tsk :: addr

record pool =
  pq :: queue               \<comment> \<open>\<open>q\<close>\<close>
  pworkers :: nat           \<comment> \<open>\<open>workers\<close>\<close>
  pool_active :: bool       \<comment> \<open>\<open>is_active\<close>\<close>
  futures :: "addr \<rightharpoonup> future"
  inputs :: "addr \<rightharpoonup> qblock"
  cells :: "addr \<rightharpoonup> nat"     \<comment> \<open>what \<open>shared_is_ready\<close> and \<open>shared_done\<close> point to\<close>

text \<open>\<open>struct task\<close> as the queue carries it: 16 bytes, 7 of them padding.\<close>

definition task_size :: nat where
  "task_size = 16"

definition task_bytes :: "byte list \<Rightarrow> task \<Rightarrow> byte list" where
  "task_bytes pad t = [bool_byte (is_future t)] @ pad @ le_bytes 8 (tsk t)"

definition task_of :: "byte list \<Rightarrow> task" where
  "task_of bs = \<lparr>is_future = (bs ! 0 \<noteq> 0), tsk = le_word (take 8 (drop 8 bs))\<rparr>"

lemma task_round_trip [simp]: "length pad = 7 \<Longrightarrow> task_of (task_bytes pad t) = t"
  by (simp add: task_of_def task_bytes_def u64_codec.dec_enc)

lemma length_task_bytes [simp]: "length pad = 7 \<Longrightarrow> length (task_bytes pad t) = 16"
  by (simp add: task_bytes_def)

subsection \<open>Futures\<close>

definition future_init :: "qblock \<Rightarrow> future res" where
  "future_init inp = bind_res (qblock_dup qblock_init inp) (\<lambda>b.
     Inr \<lparr>fut_pool = True, inp_block = b, out_block = qblock_init, fut_ready = False,
          shared_is_ready = 0, shared_cond_mtx = 0, shared_is_done = 0, shared_done = 0\<rparr>)"

definition future_free :: "future \<Rightarrow> future" where
  "future_free fut =
     fut\<lparr>fut_pool := False, shared_is_ready := 0, shared_cond_mtx := 0, shared_is_done := 0,
         shared_done := 0, out_block := qblock_free (out_block fut), inp_block := qblock_free (inp_block fut)\<rparr>"

subsection \<open>The pool\<close>

definition pool_init :: "nat \<Rightarrow> pool" where
  "pool_init n =
     \<lparr>pq = queue_init, pworkers = n, pool_active = True, futures = Map.empty, inputs = Map.empty,
      cells = Map.empty\<rparr>"

definition pool_free :: "pool \<Rightarrow> pool" where
  "pool_free p = p\<lparr>pool_active := False, pq := queue_free (pq p)\<rparr>"

text \<open>
  \<open>pool_sumbit\<close>: \<open>awaitable\<close> is the future's address or none, \<open>blk\<close> the fresh block of a
  task without one, \<open>pad\<close> the padding of the local \<open>struct task\<close>.
\<close>

definition pool_sumbit :: "byte list \<Rightarrow> addr \<Rightarrow> qblock \<Rightarrow> addr option \<Rightarrow> pool \<Rightarrow> pool res" where
  "pool_sumbit pad blk inp awaitable p =
     bind_res (case awaitable of
         Some f \<Rightarrow> bind_res (future_init inp) (\<lambda>fut.
           Inr (\<lparr>is_future = True, tsk = f\<rparr>, p\<lparr>futures := (futures p)(f \<mapsto> fut)\<rparr>))
       | None \<Rightarrow> bind_res (qblock_dup qblock_init inp) (\<lambda>b.
           Inr (\<lparr>is_future = False, tsk = blk\<rparr>, p\<lparr>inputs := (inputs p)(blk \<mapsto> b)\<rparr>)))
     (\<lambda>(task, p). bind_res (generic_qbfill qblock_init (task_bytes pad task)) (\<lambda>block.
        bind_res (push_block True (pq p) block) (\<lambda>(_, q). Inr (p\<lparr>pq := q\<rparr>))))"

definition gnr_pool_sumbit :: "byte list \<Rightarrow> addr \<Rightarrow> byte list \<Rightarrow> addr option \<Rightarrow> pool \<Rightarrow> pool res" where
  "gnr_pool_sumbit pad blk bs fut p =
     bind_res (generic_qbfill qblock_init bs) (\<lambda>b. pool_sumbit pad blk b fut p)"

text \<open>Telling a thread that gathers: \<open>is_ready\<close>, \<open>done\<close>, then the broadcast.\<close>

definition notify_shared :: "future \<Rightarrow> pool \<Rightarrow> pool res" where
  "notify_shared fut p =
     (if shared_is_ready fut = 0 then Inr p
      else case (cells p (shared_is_ready fut), cells p (shared_done fut)) of
        (Some _, Some n) \<Rightarrow>
          (if shared_cond_mtx fut = 0 \<or> shared_is_done fut = 0 then Inl NullAccess
           else Inr (p\<lparr>cells := (cells p)(shared_is_ready fut \<mapsto> 1, shared_done fut \<mapsto> Suc n)\<rparr>))
      | _ \<Rightarrow> Inl UseAfterFree)"

text \<open>
  One round of \<open>__thr_work\<close>: \<open>None\<close> when it leaves the loop or waits for a task.
  \<open>work\<close> is \<open>working_f\<close>: from the input and output blocks and the world to both afterwards.
\<close>

type_synonym 'w working = "qblock \<Rightarrow> qblock option \<Rightarrow> 'w \<Rightarrow> (qblock option \<times> 'w) res"

definition thr_work :: "'w working \<Rightarrow> pool \<times> 'w \<Rightarrow> (pool \<times> 'w) res option" where
  "thr_work work st =
     (case st of (p, w) \<Rightarrow>
        if \<not> pool_active p \<or> bsize (pq p) = 0 then None
        else Some (bind_res (pop_block (pq p) (Some qblock_init)) (\<lambda>(_, q, block).
          bind_res (generic_qbout (the block) task_size) (\<lambda>bs.
          let task = task_of bs; p = p\<lparr>pq := q\<rparr> in
          if is_future task then
            (case futures p (tsk task) of
               None \<Rightarrow> Inl UseAfterFree
             | Some fut \<Rightarrow> bind_res (work (inp_block fut) (Some (out_block fut)) w) (\<lambda>(out, w).
                 let fut = fut\<lparr>out_block := the out, fut_ready := True\<rparr> in
                 bind_res (notify_shared fut (p\<lparr>futures := (futures p)(tsk task \<mapsto> fut)\<rparr>)) (\<lambda>p. Inr (p, w))))
          else
            (case inputs p (tsk task) of
               None \<Rightarrow> Inl UseAfterFree
             | Some inp \<Rightarrow> bind_res (work inp None w) (\<lambda>(_, w).
                 Inr (p\<lparr>inputs := (inputs p)(tsk task \<mapsto> qblock_free inp)\<rparr>, w)))))))"

text \<open>\<open>await_future\<close>: \<open>None\<close> while it blocks.\<close>

definition await_future :: "addr \<Rightarrow> pool \<Rightarrow> (qblock \<times> pool) res option" where
  "await_future f p =
     (case futures p f of
        None \<Rightarrow> Some (Inl UseAfterFree)
      | Some fut \<Rightarrow>
          (if \<not> fut_ready fut then None
           else Some (bind_res (qblock_dup qblock_init (out_block fut)) (\<lambda>out.
                  Inr (out, p\<lparr>futures := (futures p)(f \<mapsto> future_free fut)\<rparr>)))))"

subsection \<open>What the queue of a pool holds\<close>

definition queued_tasks :: "pool \<Rightarrow> task list" where
  "queued_tasks p = map task_of (contents (pq p))"

definition pool_ok :: "pool \<Rightarrow> bool" where
  "pool_ok p \<longleftrightarrow> queue_inv (pq p) \<and> (\<forall>bs \<in> set (contents (pq p)). length bs = task_size)
     \<and> (\<forall>t \<in> set (queued_tasks p). if is_future t
          then \<exists>fut. futures p (tsk t) = Some fut \<and> qb_wf (inp_block fut) \<and> qb_wf (out_block fut)
          else \<exists>b. inputs p (tsk t) = Some b \<and> qb_wf b)"

lemma pool_ok_init [simp, wf_intro]: "pool_ok (pool_init n)"
  by (simp add: pool_ok_def pool_init_def queued_tasks_def)

lemma future_init_ok:
  "qb_wf inp \<Longrightarrow> future_init inp = Inr \<lparr>fut_pool = True, inp_block = mk_block (qb_bytes inp), out_block = qblock_init,
     fut_ready = False, shared_is_ready = 0, shared_cond_mtx = 0, shared_is_done = 0, shared_done = 0\<rparr>"
  by (simp add: future_init_def)

text \<open>Submitting to a future: its task joins the queue, its input is copied into it.\<close>

lemma pool_sumbit_ok:
  assumes ok: "pool_ok p" and inp: "qb_wf inp" and pad: "length pad = 7"
  obtains p' where "pool_sumbit pad blk inp (Some f) p = Inr p'" "pool_ok p'"
    "queued_tasks p' = queued_tasks p @ [\<lparr>is_future = True, tsk = f\<rparr>]"
    "futures p' = (futures p)(f \<mapsto> \<lparr>fut_pool = True, inp_block = mk_block (qb_bytes inp), out_block = qblock_init,
     fut_ready = False, shared_is_ready = 0, shared_cond_mtx = 0, shared_is_done = 0, shared_done = 0\<rparr>)"
    "inputs p' = inputs p" "cells p' = cells p" "pool_active p' = pool_active p"
proof -
  let ?t = "\<lparr>is_future = True, tsk = f\<rparr>"
  let ?fut = "\<lparr>fut_pool = True, inp_block = mk_block (qb_bytes inp), out_block = qblock_init,
     fut_ready = False, shared_is_ready = 0, shared_cond_mtx = 0, shared_is_done = 0, shared_done = 0\<rparr>"
  let ?b = "\<lparr>data = Buf (task_bytes pad ?t), dsize = 16\<rparr>"
  have b: "qb_wf ?b" "qb_bytes ?b = task_bytes pad ?t" using pad by (simp_all add: qb_wf_def)
  have q: "queue_inv (pq p)" using ok by (simp add: pool_ok_def)
  note st = push_block_step [OF q b(1)]
  let ?p = "p\<lparr>futures := (futures p)(f \<mapsto> ?fut), pq := enqueue (pq p) ?b\<rparr>"
  have fill: "generic_qbfill qblock_init (task_bytes pad ?t) = Inr ?b"
    using pad by (simp add: generic_qbfill_fill qblock_init_def)
  have eq: "pool_sumbit pad blk inp (Some f) p = Inr ?p"
    using fill st(1) future_init_ok [OF inp] by (simp add: pool_sumbit_def)
  have qt: "queued_tasks ?p = queued_tasks p @ [?t]"
    using st(3) b(2) pad by (simp add: queued_tasks_def)
  have "pool_ok ?p"
    using ok st(2,3) b(2) pad qt unfolding pool_ok_def
    by (auto simp: task_size_def)
  with eq qt show thesis by (intro that [of ?p]) simp_all
qed

text \<open>A round that finds a future's task.\<close>

lemma thr_work_future:
  assumes ok: "pool_ok p" and act: "pool_active p"
    and t: "queued_tasks p = \<lparr>is_future = True, tsk = f\<rparr> # ts" and fut: "futures p f = Some fut"
    and wf: "work (inp_block fut) (Some (out_block fut)) w = Inr (Some out, w')" "qb_wf out"
    and tell: "\<And>q. cells q = cells p \<Longrightarrow>
      notify_shared (fut\<lparr>out_block := out, fut_ready := True\<rparr>) q = Inr (q\<lparr>cells := cs\<rparr>)"
  obtains p' where "thr_work work (p, w) = Some (Inr (p', w'))" "pool_ok p'" "queued_tasks p' = ts"
    "futures p' = (futures p)(f \<mapsto> fut\<lparr>out_block := out, fut_ready := True\<rparr>)"
    "inputs p' = inputs p" "cells p' = cs" "pool_active p'"
proof -
  have q: "queue_inv (pq p)" using ok by (simp add: pool_ok_def)
  have ne: "contents (pq p) \<noteq> []" using t by (auto simp: queued_tasks_def)
  note pop = pop_block_step [OF q ne]
  obtain bs rest where c: "contents (pq p) = bs # rest" "task_of bs = \<lparr>is_future = True, tsk = f\<rparr>" "map task_of rest = ts"
    using t ne by (auto simp: queued_tasks_def)
  have len: "length bs = task_size" using ok c(1) by (simp add: pool_ok_def)
  have out': "generic_qbout (mk_block bs) task_size = Inr bs"
    using qb_wf_read [of "mk_block bs"] len by (simp add: generic_qbout_def)
  have bz: "bsize (pq p) \<noteq> 0" using queue_inv_bsize [OF q] ne by simp
  let ?fut = "fut\<lparr>out_block := out, fut_ready := True\<rparr>"
  let ?p = "p\<lparr>pq := dequeue (pq p), futures := (futures p)(f \<mapsto> ?fut), cells := cs\<rparr>"
  have told: "notify_shared ?fut (p\<lparr>pq := dequeue (pq p), futures := (futures p)(f \<mapsto> ?fut)\<rparr>) = Inr ?p"
    using tell [of "p\<lparr>pq := dequeue (pq p), futures := (futures p)(f \<mapsto> ?fut)\<rparr>"] by simp
  have "thr_work work (p, w) = Some (Inr (?p, w'))"
    using act bz pop(1) [of "Some qblock_init"] c out' fut wf(1) told
    by (simp add: thr_work_def Let_def)
  moreover have qt: "queued_tasks ?p = ts" using pop(3) c by (simp add: queued_tasks_def)
  moreover have "pool_ok ?p"
  proof -
    have old: "if is_future u then \<exists>g. futures p (tsk u) = Some g \<and> qb_wf (inp_block g) \<and> qb_wf (out_block g)
        else \<exists>b. inputs p (tsk u) = Some b \<and> qb_wf b" if "u \<in> set (queued_tasks p)" for u
      using ok that unfolding pool_ok_def by blast
    have fw: "qb_wf (inp_block fut)" using old [of "\<lparr>is_future = True, tsk = f\<rparr>"] t fut by auto
    have "if is_future u then \<exists>g. futures ?p (tsk u) = Some g \<and> qb_wf (inp_block g) \<and> qb_wf (out_block g)
        else \<exists>b. inputs ?p (tsk u) = Some b \<and> qb_wf b" if "u \<in> set ts" for u
      using old [of u] that t fw wf(2) by (auto split: if_splits)
    moreover have "queue_inv (pq ?p)" "\<forall>bs \<in> set (contents (pq ?p)). length bs = task_size"
      using ok pop(2,3) c(1) by (simp_all add: pool_ok_def)
    ultimately show ?thesis unfolding pool_ok_def qt by blast
  qed
  ultimately show thesis using act by (intro that [of ?p]) simp_all
qed

end
