(* ===== verification/DMap.thy ===== *)
theory DMap
  imports Interfaces
begin

text \<open>
  The linear map of \<open>code/DCN/src/map.c\<close>: two parallel arrays of keys and values, searched from
  the front with \<open>memcmp\<close>.  The model keeps one list element per array slot; \<open>memcmp\<close> over
  \<open>k_size\<close> (\<open>v_size\<close>) bytes is equality of the elements, which is what it is for the 64-bit
  keys and the pointer values that the code base stores.  A pointer into an array is its slot
  index.  The boolean arguments say whether the allocations that the code checks succeed.
\<close>

record ('k, 'v) cmap =
  mkeys :: "'k list"
  mvals :: "'v list"
  k_size :: nat
  v_size :: nat
  mlen :: nat
  mmtx :: mtx

definition map_init :: "nat \<Rightarrow> nat \<Rightarrow> ('k, 'v) cmap" where
  "map_init ks vs = \<lparr>mkeys = [], mvals = [], k_size = ks, v_size = vs, mlen = 0, mmtx = Mtx 0\<rparr>"

definition map_free :: "('k, 'v) cmap \<Rightarrow> ('k, 'v) cmap" where
  "map_free m = m\<lparr>k_size := 0, v_size := 0, mlen := 0, mkeys := [], mvals := [],
                  mmtx := MtxDestroyed\<rparr>"

text \<open>The search loop that every operation starts with.\<close>

function find_from :: "'a \<Rightarrow> 'a list \<Rightarrow> nat \<Rightarrow> nat \<Rightarrow> nat option" where
  "find_from x xs i n =
     (if i < n then (if xs ! i = x then Some i else find_from x xs (Suc i) n) else None)"
  by pat_completeness auto
termination
  by (relation "measure (\<lambda>(x, xs, i, n). n - i)") auto

declare find_from.simps [simp del]

text \<open>
  \<open>map_at\<close>: \<open>key\<close> is \<open>None\<close> for a null pointer; \<open>out\<close> is the slot that \<open>*out\<close> points to
  before and after (\<open>None\<close> for \<open>NULL\<close>).
\<close>

definition map_at :: "('k, 'v) cmap \<Rightarrow> 'k option \<Rightarrow> nat option \<Rightarrow> bool \<times> nat option" where
  "map_at m key out =
     (case key of
        None \<Rightarrow> (False, out)
      | Some k \<Rightarrow>
          (if k_size m = 0 \<or> v_size m = 0 then (False, out)
           else case find_from k (mkeys m) 0 (mlen m) of
             None \<Rightarrow> (False, None)
           | Some inx \<Rightarrow> (True, Some inx)))"

definition map_in :: "('k, 'v) cmap \<Rightarrow> 'k \<Rightarrow> bool" where
  "map_in m k \<longleftrightarrow> find_from k (mkeys m) 0 (mlen m) \<noteq> None"

definition map_empty :: "('k, 'v) cmap \<Rightarrow> bool" where
  "map_empty m \<longleftrightarrow> mlen m = 0"

definition map_value_in :: "('k, 'v) cmap \<Rightarrow> 'v \<Rightarrow> bool" where
  "map_value_in m v \<longleftrightarrow> find_from v (mvals m) 0 (mlen m) \<noteq> None"

definition map_copy_at :: "('k, 'v) cmap \<Rightarrow> 'k \<Rightarrow> 'v \<Rightarrow> bool \<times> 'v" where
  "map_copy_at m k out =
     (case find_from k (mkeys m) 0 (mlen m) of
        None \<Rightarrow> (False, out)
      | Some inx \<Rightarrow> (True, mvals m ! inx))"

definition map_key_by_val :: "('k, 'v) cmap \<Rightarrow> 'v \<Rightarrow> bool \<times> nat option" where
  "map_key_by_val m v =
     (case find_from v (mvals m) 0 (mlen m) of
        None \<Rightarrow> (False, None)
      | Some inx \<Rightarrow> (True, Some inx))"

text \<open>
  \<open>map_set\<close>.  When growing the value array fails the key array has already been grown; the two
  early returns leave the mutex locked.  On that path the old key array is taken to have grown in
  place: if \<open>realloc\<close> has moved it, \<open>map->keys\<close> is left dangling, and no later call is defined.
\<close>

definition map_set ::
  "bool \<Rightarrow> bool \<Rightarrow> ('k, 'v) cmap \<Rightarrow> 'k option \<Rightarrow> 'v option \<Rightarrow> int \<times> ('k, 'v) cmap" where
  "map_set kok vok m key val =
     (case (key, val) of
        (Some k, Some v) \<Rightarrow>
          (if k_size m = 0 \<or> v_size m = 0 then (-4, m)
           else let m = m\<lparr>mmtx := mtx_lock (mmtx m)\<rparr> in
             case find_from k (mkeys m) 0 (mlen m) of
               Some inx \<Rightarrow>
                 (0, m\<lparr>mvals := (mvals m)[inx := v], mmtx := mtx_unlock (mmtx m)\<rparr>)
             | None \<Rightarrow>
                 (if \<not> kok then (-1, m)
                  else if \<not> vok then (-2, m)
                  else (0, m\<lparr>mkeys := mkeys m @ [k], mvals := mvals m @ [v],
                            mlen := mlen m + 1, mmtx := mtx_unlock (mmtx m)\<rparr>)))
      | _ \<Rightarrow> (-3, m))"

definition map_erase :: "bool \<Rightarrow> bool \<Rightarrow> ('k, 'v) cmap \<Rightarrow> 'k \<Rightarrow> int \<times> ('k, 'v) cmap" where
  "map_erase kok vok m k =
     (case find_from k (mkeys m) 0 (mlen m) of
        None \<Rightarrow> (1, m)
      | Some inx \<Rightarrow>
          (if mlen m = 1 then (0, m\<lparr>mkeys := [], mvals := [], mlen := 0\<rparr>)
           else if \<not> kok then (-1, m)
           else if \<not> vok then (-2, m)
           else (0, m\<lparr>mkeys := take inx (mkeys m) @ drop (inx + 1) (mkeys m),
                     mvals := take inx (mvals m) @ drop (inx + 1) (mvals m),
                     mlen := mlen m - 1\<rparr>)))"

definition map_key_at :: "('k, 'v) cmap \<Rightarrow> 'k \<Rightarrow> nat \<Rightarrow> int \<times> 'k" where
  "map_key_at m out inx = (if mlen m \<le> inx then (-1, out) else (0, mkeys m ! inx))"

definition map_val_at :: "('k, 'v) cmap \<Rightarrow> 'v \<Rightarrow> nat \<Rightarrow> int \<times> 'v" where
  "map_val_at m out inx = (if mlen m \<le> inx then (-1, out) else (0, mvals m ! inx))"

definition map_clear :: "('k, 'v) cmap \<Rightarrow> ('k, 'v) cmap" where
  "map_clear m = m\<lparr>mlen := 0, mkeys := [], mvals := []\<rparr>"

subsection \<open>The search loop\<close>

lemma find_from_Some:
  "find_from x xs i n = Some j \<Longrightarrow> i \<le> j \<and> j < n \<and> xs ! j = x \<and> (\<forall>l. i \<le> l \<longrightarrow> l < j \<longrightarrow> xs ! l \<noteq> x)"
proof (induction x xs i n rule: find_from.induct)
  case (1 x xs i n)
  show ?case
  proof (cases "i < n \<and> xs ! i \<noteq> x")
    case True
    then have "Suc i \<le> j \<and> j < n \<and> xs ! j = x \<and> (\<forall>l. Suc i \<le> l \<longrightarrow> l < j \<longrightarrow> xs ! l \<noteq> x)"
      using "1.IH" "1.prems" by (simp add: find_from.simps [of x xs i n])
    with True show ?thesis
      by (metis Suc_leD Suc_leI le_neq_implies_less)
  next
    case False
    with "1.prems" show ?thesis by (auto simp: find_from.simps [of x xs i n] split: if_splits)
  qed
qed

lemma find_from_None: "find_from x xs i n = None \<Longrightarrow> i \<le> l \<Longrightarrow> l < n \<Longrightarrow> xs ! l \<noteq> x"
proof (induction x xs i n rule: find_from.induct)
  case (1 x xs i n)
  then show ?case
    by (cases "l = i") (auto simp: find_from.simps [of x xs i n] split: if_splits)
qed

lemma find_from_None_iff: "find_from x xs 0 (length xs) = None \<longleftrightarrow> x \<notin> set xs"
proof
  assume "find_from x xs 0 (length xs) = None"
  then show "x \<notin> set xs"
    by (auto simp: in_set_conv_nth dest: find_from_None)
next
  assume "x \<notin> set xs"
  then show "find_from x xs 0 (length xs) = None"
    using find_from_Some [of x xs 0 "length xs"] by (cases "find_from x xs 0 (length xs)") auto
qed

lemma find_from_distinct:
  assumes "distinct xs"
  shows "find_from x xs 0 (length xs) = Some j \<longleftrightarrow> j < length xs \<and> xs ! j = x"
proof
  assume "j < length xs \<and> xs ! j = x"
  then have "find_from x xs 0 (length xs) \<noteq> None"
    by (auto simp: find_from_None_iff)
  then obtain k where "find_from x xs 0 (length xs) = Some k" by auto
  with \<open>j < length xs \<and> xs ! j = x\<close> assms show "find_from x xs 0 (length xs) = Some j"
    using find_from_Some [of x xs 0 "length xs" k] by (auto simp: nth_eq_iff_index_eq)
qed (auto dest: find_from_Some)

subsection \<open>Invariant and abstraction\<close>

definition map_ok :: "('k, 'v) cmap \<Rightarrow> bool" where
  "map_ok m \<longleftrightarrow> length (mkeys m) = mlen m \<and> length (mvals m) = mlen m \<and> distinct (mkeys m)
     \<and> 0 < k_size m \<and> 0 < v_size m"

text \<open>
  \<open>map_get\<close> is the idiom of the callers: look the key up and read through the slot pointer.
  \<open>map_put\<close> and \<open>map_del\<close> are the states after a store and an erase that did not run out of
  memory.
\<close>

definition map_get :: "('k, 'v) cmap \<Rightarrow> 'k \<Rightarrow> 'v option" where
  "map_get m k = map_option (\<lambda>inx. mvals m ! inx) (snd (map_at m (Some k) None))"

definition map_put :: "'k \<Rightarrow> 'v \<Rightarrow> ('k, 'v) cmap \<Rightarrow> ('k, 'v) cmap" where
  "map_put k v m = snd (map_set True True m (Some k) (Some v))"

definition map_del :: "'k \<Rightarrow> ('k, 'v) cmap \<Rightarrow> ('k, 'v) cmap" where
  "map_del k m = snd (map_erase True True m k)"

lemma map_ok_init [simp, wf_intro]: "0 < ks \<Longrightarrow> 0 < vs \<Longrightarrow> map_ok (map_init ks vs)"
  by (simp add: map_ok_def map_init_def)

lemma map_get_init [simp]: "map_get (map_init ks vs) k = None"
  by (simp add: map_get_def map_at_def map_init_def find_from.simps)

lemma map_get_eq_find:
  "map_ok m \<Longrightarrow> map_get m k = map_option (\<lambda>i. mvals m ! i) (find_from k (mkeys m) 0 (mlen m))"
  by (auto simp: map_get_def map_at_def map_ok_def split: option.splits)

lemma map_get_Some_iff:
  "map_ok m \<Longrightarrow> map_get m k = Some v \<longleftrightarrow> (\<exists>i < mlen m. mkeys m ! i = k \<and> mvals m ! i = v)"
  using find_from_distinct [of "mkeys m" k]
  by (fastforce simp: map_get_eq_find map_ok_def)

lemma map_get_None_iff: "map_ok m \<Longrightarrow> map_get m k = None \<longleftrightarrow> k \<notin> set (mkeys m)"
  by (simp add: map_get_eq_find map_ok_def) (metis find_from_None_iff)

text \<open>The abstraction is the association list of the two arrays.\<close>

lemma map_get_map_of:
  assumes "map_ok m"
  shows "map_get m = map_of (zip (mkeys m) (mvals m))"
proof
  fix k
  have l: "length (mkeys m) = length (mvals m)" and d: "distinct (mkeys m)"
    using assms by (simp_all add: map_ok_def)
  show "map_get m k = map_of (zip (mkeys m) (mvals m)) k"
  proof (cases "map_get m k")
    case None
    then have "map_of (zip (mkeys m) (mvals m)) k = None"
      using map_get_None_iff [OF assms] l by (simp add: map_of_zip_is_None)
    with None show ?thesis by simp
  next
    case (Some v)
    then obtain i where "i < mlen m" "mkeys m ! i = k" "mvals m ! i = v"
      using map_get_Some_iff [OF assms] by auto
    then have "map_of (zip (mkeys m) (mvals m)) k = Some v"
      using map_of_zip_nth [OF l d, of i] assms by (auto simp: map_ok_def)
    then show ?thesis using Some by simp
  qed
qed

lemma map_at_found:
  "map_ok m \<Longrightarrow> map_get m k = Some v \<Longrightarrow> \<exists>i < mlen m. map_at m (Some k) out = (True, Some i)
     \<and> mkeys m ! i = k \<and> mvals m ! i = v"
  by (auto simp: map_get_eq_find map_at_def map_ok_def dest: find_from_Some)

lemma map_at_missing:
  "map_ok m \<Longrightarrow> map_get m k = None \<Longrightarrow> map_at m (Some k) out = (False, None)"
  by (auto simp: map_get_eq_find map_at_def map_ok_def)

lemma map_in_iff: "map_ok m \<Longrightarrow> map_in m k \<longleftrightarrow> map_get m k \<noteq> None"
  by (simp add: map_in_def map_get_eq_find)

subsection \<open>Stores and erasures\<close>

lemma map_set_put: "map_ok m \<Longrightarrow> map_set True True m (Some k) (Some v) = (0, map_put k v m)"
  by (auto simp: map_set_def map_put_def map_ok_def Let_def split: option.splits)

lemma map_put_eq:
  "map_ok m \<Longrightarrow> map_put k v m =
     (case find_from k (mkeys m) 0 (mlen m) of
        Some i \<Rightarrow> m\<lparr>mvals := (mvals m)[i := v]\<rparr>
      | None \<Rightarrow> m\<lparr>mkeys := mkeys m @ [k], mvals := mvals m @ [v], mlen := mlen m + 1\<rparr>)"
  by (cases m) (auto simp: map_set_def map_put_def map_ok_def Let_def split: option.splits)

lemma map_ok_put [simp, wf_intro]: "map_ok m \<Longrightarrow> map_ok (map_put k v m)"
  by (frule map_put_eq [of m k v])
     (auto simp: map_ok_def find_from_None_iff [symmetric] split: option.splits)

lemma map_get_put:
  assumes ok: "map_ok m"
  shows "map_get (map_put k v m) = (map_get m)(k \<mapsto> v)"
proof (cases "find_from k (mkeys m) 0 (mlen m)")
  case None
  then have gk: "map_get m k = None"
    by (simp add: map_get_eq_find [OF ok])
  have "map_get (map_put k v m) = map_of (zip (mkeys m) (mvals m) @ [(k, v)])"
    unfolding map_get_map_of [OF map_ok_put [OF ok]]
    using None ok by (simp add: map_put_eq [OF ok]) (simp add: map_ok_def)
  also have "\<dots> = [k \<mapsto> v] ++ map_get m"
    by (simp add: map_get_map_of [OF ok])
  also have "\<dots> = (map_get m)(k \<mapsto> v)"
    using gk by (auto simp: map_add_def fun_eq_iff split: option.splits)
  finally show ?thesis .
next
  case (Some i)
  then have i: "i < length (mvals m)" "mkeys m ! i = k"
    using find_from_Some [OF Some] ok by (simp_all add: map_ok_def)
  have j: "mkeys m ! j = k'" if "find_from k' (mkeys m) 0 (mlen m) = Some j" for k' j
    using find_from_Some [OF that] by simp
  show ?thesis
  proof
    fix k'
    show "map_get (map_put k v m) k' = ((map_get m)(k \<mapsto> v)) k'"
    proof (cases "k' = k")
      case True
      then show ?thesis
        using Some i map_get_eq_find [OF map_ok_put [OF ok], of k v k'] by (simp add: map_put_eq [OF ok])
    next
      case False
      then have "find_from k' (mkeys m) 0 (mlen m) \<noteq> Some i"
        using i j by blast
      then show ?thesis
        using False Some map_get_eq_find [OF map_ok_put [OF ok], of k v k'] map_get_eq_find [OF ok, of k']
        by (cases "find_from k' (mkeys m) 0 (mlen m)") (auto simp: map_put_eq [OF ok])
    qed
  qed
qed

lemma map_erase_del:
  "map_ok m \<Longrightarrow> map_erase True True m k = (if map_get m k = None then 1 else 0, map_del k m)"
  by (auto simp: map_erase_def map_del_def map_get_eq_find split: option.splits)

lemma map_del_eq:
  "map_ok m \<Longrightarrow> map_del k m =
     (case find_from k (mkeys m) 0 (mlen m) of
        None \<Rightarrow> m
      | Some i \<Rightarrow> m\<lparr>mkeys := take i (mkeys m) @ drop (Suc i) (mkeys m),
                   mvals := take i (mvals m) @ drop (Suc i) (mvals m), mlen := mlen m - 1\<rparr>)"
  by (auto simp: map_del_def map_erase_def map_ok_def split: option.splits dest: find_from_Some)

lemma map_ok_del [simp, wf_intro]:
  assumes "map_ok m"
  shows "map_ok (map_del k m)"
proof -
  have "set (take i xs) \<inter> set (drop (Suc i) xs) = {}" if "distinct xs" for i and xs :: "'a list"
    using that by (rule set_take_disj_set_drop_if_distinct) simp
  then show ?thesis
    using assms
    by (auto simp: map_del_eq map_ok_def min_def distinct_drop distinct_take split: option.splits
        dest!: find_from_Some)
qed

lemma map_get_del:
  assumes ok: "map_ok m"
  shows "map_get (map_del k m) = (map_get m)(k := None)"
proof (cases "find_from k (mkeys m) 0 (mlen m)")
  case None
  then have "map_get m k = None" by (simp add: map_get_eq_find [OF ok])
  then show ?thesis using None by (auto simp: map_del_eq [OF ok] fun_eq_iff)
next
  case (Some i)
  have l: "length (mkeys m) = length (mvals m)" and d: "distinct (mkeys m)"
    using ok by (simp_all add: map_ok_def)
  have i: "i < length (mkeys m)" "mkeys m ! i = k"
    using find_from_Some [OF Some] ok by (simp_all add: map_ok_def)
  let ?z = "zip (mkeys m) (mvals m)"
  have z: "?z = take i ?z @ (k, mvals m ! i) # drop (Suc i) ?z"
    using i l id_take_nth_drop [of i ?z] by simp
  have dz: "distinct (map fst ?z)" using l d by simp
  have nt: "k \<notin> set (map fst (take i ?z))" "k \<notin> set (map fst (drop (Suc i) ?z))"
    using dz unfolding arg_cong [OF z, of "\<lambda>xs. distinct (map fst xs)"] by auto
  have "map_get (map_del k m) = map_of (take i ?z @ drop (Suc i) ?z)"
    using map_get_map_of [OF map_ok_del [OF ok], of k] Some i l
    by (simp add: map_del_eq [OF ok] zip_append take_zip drop_zip)
  also have "\<dots> = (map_of ?z)(k := None)"
  proof
    fix k'
    have "map_of ?z k' = map_of (take i ?z @ (k, mvals m ! i) # drop (Suc i) ?z) k'"
      using z by simp
    then show "map_of (take i ?z @ drop (Suc i) ?z) k' = ((map_of ?z)(k := None)) k'"
      using nt by (auto simp: map_add_def map_of_eq_None_iff split: option.splits)
        (metis image_set map_of_eq_None_iff option.distinct(1))+
  qed
  finally show ?thesis by (simp add: map_get_map_of [OF ok])
qed

interpretation dm: kv_store map_get map_put map_del map_ok
  by unfold_locales (simp_all add: map_get_put map_get_del)

text \<open>
  The other idiom of the callers: \<open>map_at\<close>, then reads and writes through the slot pointer.
  Writing through it is a store.
\<close>

definition map_ptr :: "('k, 'v) cmap \<Rightarrow> 'k \<Rightarrow> (nat \<times> 'v) option" where
  "map_ptr m k =
     (case map_at m (Some k) None of
        (True, Some inx) \<Rightarrow> Some (inx, mvals m ! inx)
      | _ \<Rightarrow> None)"

lemma map_ptr_None: "map_ok m \<Longrightarrow> map_ptr m k = None \<longleftrightarrow> map_get m k = None"
  by (auto simp: map_ptr_def map_get_eq_find map_at_def map_ok_def split: option.splits)

lemma map_ptr_NoneI: "map_ok m \<Longrightarrow> map_get m k = None \<Longrightarrow> map_ptr m k = None"
  by (simp add: map_ptr_None)

lemma map_ptr_Some:
  assumes ok: "map_ok m" and g: "map_get m k = Some v"
  obtains i where "map_ptr m k = Some (i, v)"
    "\<forall>w. m\<lparr>mvals := (mvals m)[i := w]\<rparr> = map_put k w m"
proof -
  obtain i where i: "find_from k (mkeys m) 0 (mlen m) = Some i" "mvals m ! i = v"
    using g map_get_eq_find [OF ok, of k] by auto
  have "map_ptr m k = Some (i, v)"
    using i ok by (simp add: map_ptr_def map_at_def map_ok_def)
  moreover have "m\<lparr>mvals := (mvals m)[i := w]\<rparr> = map_put k w m" for w
    using i map_put_eq [OF ok] by simp
  ultimately show thesis using that by blast
qed

lemma map_ptr_get: "map_ok m \<Longrightarrow> map_ptr m k = Some (i, v) \<Longrightarrow> map_get m k = Some v"
  using map_ptr_None [of m k] by (cases "map_get m k") (auto elim!: map_ptr_Some)

lemma map_empty_iff: "map_ok m \<Longrightarrow> map_empty m \<longleftrightarrow> (\<forall>k. map_get m k = None)"
  by (cases "mlen m") (auto simp: map_empty_def map_get_None_iff map_ok_def intro: exI [of _ "hd (mkeys m)"])

subsection \<open>Runs of a map against a partial function\<close>

text \<open>The calls of a client, run on the code's operations and on a partial function.\<close>

datatype ('k, 'v) mop = MSet 'k 'v | MErase 'k | MCopy 'k 'v | MIn 'k

datatype 'v mout = Code int | Found bool 'v | Member bool

fun map_step :: "('k, 'v) cmap \<Rightarrow> ('k, 'v) mop \<Rightarrow> 'v mout \<times> ('k, 'v) cmap" where
  "map_step m (MSet k v) = (let (r, m) = map_set True True m (Some k) (Some v) in (Code r, m))"
| "map_step m (MErase k) = (let (r, m) = map_erase True True m k in (Code r, m))"
| "map_step m (MCopy k d) = (let (b, v) = map_copy_at m k d in (Found b v, m))"
| "map_step m (MIn k) = (Member (map_in m k), m)"

fun pfun_step :: "('k \<rightharpoonup> 'v) \<Rightarrow> ('k, 'v) mop \<Rightarrow> 'v mout \<times> ('k \<rightharpoonup> 'v)" where
  "pfun_step f (MSet k v) = (Code 0, f(k \<mapsto> v))"
| "pfun_step f (MErase k) = (Code (if f k = None then 1 else 0), f(k := None))"
| "pfun_step f (MCopy k d) = (case f k of None \<Rightarrow> (Found False d, f) | Some v \<Rightarrow> (Found True v, f))"
| "pfun_step f (MIn k) = (Member (f k \<noteq> None), f)"

fun run_ops :: "('m \<Rightarrow> 'o \<Rightarrow> 'r \<times> 'm) \<Rightarrow> 'm \<Rightarrow> 'o list \<Rightarrow> 'r list \<times> 'm" where
  "run_ops st m [] = ([], m)"
| "run_ops st m (c # cs) = (let (r, m) = st m c; (rs, m) = run_ops st m cs in (r # rs, m))"

lemma map_step_pfun:
  assumes "map_ok m"
  shows "fst (map_step m c) = fst (pfun_step (map_get m) c)" and "map_ok (snd (map_step m c))"
    and "map_get (snd (map_step m c)) = snd (pfun_step (map_get m) c)"
  using assms
  by (cases c; simp add: map_set_put map_erase_del map_get_put map_get_del map_in_iff
      map_copy_at_def map_get_eq_find split: option.split)+

lemma mmtx_init: "mmtx (map_init ks vs) = Mtx 0"
  by (simp add: map_init_def)

subsection \<open>Properties\<close>

text \<open>C20: the linear map is a partial function: any sequence of stores, erasures, lookups and
  membership tests answers what the partial function answers, and ends in its graph.\<close>

theorem map_refines_pfun:
  assumes "map_ok m"
  shows "fst (run_ops map_step m cs) = fst (run_ops pfun_step (map_get m) cs)
    \<and> map_ok (snd (run_ops map_step m cs))
    \<and> map_get (snd (run_ops map_step m cs)) = snd (run_ops pfun_step (map_get m) cs)"
  using assms
proof (induction cs arbitrary: m)
  case Nil
  then show ?case by simp
next
  case (Cons c cs)
  then show ?case using map_step_pfun [OF Cons.prems, of c] by (simp add: split_beta Let_def)
qed

theorem map_refines_pfun_witness:
  "fst (run_ops map_step (map_init 8 8) [MSet (1 :: ullong) (5 :: addr), MSet 1 6, MCopy 1 0,
      MErase 1, MErase 1, MIn 1])
   = [Code 0, Code 0, Found True 6, Code 0, Code 1, Member False]"
  using map_refines_pfun [of "map_init 8 8 :: (ullong, addr) cmap"
    "[MSet 1 5, MSet 1 6, MCopy 1 0, MErase 1, MErase 1, MIn 1]"]
  by (simp add: fun_upd_def)

text \<open>\<open>map_key_by_val\<close> answers the key that was stored first among those with the value,
  and reports failure exactly when no key has it.\<close>

theorem key_by_val_inverse:
  assumes "map_ok m"
  shows "(case map_key_by_val m v of
       (True, Some i) \<Rightarrow> map_get m (mkeys m ! i) = Some v \<and> (\<forall>j < i. mvals m ! j \<noteq> v)
     | (False, None) \<Rightarrow> \<forall>k. map_get m k \<noteq> Some v
     | _ \<Rightarrow> False)"
proof (cases "find_from v (mvals m) 0 (mlen m)")
  case None
  then have "\<forall>k. map_get m k \<noteq> Some v"
    using find_from_None [OF None] map_get_Some_iff [OF assms] by auto
  with None show ?thesis by (simp add: map_key_by_val_def)
next
  case (Some i)
  then have "i < mlen m" "mvals m ! i = v" "\<forall>j < i. mvals m ! j \<noteq> v"
    using find_from_Some [OF Some] by auto
  then have "map_get m (mkeys m ! i) = Some v" using map_get_Some_iff [OF assms] by auto
  with Some \<open>\<forall>j < i. mvals m ! j \<noteq> v\<close> show ?thesis by (simp add: map_key_by_val_def)
qed

theorem key_by_val_inverse_witness:
  "map_key_by_val (map_put 3 9 (map_put (2 :: ullong) (9 :: addr) (map_init 8 8))) 9 \<noteq> (False, None)"
proof -
  let ?m = "map_put 3 9 (map_put (2 :: ullong) (9 :: addr) (map_init 8 8))"
  have ok: "map_ok ?m" by simp
  have "map_get ?m 3 = Some 9" by (simp add: map_get_put)
  then show ?thesis using key_by_val_inverse [OF ok, of 9] by (auto split: prod.splits option.splits bool.splits)
qed

text \<open>A store that runs out of memory returns with the map's mutex locked one time more than
  before, whatever was stored; every store that succeeds unlocks it.\<close>

theorem failed_store_stays_locked:
  assumes "map_ok m" and "map_get m k = None" and "mmtx m = Mtx n" and "\<not> (kok \<and> vok)"
  shows "fst (map_set kok vok m (Some k) (Some v)) = (if kok then -2 else -1)
    \<and> mmtx (snd (map_set kok vok m (Some k) (Some v))) = Mtx (Suc n)
    \<and> mmtx (snd (map_set True True m (Some k) (Some v))) = Mtx n"
  using assms
  by (auto simp: map_set_def map_get_eq_find Let_def) (auto simp: map_ok_def)

theorem failed_store_stays_locked_witness:
  "mmtx (snd (map_set True False (map_init 8 8) (Some (1 :: ullong)) (Some (2 :: addr)))) = Mtx 1"
  using failed_store_stays_locked [of "map_init 8 8 :: (ullong, addr) cmap" 1 0 True False 2]
  by (simp add: mmtx_init)

end
