(* ===== verification/Floats.thy ===== *)
theory Floats
  imports Complex_Main CRuntime "HOL-Library.Signed_Division"
begin

text \<open>
  The floating-point arithmetic that the code uses: \<open>float\<close> in the load factor of the allocator and
  in \<open>asyncio_sleep\<close>, \<open>double\<close> in \<open>waiter_wait_for\<close>.  A finite number is an integer significand times
  a power of two; \<open>p\<close> is the width of the significand, 24 or 53.  The operations round the exact result
  to nearest, ties to even.  None of them is used where it could overflow to infinity, and the exponent
  of no result is below those of the operands, so that gradual underflow does not round.
\<close>

subsection \<open>Rounding\<close>

text \<open>The number of low bits that do not fit into \<open>p\<close> bits.\<close>

function sig_shift :: "nat \<Rightarrow> nat \<Rightarrow> nat" where
  "sig_shift p n = (if n < 2 ^ p then 0 else Suc (sig_shift p (n div 2)))"
  by auto

termination sig_shift
proof (relation "measure snd")
  fix p n :: nat
  assume "\<not> n < 2 ^ p"
  then have "0 < n" by (cases n) auto
  then show "((p, n div 2), p, n) \<in> measure snd" by simp
qed simp

declare sig_shift.simps [simp del]

definition round_sig :: "nat \<Rightarrow> nat \<Rightarrow> nat" where
  "round_sig p n =
     (let e = sig_shift p n; q = n div 2 ^ e; r = 2 * (n mod 2 ^ e) in
      (if r > 2 ^ e \<or> (r = 2 ^ e \<and> odd q) then q + 1 else q) * 2 ^ e)"

lemma sig_shift_fits: "n < 2 ^ p \<Longrightarrow> sig_shift p n = 0"
  by (simp add: sig_shift.simps [of p n])

lemma round_sig_fits: "n < 2 ^ p \<Longrightarrow> round_sig p n = n"
  by (simp add: round_sig_def sig_shift_fits)

lemma sig_shift_le: "n < 2 ^ (p + q) \<Longrightarrow> sig_shift p n \<le> q"
proof (induction p n arbitrary: q rule: sig_shift.induct)
  case (1 p n)
  show ?case
  proof (cases "n < 2 ^ p")
    case False
    then obtain q' where q: "q = Suc q'" using "1.prems" by (cases q) auto
    then have "n div 2 < 2 ^ (p + q')" using "1.prems" by auto
    with "1.IH" [OF False] False q show ?thesis by (simp add: sig_shift.simps [of p n])
  qed (simp add: sig_shift_fits)
qed

lemma sig_shift_ge: "sig_shift p n = Suc e \<Longrightarrow> 2 ^ (p + e) \<le> n"
proof (induction p n arbitrary: e rule: sig_shift.induct)
  case (1 p n)
  have big: "\<not> n < 2 ^ p" using "1.prems" by (auto simp: sig_shift_fits)
  then have e: "sig_shift p (n div 2) = e" using "1.prems" by (simp add: sig_shift.simps [of p n])
  show ?case
  proof (cases e)
    case 0
    then show ?thesis using big by simp
  next
    case (Suc e')
    then have "2 ^ (p + e') \<le> n div 2" using "1.IH" [OF big] e by simp
    then show ?thesis using Suc by auto
  qed
qed

lemma round_sig_error: "2 * \<bar>int (round_sig p n) - int n\<bar> \<le> 2 ^ sig_shift p n"
proof -
  define b where "b = (2::nat) ^ sig_shift p n"
  define q where "q = n div b"
  define t where "t = n mod b"
  have n: "n = q * b + t" unfolding q_def t_def by (rule div_mult_mod_eq [symmetric])
  have t: "t < b" by (simp add: t_def b_def)
  have up: "round_sig p n = (if 2 * t > b \<or> (2 * t = b \<and> odd q) then q + 1 else q) * b"
    by (simp only: round_sig_def Let_def b_def q_def t_def)
  have "2 * \<bar>int (round_sig p n) - int n\<bar> \<le> int b"
  proof (cases "2 * t > b \<or> (2 * t = b \<and> odd q)")
    case True
    then have "round_sig p n + t = n + b" unfolding up using n by simp
    then have "int (round_sig p n) + int t = int n + int b" by (metis of_nat_add)
    moreover have "int b \<le> 2 * int t" using True by auto
    ultimately show ?thesis using t by (simp add: abs_if)
  next
    case False
    have "round_sig p n = q * b" by (simp only: up if_not_P [OF False])
    then have "round_sig p n + t = n" using n by simp
    then have "int (round_sig p n) + int t = int n" by (metis of_nat_add)
    moreover have "2 * int t \<le> int b" using False by auto
    ultimately show ?thesis by (simp add: abs_if)
  qed
  then show ?thesis by (simp add: b_def)
qed

subsection \<open>Numbers\<close>

type_synonym cfloat = "int \<times> int"   \<comment> \<open>significand and exponent\<close>

definition fl_val :: "cfloat \<Rightarrow> real" where
  "fl_val d = of_int (fst d) * 2 powi snd d"

text \<open>The representable ones.\<close>

definition is_fl :: "nat \<Rightarrow> cfloat \<Rightarrow> bool" where
  "is_fl p d \<longleftrightarrow> \<bar>fst d\<bar> < 2 ^ p"

definition round_int :: "nat \<Rightarrow> int \<Rightarrow> int" where
  "round_int p m = (if m < 0 then - int (round_sig p (nat (- m))) else int (round_sig p (nat m)))"

definition fl_of_int :: "nat \<Rightarrow> int \<Rightarrow> cfloat" where
  "fl_of_int p z = (round_int p z, 0)"

definition fl_sub :: "nat \<Rightarrow> cfloat \<Rightarrow> cfloat \<Rightarrow> cfloat" where
  "fl_sub p a b =
     (let e = min (snd a) (snd b)
      in (round_int p (fst a * 2 ^ nat (snd a - e) - fst b * 2 ^ nat (snd b - e)), e))"

definition fl_mul :: "nat \<Rightarrow> cfloat \<Rightarrow> cfloat \<Rightarrow> cfloat" where
  "fl_mul p a b = (round_int p (fst a * fst b), snd a + snd b)"

text \<open>The conversion to an integer cuts the fraction off.  To \<open>long\<close> it is undefined out of range.\<close>

definition fl_trunc :: "cfloat \<Rightarrow> int" where
  "fl_trunc d = (if 0 \<le> snd d then fst d * 2 ^ nat (snd d) else fst d sdiv 2 ^ nat (- snd d))"

definition fl_to_long :: "cfloat \<Rightarrow> int option" where
  "fl_to_long d = (let z = fl_trunc d in if - (2 ^ 63) \<le> z \<and> z < 2 ^ 63 then Some z else None)"

lemma round_int_fits: "\<bar>m\<bar> < 2 ^ p \<Longrightarrow> round_int p m = m"
  by (auto simp: round_int_def round_sig_fits nat_less_iff)

lemma fl_of_int_fits: "\<bar>z\<bar> < 2 ^ p \<Longrightarrow> fl_of_int p z = (z, 0)"
  by (simp add: fl_of_int_def round_int_fits)

subsection \<open>Fractions of a second\<close>

lemma half_less: "2 * \<bar>x\<bar> \<le> b \<Longrightarrow> 0 < b \<Longrightarrow> \<bar>x\<bar> < b" for x b :: int
  by linarith

lemma below_second: "2 * \<bar>a - r * 10 ^ 9\<bar> \<le> 2 ^ 30 \<Longrightarrow> r < b \<Longrightarrow> a < 10 ^ 9 * b" for a r b :: int
  by simp

lemma two_errors: "s = N - t - R \<Longrightarrow> \<bar>N - R\<bar> < b \<Longrightarrow> 0 \<le> t \<Longrightarrow> t < b \<Longrightarrow> \<bar>s\<bar> < 2 * b" for s :: int
  by linarith

lemma sdiv_pow: "int n sdiv 2 ^ k = int (n div 2 ^ k)"
  by (cases "n = 0") (simp_all add: signed_divide_int_def zdiv_int)

text \<open>A fraction \<open>r / 2 ^ k\<close> of a second times a thousand million, rounded: the error, and the result is
  less than a second also after rounding.\<close>

lemma round_ns:
  assumes r: "r < 2 ^ k" "r < 2 ^ p" and p: "24 \<le> p"
  shows "2 * \<bar>int (round_sig p (r * 10 ^ 9)) - int r * 10 ^ 9\<bar> \<le> 2 ^ (k + 6)"
    and "53 \<le> p \<Longrightarrow> \<bar>int (round_sig p (r * 10 ^ 9)) - int r * 10 ^ 9\<bar> < 2 ^ k"
    and "round_sig p (r * 10 ^ 9) div 2 ^ k < 10 ^ 9"
proof -
  let ?n = "r * 10 ^ 9" and ?e = "sig_shift p (r * 10 ^ 9)"
  have ten: "(10::nat) ^ 9 < 2 ^ 30" by simp
  have "?n < 2 ^ p * 2 ^ 30" using r(2) ten by (intro mult_strict_mono) simp_all
  then have e30: "?e \<le> 30" by (intro sig_shift_le) (simp only: power_add)
  have nk: "?n < 2 ^ k * 2 ^ 30" using r(1) ten by (intro mult_strict_mono) simp_all
  have ek: "?e \<le> k + 30 - p"
  proof (cases ?e)
    case (Suc e)
    then have "2 ^ (p + e) < (2::nat) ^ (k + 30)"
      using sig_shift_ge [OF Suc] nk by (simp only: power_add)
    then show ?thesis using Suc by (simp add: power_strict_increasing_iff)
  qed simp
  have err: "2 * \<bar>int (round_sig p ?n) - int ?n\<bar> \<le> 2 ^ ?e" by (rule round_sig_error)
  have n: "int ?n = int r * 10 ^ 9" by simp
  have mono: "(2::int) ^ ?e \<le> 2 ^ m" if "?e \<le> m" for m using that by (rule power_increasing) simp
  show "2 * \<bar>int (round_sig p ?n) - int r * 10 ^ 9\<bar> \<le> 2 ^ (k + 6)"
    using err mono [of "k + 6"] ek p unfolding n by linarith
  show "\<bar>int (round_sig p ?n) - int r * 10 ^ 9\<bar> < 2 ^ k" if "53 \<le> p"
  proof -
    have "?e \<le> k" using ek that by simp
    from mono [OF this] have le: "2 * \<bar>int (round_sig p ?n) - int r * 10 ^ 9\<bar> \<le> 2 ^ k" using err unfolding n by linarith
    show ?thesis by (rule half_less [OF le]) simp
  qed
  have le: "2 * \<bar>int (round_sig p ?n) - int r * 10 ^ 9\<bar> \<le> 2 ^ 30" using err mono [OF e30] unfolding n by linarith
  have "int (round_sig p ?n) < 10 ^ 9 * 2 ^ k" by (rule below_second [OF le]) (simp add: r(1))
  then have "int (round_sig p ?n) < int (10 ^ 9 * 2 ^ k)" by simp
  then have "round_sig p ?n < 10 ^ 9 * 2 ^ k" by (simp only: of_nat_less_iff)
  then show "round_sig p ?n div 2 ^ k < 10 ^ 9" by (simp add: less_mult_imp_div_less)
qed

text \<open>
  A time as whole seconds and nanoseconds, as the code computes it:
  \<open>(long)d\<close> and \<open>(long)((d - (long)d) * 1000000000)\<close>.
\<close>

definition split_seconds :: "nat \<Rightarrow> cfloat \<Rightarrow> (int \<times> int) option" where
  "split_seconds p d =
     (case fl_to_long d of
        None \<Rightarrow> None
      | Some sec \<Rightarrow> map_option (\<lambda>nsec. (sec, nsec))
          (fl_to_long (fl_mul p (fl_sub p d (fl_of_int p sec)) (fl_of_int p 1000000000))))"

lemma round_sig_dvd:
  assumes "2 ^ q dvd n" and "sig_shift p n \<le> q"
  shows "round_sig p n = n"
proof -
  have "2 ^ sig_shift p n dvd n" 
    by (rule dvd_trans [OF le_imp_power_dvd [OF assms(2)] assms(1)])
  then show ?thesis by (simp add: round_sig_def Let_def)
qed

lemma fl_of_int_scaled:
  assumes "0 \<le> m" and "m < 2 ^ p"
  shows "fl_of_int p (m * 2 ^ q) = (m * 2 ^ q, 0)"
proof -
  obtain n where n: "m = int n" using assms(1) nonneg_int_cases by blast
  then have "n < 2 ^ p" using assms(2) by simp
  then have "n * 2 ^ q < 2 ^ (p + q)" by (simp add: power_add)
  then have "round_sig p (n * 2 ^ q) = n * 2 ^ q" by (intro round_sig_dvd [of q]) (simp_all add: sig_shift_le)
  moreover have "m * 2 ^ q = int (n * 2 ^ q)" by (simp add: n)
  ultimately show ?thesis by (simp only: fl_of_int_def round_int_def nat_int of_nat_less_0_iff if_False)
qed

lemma billion: "24 \<le> p \<Longrightarrow> fl_of_int p 1000000000 = (1000000000, 0)"
proof -
  assume "24 \<le> p"
  then have "(2::int) ^ 24 \<le> 2 ^ p" by (rule power_increasing) simp
  then show ?thesis using fl_of_int_scaled [of 1953125 p 9] by simp
qed

lemma powi_minus: "2 powi (- int k) = (1 / 2 ^ k :: real)"
  by (simp add: power_int_minus power_int_of_nat field_simps)

lemma split_seconds_ok:
  assumes d: "is_fl p d" "0 \<le> fst d" "fl_trunc d < 2 ^ 63" and p: "24 \<le> p"
  obtains sec nsec where "split_seconds p d = Some (sec, nsec)" "sec = fl_trunc d" "0 \<le> nsec" "nsec < 1000000000"
    "53 \<le> p \<Longrightarrow> \<bar>of_int (sec * 1000000000 + nsec) - fl_val d * 1000000000\<bar> < 2"
proof -
  obtain m e where de: "d = (m, e)" by (cases d)
  have m: "0 \<le> m" "m < 2 ^ p" using d de by (simp_all add: is_fl_def)
  show thesis
  proof (cases "0 \<le> e")
    case True
    let ?q = "nat e"
    have sec: "fl_trunc d = m * 2 ^ ?q" using True de by (simp add: fl_trunc_def)
    have "0 \<le> m * 2 ^ ?q" using m by simp
    then have "fl_to_long d = Some (m * 2 ^ ?q)" using d(3) sec by (simp add: fl_to_long_def)
    moreover have "fl_sub p d (fl_of_int p (m * 2 ^ ?q)) = (0, 0)"
      using True de m by (simp add: fl_of_int_scaled fl_sub_def round_int_fits)
    ultimately have "split_seconds p d = Some (m * 2 ^ ?q, 0)"
      using p by (simp add: split_seconds_def billion fl_mul_def round_int_fits fl_to_long_def fl_trunc_def)
    moreover have "fl_val d = of_int (m * 2 ^ ?q)"
      using True de by (simp add: fl_val_def power_int_def)
    ultimately show thesis using sec by (intro that [of "m * 2 ^ ?q" 0]) simp_all
  next
    case False
    define k where "k = nat (- e)"
    have e: "e = - int k" using False by (simp add: k_def)
    obtain n where n: "m = int n" using m(1) nonneg_int_cases by blast
    define r where "r = n mod 2 ^ k"
    define N where "N = round_sig p (r * 10 ^ 9)"
    have np: "n < 2 ^ p" using m(2) n by simp
    have r: "r < 2 ^ k" "r < 2 ^ p"
      using le_less_trans [OF mod_less_eq_dividend np] by (simp_all add: r_def)
    have sec: "fl_trunc d = int (n div 2 ^ k)"
      using False de n by (simp add: fl_trunc_def sdiv_pow flip: k_def)
    have "n div 2 ^ k < 2 ^ p" using np by (meson div_le_dividend le_less_trans)
    then have fs: "fl_of_int p (int (n div 2 ^ k)) = (int (n div 2 ^ k), 0)" by (intro fl_of_int_fits) simp
    have "m - int (n div 2 ^ k) * 2 ^ k = int r"
      by (simp add: n r_def zdiv_int zmod_int minus_div_mult_eq_mod)
    then have sub: "fl_sub p d (fl_of_int p (int (n div 2 ^ k))) = (int r, - int k)"
      using r(2) de e by (simp add: fs fl_sub_def round_int_fits)
    have "fl_mul p (int r, - int k) (1000000000, 0) = (int N, - int k)"
      by (simp add: fl_mul_def round_int_def N_def nat_mult_distrib)
    moreover have "fl_trunc (int N, - int k) = int (N div 2 ^ k)"
      by (simp add: fl_trunc_def sdiv_pow)
    ultimately have ns: "fl_trunc (fl_mul p (int r, - int k) (1000000000, 0)) = int (N div 2 ^ k)" by simp
    have lt: "N div 2 ^ k < 10 ^ 9" unfolding N_def by (rule round_ns(3) [OF r p])
    then have small: "int (N div 2 ^ k) < 1000000000" by simp
    have "split_seconds p d = Some (int (n div 2 ^ k), int (N div 2 ^ k))"
      using d(3) sec small p by (simp add: split_seconds_def fl_to_long_def Let_def sub billion ns)
    moreover have "\<bar>of_int (int (n div 2 ^ k) * 1000000000 + int (N div 2 ^ k)) - fl_val d * 1000000000\<bar> < 2"
      if "53 \<le> p"
    proof -
      define x where "x = n div 2 ^ k"
      define y where "y = N div 2 ^ k"
      define t where "t = N mod 2 ^ k"
      have tk: "t < 2 ^ k" by (simp add: t_def)
      have nx: "n = x * 2 ^ k + r" unfolding x_def r_def by (rule div_mult_mod_eq [symmetric])
      have Ny: "N = y * 2 ^ k + t" unfolding y_def t_def by (rule div_mult_mod_eq [symmetric])
      have err: "\<bar>int N - int r * 10 ^ 9\<bar> < 2 ^ k" unfolding N_def by (rule round_ns(2) [OF r p that])
      have "(int x * 1000000000 + int y) * 2 ^ k - int n * 1000000000 = int N - int t - int r * 10 ^ 9"
        by (simp add: nx Ny algebra_simps)
      from two_errors [OF this err]
      have "\<bar>(int x * 1000000000 + int y) * 2 ^ k - int n * 1000000000\<bar> < 2 * 2 ^ k"
        using tk by simp
      then have "\<bar>of_int ((int x * 1000000000 + int y) * 2 ^ k - int n * 1000000000) :: real\<bar> < of_int (2 * 2 ^ k)"
        by (simp only: of_int_less_iff flip: of_int_abs)
      moreover have "fl_val d = of_int (int n) / 2 ^ k"
        using de n e by (simp add: fl_val_def powi_minus)
      ultimately have "\<bar>(of_int (int x * 1000000000 + int y) - fl_val d * 1000000000) * 2 ^ k\<bar> < 2 * 2 ^ k"
        by (simp add: algebra_simps)
      then show ?thesis by (simp add: x_def [symmetric] y_def [symmetric] abs_mult)
    qed
    ultimately show thesis using sec small by (intro that [of "int (n div 2 ^ k)" "int (N div 2 ^ k)"]) simp_all
  qed
qed

end
