(* ===== verification/Asyncio.thy ===== *)
theory Asyncio
  imports ThreadPool DMap Floats
begin

text \<open>
  The event loop of \<open>code/DCN/src/asyncio.c\<close>: coroutines on the thread pool, \<open>await\<close> and
  \<open>asyncio_gather\<close>, one call or one round of a worker at a time.  The locale \<open>notifier\<close> says
  what a finished future does to those who wait for it; it is interpreted for a future that nobody
  gathers and for one that a thread gathers.  A coroutine's function is a parameter of the
  model: \<open>run worker args\<close> is what a call of it does to the world, and the pointer it returns
  (0 for \<open>NULL\<close>).
\<close>

record coroutine =
  crt_worker :: addr
  crt_args :: addr
  crt_sync :: bool   \<comment> \<open>\<open>cnd_mtx\<close> and \<open>is_done\<close> are allocated; both are \<open>NULL\<close> otherwise\<close>

type_synonym crts = "addr \<rightharpoonup> coroutine"
type_synonym 'w runner = "addr \<Rightarrow> addr \<Rightarrow> 'w \<Rightarrow> addr \<times> 'w"

subsection \<open>Coroutines\<close>

definition coroutine_init :: "addr \<Rightarrow> addr \<Rightarrow> coroutine" where
  "coroutine_init worker args = \<lparr>crt_worker = worker, crt_args = args, crt_sync = True\<rparr>"

definition coroutine_free :: "coroutine \<Rightarrow> coroutine res" where
  "coroutine_free crt =
     (if crt_sync crt then Inr \<lparr>crt_worker = 0, crt_args = 0, crt_sync = False\<rparr> else Inl NullAccess)"

lemma coroutine_init_simps [simp]:
  "crt_worker (coroutine_init f a) = f" "crt_args (coroutine_init f a) = a"
  "coroutine_free (coroutine_init f a) = Inr \<lparr>crt_worker = 0, crt_args = 0, crt_sync = False\<rparr>"
  by (simp_all add: coroutine_init_def coroutine_free_def)

text \<open>\<open>async_create\<close>: \<open>crt\<close> and \<open>fut\<close> are the two fresh blocks.\<close>

definition async_create ::
  "byte list \<Rightarrow> addr \<Rightarrow> addr \<Rightarrow> addr \<Rightarrow> addr \<Rightarrow> pool \<times> crts \<Rightarrow> (addr \<times> pool \<times> crts) res" where
  "async_create pad crt fut worker args st =
     (case st of (p, cs) \<Rightarrow>
        bind_res (gnr_pool_sumbit pad 0 (le_bytes 8 crt) (Some fut) p) (\<lambda>p.
        Inr (fut, p, cs(crt \<mapsto> coroutine_init worker args))))"

text \<open>\<open>__loop_worker\<close>, the working function of the loop's pool.\<close>

definition loop_worker :: "'w runner \<Rightarrow> ('w \<times> crts) working" where
  "loop_worker run inp out st =
     (case st of (w, cs) \<Rightarrow>
        bind_res (generic_qbout inp 8) (\<lambda>bs.
        case cs (le_word bs) of
          None \<Rightarrow> Inl UseAfterFree
        | Some crt \<Rightarrow>
            (case run (crt_worker crt) (crt_args crt) w of (result, w) \<Rightarrow>
               bind_res (if result \<noteq> 0 then
                   (case out of
                      None \<Rightarrow> Inl NullAccess
                    | Some o1 \<Rightarrow> bind_res (generic_qbfill o1 (le_bytes 8 result)) (\<lambda>o1. Inr (Some o1)))
                 else Inr out)
               (\<lambda>out. bind_res (coroutine_free crt) (\<lambda>_. Inr (out, w, cs(le_word bs := None)))))))"

text \<open>\<open>await\<close>: the pointer that the coroutine returned; \<open>None\<close> while it blocks.\<close>

definition await_ptr :: "qblock \<Rightarrow> addr res" where
  "await_ptr out =
     (if data out = Null then Inr 0
      else if dsize out \<noteq> 8 then Inr 0
      else bind_res (memcpy_from (data out) 8) (\<lambda>bs. Inr (le_word bs)))"

definition await :: "addr \<Rightarrow> pool \<Rightarrow> (addr \<times> pool) res option" where
  "await f p =
     (case futures p f of
        None \<Rightarrow> Some (Inl UseAfterFree)
      | Some fut \<Rightarrow>
          (if \<not> fut_pool fut then Some (Inr (0, p))
           else map_option (\<lambda>r. bind_res r (\<lambda>(out, p). bind_res (await_ptr out) (\<lambda>x. Inr (x, p))))
                  (await_future f p)))"

subsection \<open>Sleeping\<close>

text \<open>
  \<open>asyncio_sleep\<close> puts the time into a fresh cell of a \<open>float\<close>; \<open>__async_sleep_worker\<close> makes the
  \<open>timespec\<close> from it that it hands to \<open>thrd_sleep\<close>, and frees it.
\<close>

type_synonym fcells = "addr \<rightharpoonup> cfloat"

definition async_sleep_worker :: "addr \<Rightarrow> fcells \<Rightarrow> ((int \<times> int) option \<times> fcells) res" where
  "async_sleep_worker args fs =
     (case fs args of
        None \<Rightarrow> Inl UseAfterFree
      | Some duration \<Rightarrow> Inr (split_seconds 24 duration, fs(args := None)))"

definition asyncio_sleep ::
  "byte list \<Rightarrow> addr \<Rightarrow> addr \<Rightarrow> addr \<Rightarrow> addr \<Rightarrow> cfloat \<Rightarrow> (pool \<times> crts) \<times> fcells
   \<Rightarrow> (addr \<times> (pool \<times> crts) \<times> fcells) res" where
  "asyncio_sleep pad crt fut worker cell seconds st =
     bind_res (async_create pad crt fut worker cell (fst st)) (\<lambda>(fut, st').
       Inr (fut, st', (snd st)(cell \<mapsto> seconds)))"

text \<open>A time that is not negative gives a proper \<open>timespec\<close>, although the product is rounded.\<close>

lemma sleep_timespec:
  assumes "fs a = Some d" and "is_fl 24 d" and "0 \<le> fst d" and "fl_trunc d < 2 ^ 63"
  shows "\<exists>sec nsec. async_sleep_worker a fs = Inr (Some (sec, nsec), fs(a := None))
     \<and> sec = fl_trunc d \<and> 0 \<le> nsec \<and> nsec < 1000000000"
  using split_seconds_ok [OF assms(2-4)] assms(1) by (auto simp: async_sleep_worker_def)

subsection \<open>Gathering\<close>

text \<open>
  \<open>asyncio_gather\<close> up to its wait: \<open>m\<close>, \<open>c\<close>, \<open>d\<close> and \<open>r\<close> are the addresses of its
  locals \<open>mutex\<close>, \<open>cond\<close>, \<open>done\<close> and \<open>is_ready\<close>.
\<close>

definition share :: "addr \<Rightarrow> addr \<Rightarrow> addr \<Rightarrow> addr \<Rightarrow> future \<Rightarrow> future" where
  "share m c d r fut =
     fut\<lparr>shared_cond_mtx := m, shared_done := d, shared_is_ready := r, shared_is_done := c\<rparr>"

fun gather_share :: "addr \<Rightarrow> addr \<Rightarrow> addr \<Rightarrow> addr \<Rightarrow> addr list \<Rightarrow> pool \<Rightarrow> pool res" where
  "gather_share m c d r [] p = Inr p"
| "gather_share m c d r (f # fs) p =
     (case futures p f of
        None \<Rightarrow> Inl UseAfterFree
      | Some fut \<Rightarrow> gather_share m c d r fs (p\<lparr>futures := (futures p)(f \<mapsto> share m c d r fut)\<rparr>))"

definition gather_begin :: "addr \<Rightarrow> addr \<Rightarrow> addr \<Rightarrow> addr \<Rightarrow> addr list \<Rightarrow> pool \<Rightarrow> pool res" where
  "gather_begin m c d r fs p = gather_share m c d r fs (p\<lparr>cells := (cells p)(d \<mapsto> 0, r \<mapsto> 0)\<rparr>)"

text \<open>Its last part, one future at a time: each is torn down and given to \<open>free\<close>.\<close>

fun gather_results :: "addr list \<Rightarrow> pool \<Rightarrow> (addr list \<times> pool) res" where
  "gather_results [] p = Inr ([], p)"
| "gather_results (f # fs) p =
     (case futures p f of
        None \<Rightarrow> Inl UseAfterFree
      | Some fut \<Rightarrow>
          bind_res (if data (out_block fut) \<noteq> Null
                    then bind_res (generic_qbout (out_block fut) 8) (\<lambda>bs. Inr (le_word bs))
                    else Inr 0) (\<lambda>x.
          bind_res (gather_results fs (p\<lparr>futures := (futures p)(f := None)\<rparr>)) (\<lambda>(xs, p). Inr (x # xs, p))))"

definition gather_end :: "addr \<Rightarrow> addr \<Rightarrow> addr list \<Rightarrow> pool \<Rightarrow> (addr list \<times> pool) res option" where
  "gather_end d r fs p =
     (case cells p d of
        None \<Rightarrow> Some (Inl UseAfterFree)
      | Some n \<Rightarrow>
          (if n < length fs then None
           else Some (bind_res (gather_results fs p) (\<lambda>(xs, p).
             Inr (xs, p\<lparr>cells := (cells p)(d := None, r := None)\<rparr>)))))"

subsection \<open>What is submitted\<close>

record job =
  j_fut :: addr
  j_crt :: addr
  j_worker :: addr
  j_args :: addr

text \<open>
  The jobs of a pool's queue: each has its coroutine and its future, which is as \<open>__future_init\<close>
  left it but for the pointers that \<open>S\<close> has set in it.
\<close>

definition fresh_future :: "addr \<Rightarrow> future" where
  "fresh_future crt = \<lparr>fut_pool = True, inp_block = mk_block (le_bytes 8 crt), out_block = qblock_init,
     fut_ready = False, shared_is_ready = 0, shared_cond_mtx = 0, shared_is_done = 0, shared_done = 0\<rparr>"

definition holds_jobs :: "(future \<Rightarrow> future) \<Rightarrow> pool \<Rightarrow> crts \<Rightarrow> job list \<Rightarrow> bool" where
  "holds_jobs S p cs js \<longleftrightarrow> pool_ok p \<and> pool_active p
     \<and> queued_tasks p = map (\<lambda>j. \<lparr>is_future = True, tsk = j_fut j\<rparr>) js
     \<and> distinct (map j_fut js) \<and> distinct (map j_crt js)
     \<and> (\<forall>j \<in> set js. futures p (j_fut j) = Some (S (fresh_future (j_crt j)))
          \<and> cs (j_crt j) = Some (coroutine_init (j_worker j) (j_args j)))"

text \<open>The same futures after their round: the result is in the output block.\<close>

definition done_future :: "addr \<Rightarrow> addr \<Rightarrow> future" where
  "done_future crt x = (fresh_future crt)\<lparr>out_block := (if x = 0 then qblock_init
     else \<lparr>data = Buf (le_bytes 8 x), dsize = 8\<rparr>), fut_ready := True\<rparr>"

lemma async_create_ok:
  assumes h: "holds_jobs id p cs js" and pad: "length pad = 7"
    and new: "\<forall>j \<in> set js. j_fut j \<noteq> fut \<and> j_crt j \<noteq> crt"
  obtains p' where "async_create pad crt fut worker args (p, cs)
      = Inr (fut, p', cs(crt \<mapsto> coroutine_init worker args))"
    "holds_jobs id p' (cs(crt \<mapsto> coroutine_init worker args))
       (js @ [\<lparr>j_fut = fut, j_crt = crt, j_worker = worker, j_args = args\<rparr>])"
    "cells p' = cells p" "\<forall>f. f \<noteq> fut \<longrightarrow> futures p' f = futures p f"
proof -
  let ?b = "\<lparr>data = Buf (le_bytes 8 crt), dsize = 8\<rparr>"
  have b: "qb_wf ?b" "qb_bytes ?b = le_bytes 8 crt" by (simp_all add: qb_wf_def)
  have ok: "pool_ok p" using h by (simp add: holds_jobs_def)
  obtain p' where p': "pool_sumbit pad 0 ?b (Some fut) p = Inr p'" "pool_ok p'"
    "queued_tasks p' = queued_tasks p @ [\<lparr>is_future = True, tsk = fut\<rparr>]"
    "futures p' = (futures p)(fut \<mapsto> \<lparr>fut_pool = True, inp_block = mk_block (qb_bytes ?b), out_block = qblock_init,
     fut_ready = False, shared_is_ready = 0, shared_cond_mtx = 0, shared_is_done = 0, shared_done = 0\<rparr>)"
    "cells p' = cells p" "pool_active p' = pool_active p"
    by (rule pool_sumbit_ok [OF ok b(1) pad, of 0 fut])
  have fut: "futures p' = (futures p)(fut \<mapsto> fresh_future crt)" using p'(4) b(2) by (simp add: fresh_future_def)
  have eq: "async_create pad crt fut worker args (p, cs)
      = Inr (fut, p', cs(crt \<mapsto> coroutine_init worker args))"
    using p'(1) by (simp add: async_create_def gnr_pool_sumbit_def generic_qbfill_fill qblock_init_def)
  show thesis
    by (rule that [OF eq _ p'(5)]) (use h p'(2,3,6) fut new in \<open>auto simp: holds_jobs_def\<close>)
qed

lemma fresh_future_wf: "qb_wf (inp_block (fresh_future crt))" "qb_wf (out_block (fresh_future crt))"
  by (simp_all add: fresh_future_def)

subsection \<open>Rounds of a worker\<close>

fun rounds :: "nat \<Rightarrow> 'w working \<Rightarrow> pool \<times> 'w \<Rightarrow> (pool \<times> 'w) res option" where
  "rounds 0 work st = Some (Inr st)"
| "rounds (Suc n) work st =
     (case thr_work work st of
        None \<Rightarrow> None
      | Some (Inl e) \<Rightarrow> Some (Inl e)
      | Some (Inr st) \<Rightarrow> rounds n work st)"

fun run_jobs :: "'w runner \<Rightarrow> job list \<Rightarrow> 'w \<Rightarrow> addr list \<times> 'w" where
  "run_jobs run [] w = ([], w)"
| "run_jobs run (j # js) w =
     (case run (j_worker j) (j_args j) w of (x, w) \<Rightarrow>
        case run_jobs run js w of (xs, w) \<Rightarrow> (x # xs, w))"

lemma length_run_jobs [simp]: "length (fst (run_jobs run js w)) = length js"
  by (induction js arbitrary: w) (simp_all split: prod.splits, metis fst_conv)

lemma loop_worker_ok:
  assumes "cs crt = Some (coroutine_init k a)" and "run k a w = (x, w')"
  shows "loop_worker run (mk_block (le_bytes 8 crt)) (Some qblock_init) (w, cs)
     = Inr (Some (out_block (done_future crt x)), w', cs(crt := None))"
proof -
  have "generic_qbout (mk_block (le_bytes 8 crt)) 8 = Inr (le_bytes 8 crt)"
    using qb_wf_read [of "mk_block (le_bytes 8 crt)"] by (simp add: generic_qbout_def)
  then show ?thesis
    using assms by (simp add: loop_worker_def u64_codec.dec_enc done_future_def fresh_future_def
        generic_qbfill_fill qblock_init_def)
qed

text \<open>
  Whom a finished future tells: \<open>S\<close> sets the pointers of a future, \<open>T\<close> is what the worker's
  last lines then do to the atomics, \<open>C\<close> says when they can.
\<close>

locale notifier =
  fixes S :: "future \<Rightarrow> future"
    and T :: "(addr \<rightharpoonup> nat) \<Rightarrow> (addr \<rightharpoonup> nat)"
    and C :: "(addr \<rightharpoonup> nat) \<Rightarrow> bool"
  assumes S_blocks: "inp_block (S fut) = inp_block fut" "out_block (S fut) = out_block fut"
    and S_done: "(S fut)\<lparr>out_block := b, fut_ready := z\<rparr> = S (fut\<lparr>out_block := b, fut_ready := z\<rparr>)"
    and told: "C (cells p) \<Longrightarrow> shared_is_ready fut = 0 \<Longrightarrow>
          notify_shared (S fut) p = Inr (p\<lparr>cells := T (cells p)\<rparr>)"
    and C_next: "C cs \<Longrightarrow> C (T cs)"
begin

text \<open>A round takes the oldest job.\<close>

lemma round_job:
  assumes h: "holds_jobs S p cs (j # js)" and c: "C (cells p)"
    and run: "run (j_worker j) (j_args j) w = (x, w')"
  obtains p' where "thr_work (loop_worker run) (p, w, cs) = Some (Inr (p', w', cs(j_crt j := None)))"
    "holds_jobs S p' (cs(j_crt j := None)) js" "cells p' = T (cells p)"
    "futures p' = (futures p)(j_fut j \<mapsto> S (done_future (j_crt j) x))"
proof -
  let ?fut = "S (fresh_future (j_crt j))" and ?out = "out_block (done_future (j_crt j) x)"
  have ok: "pool_ok p" "pool_active p"
    and t: "queued_tasks p = \<lparr>is_future = True, tsk = j_fut j\<rparr> # map (\<lambda>j. \<lparr>is_future = True, tsk = j_fut j\<rparr>) js"
    and fut: "futures p (j_fut j) = Some ?fut"
    and crt: "cs (j_crt j) = Some (coroutine_init (j_worker j) (j_args j))"
    using h by (simp_all add: holds_jobs_def)
  have wf: "loop_worker run (inp_block ?fut) (Some (out_block ?fut)) (w, cs)
      = Inr (Some ?out, w', cs(j_crt j := None))"
    using loop_worker_ok [where run = run and w = w and cs = cs and crt = "j_crt j", OF crt run] by (simp add: S_blocks fresh_future_def)
  have o: "qb_wf ?out" by (simp add: done_future_def qb_wf_def [of "\<lparr>data = _, dsize = _\<rparr>"])
  have d: "?fut\<lparr>out_block := ?out, fut_ready := True\<rparr> = S (done_future (j_crt j) x)"
    by (simp add: S_done done_future_def)
  have z: "shared_is_ready (done_future (j_crt j) x) = 0" by (simp add: done_future_def fresh_future_def)
  have tell: "notify_shared (?fut\<lparr>out_block := ?out, fut_ready := True\<rparr>) q = Inr (q\<lparr>cells := T (cells p)\<rparr>)"
    if "cells q = cells p" for q
    unfolding d using told [of q, OF _ z] c that by simp
  obtain p' where p': "thr_work (loop_worker run) (p, w, cs) = Some (Inr (p', w', cs(j_crt j := None)))"
    "pool_ok p'" "queued_tasks p' = map (\<lambda>j. \<lparr>is_future = True, tsk = j_fut j\<rparr>) js"
    "futures p' = (futures p)(j_fut j \<mapsto> ?fut\<lparr>out_block := ?out, fut_ready := True\<rparr>)"
    "cells p' = T (cells p)" "pool_active p'"
    by (rule thr_work_future [where f = "j_fut j" and work = "loop_worker run", OF ok t fut wf o tell])
  have "\<forall>i \<in> set js. j_fut i \<noteq> j_fut j \<and> j_crt i \<noteq> j_crt j"
    using h by (auto simp: holds_jobs_def image_iff)
  then have "holds_jobs S p' (cs(j_crt j := None)) js"
    using h p'(2,3,4,6) by (simp add: holds_jobs_def)
  with p' d show thesis using that by simp
qed

text \<open>Rounds run the jobs in the order of their submission.\<close>

lemma rounds_jobs:
  assumes "holds_jobs S p cs (js @ ks)" and "C (cells p)"
  shows "\<exists>p' cs'. rounds (length js) (loop_worker run) (p, w, cs) = Some (Inr (p', snd (run_jobs run js w), cs'))
     \<and> holds_jobs S p' cs' ks \<and> C (cells p') \<and> cells p' = (T ^^ length js) (cells p)
     \<and> (\<forall>i < length js. futures p' (j_fut (js ! i)) = Some (S (done_future (j_crt (js ! i)) (fst (run_jobs run js w) ! i))))
     \<and> (\<forall>f. f \<notin> j_fut ` set js \<longrightarrow> futures p' f = futures p f)"
  using assms
proof (induction js arbitrary: p w cs)
  case Nil
  then show ?case by simp
next
  case (Cons j js)
  obtain x w1 where r: "run (j_worker j) (j_args j) w = (x, w1)" by (cases "run (j_worker j) (j_args j) w")
  have h: "holds_jobs S p cs (j # js @ ks)" using Cons.prems(1) by simp
  obtain p1 where p1: "thr_work (loop_worker run) (p, w, cs) = Some (Inr (p1, w1, cs(j_crt j := None)))"
    "holds_jobs S p1 (cs(j_crt j := None)) (js @ ks)" "cells p1 = T (cells p)"
    "futures p1 = (futures p)(j_fut j \<mapsto> S (done_future (j_crt j) x))"
    by (rule round_job [where run = run, OF h Cons.prems(2) r])
  have c1: "C (cells p1)" using p1(3) C_next Cons.prems(2) by simp
  from Cons.IH [OF p1(2) c1, of w1] obtain p' cs' where p':
    "rounds (length js) (loop_worker run) (p1, w1, cs(j_crt j := None)) = Some (Inr (p', snd (run_jobs run js w1), cs'))"
    "holds_jobs S p' cs' ks" "C (cells p')" "cells p' = (T ^^ length js) (cells p1)"
    "\<forall>i < length js. futures p' (j_fut (js ! i)) = Some (S (done_future (j_crt (js ! i)) (fst (run_jobs run js w1) ! i)))"
    "\<forall>f. f \<notin> j_fut ` set js \<longrightarrow> futures p' f = futures p1 f"
    by (elim exE conjE) (rule that)
  have js: "run_jobs run (j # js) w = (x # fst (run_jobs run js w1), snd (run_jobs run js w1))"
    using r by (simp split: prod.splits)
  have "j_fut j \<notin> j_fut ` set js" using Cons.prems by (simp add: holds_jobs_def)
  then have "futures p' (j_fut j) = Some (S (done_future (j_crt j) x))" using p'(6) p1(4) by simp
  then have all: "futures p' (j_fut ((j # js) ! i)) = Some (S (done_future (j_crt ((j # js) ! i)) (fst (run_jobs run (j # js) w) ! i)))"
    if "i < length (j # js)" for i
    using that p'(5) unfolding js by (cases i) simp_all
  have others: "futures p' f = futures p f" if "f \<notin> j_fut ` set (j # js)" for f
    using that p'(6) p1(4) by simp
  have "(T ^^ length (j # js)) (cells p) = cells p'"
    using p'(4) p1(3) by (simp add: funpow_swap1)
  moreover have "rounds (length (j # js)) (loop_worker run) (p, w, cs) = Some (Inr (p', snd (run_jobs run (j # js) w), cs'))"
    using p1(1) p'(1) js by simp
  ultimately show ?case using all others p'(2,3) by auto
qed

end

text \<open>A future that nobody gathers tells nobody.\<close>

interpretation alone: notifier id id "\<lambda>_. True"
  by unfold_locales (simp_all add: notify_shared_def)

text \<open>A gathered future counts itself done.\<close>

definition counted :: "addr \<Rightarrow> addr \<Rightarrow> (addr \<rightharpoonup> nat) \<Rightarrow> (addr \<rightharpoonup> nat)" where
  "counted d r cs = cs(r \<mapsto> 1, d \<mapsto> Suc (the (cs d)))"

definition gathering :: "addr \<Rightarrow> addr \<Rightarrow> addr \<Rightarrow> addr \<Rightarrow> (addr \<rightharpoonup> nat) \<Rightarrow> bool" where
  "gathering m c d r cs \<longleftrightarrow> m \<noteq> 0 \<and> c \<noteq> 0 \<and> r \<noteq> 0 \<and> d \<noteq> r \<and> cs d \<noteq> None \<and> cs r \<noteq> None"

interpretation gathered: notifier "share m c d r" "counted d r" "gathering m c d r" for m c d r
  by unfold_locales (auto simp: share_def notify_shared_def counted_def gathering_def)

lemma counted_pow:
  "cs d = Some n \<Longrightarrow> d \<noteq> r \<Longrightarrow> (counted d r ^^ k) cs d = Some (n + k)"
  by (induction k) (simp_all add: counted_def)

subsection \<open>From the creation of coroutines to their results\<close>

fun create_all :: "byte list \<Rightarrow> job list \<Rightarrow> pool \<times> crts \<Rightarrow> (pool \<times> crts) res" where
  "create_all pad [] st = Inr st"
| "create_all pad (j # js) st =
     bind_res (async_create pad (j_crt j) (j_fut j) (j_worker j) (j_args j) st) (\<lambda>(_, st). create_all pad js st)"

lemma create_all_ok:
  assumes "holds_jobs id p cs is" and "length pad = 7" and "distinct (map j_fut (is @ js))"
    and "distinct (map j_crt (is @ js))"
  shows "\<exists>p' cs'. create_all pad js (p, cs) = Inr (p', cs') \<and> holds_jobs id p' cs' (is @ js) \<and> cells p' = cells p"
  using assms
proof (induction js arbitrary: p cs "is")
  case Nil
  then show ?case by simp
next
  case (Cons j js)
  have new: "\<forall>i \<in> set is. j_fut i \<noteq> j_fut j \<and> j_crt i \<noteq> j_crt j"
    using Cons.prems(3,4) by (auto simp: image_iff)
  obtain p1 where p1: "async_create pad (j_crt j) (j_fut j) (j_worker j) (j_args j) (p, cs)
      = Inr (j_fut j, p1, cs(j_crt j \<mapsto> coroutine_init (j_worker j) (j_args j)))"
    "holds_jobs id p1 (cs(j_crt j \<mapsto> coroutine_init (j_worker j) (j_args j)))
       (is @ [\<lparr>j_fut = j_fut j, j_crt = j_crt j, j_worker = j_worker j, j_args = j_args j\<rparr>])"
    "cells p1 = cells p"
    by (rule async_create_ok [OF Cons.prems(1,2) new])
  have "holds_jobs id p1 (cs(j_crt j \<mapsto> coroutine_init (j_worker j) (j_args j))) (is @ [j])"
    using p1(2) by (cases j) simp
  then have "\<exists>p' cs'. create_all pad js (p1, cs(j_crt j \<mapsto> coroutine_init (j_worker j) (j_args j))) = Inr (p', cs')
     \<and> holds_jobs id p' cs' ((is @ [j]) @ js) \<and> cells p' = cells p1"
    by (rule Cons.IH [OF _ Cons.prems(2)]) (use Cons.prems(3,4) in simp_all)
  then show ?case using p1(1,3) by (simp add: id_def)
qed

lemma created:
  assumes "length pad = 7" and "distinct (map j_fut js)" and "distinct (map j_crt js)"
  obtains p cs where "create_all pad js (pool_init n, Map.empty) = Inr (p, cs)" "holds_jobs id p cs js"
    "cells p = Map.empty"
proof -
  have "holds_jobs id (pool_init n) Map.empty []"
    by (simp add: holds_jobs_def) (simp add: pool_init_def queued_tasks_def)
  from create_all_ok [OF this assms(1), of js] assms(2,3) that show thesis
    by (auto simp: pool_init_def)
qed

lemma await_done:
  assumes "futures p f = Some (done_future crt x)"
  shows "\<exists>p'. await f p = Some (Inr (x, p'))"
proof -
  have out: "qb_wf (out_block (done_future crt x))"
    by (simp add: done_future_def qb_wf_def [of "\<lparr>data = _, dsize = _\<rparr>"])
  have bytes: "qb_bytes (out_block (done_future crt x)) = (if x = 0 then [] else le_bytes 8 x)"
    by (simp add: done_future_def)
  have ready: "fut_ready (done_future crt x)" "fut_pool (done_future crt x)"
    by (simp_all add: done_future_def fresh_future_def)
  have ne: "le_bytes 8 x \<noteq> []" using length_le_bytes [of 8 x] by force
  have "await_ptr (mk_block (qb_bytes (out_block (done_future crt x)))) = Inr x"
    unfolding bytes using ne
    by (auto simp: await_ptr_def mk_block_def memcpy_from_def u64_codec.dec_enc)
  then show ?thesis
    using assms out ready by (simp add: await_def await_future_def)
qed

text \<open>C13: coroutines run in the order of their creation, each once, and awaiting a future yields what
  its coroutine returned, a null pointer included.\<close>

theorem async_runs_in_order:
  assumes "length pad = 7" and "distinct (map j_fut js)" and "distinct (map j_crt js)"
  shows "\<exists>p cs p' cs'. create_all pad js (pool_init n, Map.empty) = Inr (p, cs)
     \<and> rounds (length js) (loop_worker run) (p, w, cs) = Some (Inr (p', snd (run_jobs run js w), cs'))
     \<and> thr_work (loop_worker run) (p', snd (run_jobs run js w), cs') = None
     \<and> (\<forall>i < length js. \<exists>p''. await (j_fut (js ! i)) p' = Some (Inr (fst (run_jobs run js w) ! i, p'')))"
proof -
  obtain p cs where p: "create_all pad js (pool_init n, Map.empty) = Inr (p, cs)" "holds_jobs id p cs js"
    by (rule created [OF assms])
  obtain p' cs' where p': "rounds (length js) (loop_worker run) (p, w, cs) = Some (Inr (p', snd (run_jobs run js w), cs'))"
    "holds_jobs id p' cs' []"
    "\<forall>i < length js. futures p' (j_fut (js ! i)) = Some (id (done_future (j_crt (js ! i)) (fst (run_jobs run js w) ! i)))"
    using alone.rounds_jobs [of p cs js "[]" run w] p(2) by auto
  have "contents (pq p') = []" "queue_inv (pq p')" using p'(2) by (simp_all add: holds_jobs_def queued_tasks_def pool_ok_def)
  then have "thr_work (loop_worker run) (p', snd (run_jobs run js w), cs') = None"
    by (simp add: thr_work_def queue_inv_bsize)
  with p(1) p'(1,3) await_done show ?thesis
    by (intro exI [of _ p] exI [of _ cs] exI [of _ p'] exI [of _ cs']) auto
qed

text \<open>Two coroutines of the same function, which counts its calls and returns its argument.\<close>

definition two_jobs :: "job list" where
  "two_jobs = [\<lparr>j_fut = 16, j_crt = 32, j_worker = 1, j_args = 0\<rparr>, \<lparr>j_fut = 48, j_crt = 64, j_worker = 1, j_args = 9\<rparr>]"

definition count_run :: "nat runner" where
  "count_run f a n = (a, Suc n)"

lemma two_jobs_run: "run_jobs count_run two_jobs 0 = ([0, 9], 2)"
  by (simp add: two_jobs_def count_run_def)

lemma two_jobs_nth: "j_fut (two_jobs ! 1) = 48" "two_jobs ! 1 \<in> set two_jobs"
  by (simp_all add: two_jobs_def)

lemma two_jobs_distinct: "distinct (map j_fut two_jobs)" "distinct (map j_crt two_jobs)" "length two_jobs = 2"
  by (simp_all add: two_jobs_def)

theorem async_runs_in_order_witness:
  "\<exists>p cs p' cs'. create_all (replicate 7 0) two_jobs (pool_init 2, Map.empty) = Inr (p, cs)
     \<and> rounds 2 (loop_worker count_run) (p, 0, cs) = Some (Inr (p', 2, cs'))
     \<and> (\<exists>p''. await 48 p' = Some (Inr (9, p'')))"
proof -
  obtain p cs p' cs' where "create_all (replicate 7 0) two_jobs (pool_init 2, Map.empty) = Inr (p, cs)"
    "rounds (length two_jobs) (loop_worker count_run) (p, 0, cs) = Some (Inr (p', snd (run_jobs count_run two_jobs 0), cs'))"
    "\<forall>i < length two_jobs. \<exists>p''. await (j_fut (two_jobs ! i)) p' = Some (Inr (fst (run_jobs count_run two_jobs 0) ! i, p''))"
    using async_runs_in_order [OF _ two_jobs_distinct(1,2), of "replicate 7 0" 2 count_run 0] by auto
  then show ?thesis
    unfolding two_jobs_run two_jobs_distinct(3) fst_conv snd_conv
    using two_jobs_nth(1) by (metis nth_Cons_0 nth_Cons_Suc One_nat_def one_less_numeral_iff semiring_norm(76))
qed

subsection \<open>Gathering\<close>

lemma gather_share_ok:
  assumes "\<forall>f \<in> set fs. futures p f \<noteq> None" and "distinct fs"
  shows "gather_share m c d r fs p = Inr (p\<lparr>futures := (\<lambda>f. if f \<in> set fs then map_option (share m c d r) (futures p f)
     else futures p f)\<rparr>)"
  using assms
proof (induction fs arbitrary: p)
  case Nil
  then show ?case by simp
next
  case (Cons f fs)
  obtain fut where fut: "futures p f = Some fut" using Cons.prems(1) by auto
  let ?p = "p\<lparr>futures := (futures p)(f \<mapsto> share m c d r fut)\<rparr>"
  have "gather_share m c d r fs ?p = Inr (?p\<lparr>futures := (\<lambda>g. if g \<in> set fs then map_option (share m c d r) (futures ?p g)
     else futures ?p g)\<rparr>)"
    by (rule Cons.IH) (use Cons.prems in auto)
  moreover have "(\<lambda>g. if g \<in> set fs then map_option (share m c d r) (futures ?p g) else futures ?p g)
      = (\<lambda>g. if g \<in> set (f # fs) then map_option (share m c d r) (futures p g) else futures p g)"
    using Cons.prems(2) fut by (auto simp: fun_eq_iff)
  ultimately show ?case using fut by simp
qed

lemma gather_begin_ok:
  assumes h: "holds_jobs id p cs ks" and dn: "\<forall>j \<in> set js. futures p (j_fut j) \<noteq> None"
    and dist: "distinct (map j_fut (js @ ks))" and ne: "m \<noteq> 0" "c \<noteq> 0" "r \<noteq> 0" "d \<noteq> r"
  obtains p' where "gather_begin m c d r (map j_fut (js @ ks)) p = Inr p'"
    "holds_jobs (share m c d r) p' cs ks" "gathering m c d r (cells p')" "cells p' d = Some 0"
    "\<forall>j \<in> set js. futures p' (j_fut j) = map_option (share m c d r) (futures p (j_fut j))"
proof -
  let ?p = "p\<lparr>cells := (cells p)(d \<mapsto> 0, r \<mapsto> 0)\<rparr>" and ?fs = "map j_fut (js @ ks)"
  let ?p' = "?p\<lparr>futures := (\<lambda>f. if f \<in> set ?fs then map_option (share m c d r) (futures ?p f) else futures ?p f)\<rparr>"
  have all: "\<forall>f \<in> set ?fs. futures ?p f \<noteq> None" using h dn by (auto simp: holds_jobs_def)
  have eq: "gather_begin m c d r ?fs p = Inr ?p'"
    unfolding gather_begin_def by (rule gather_share_ok [OF all dist])
  have hold: "holds_jobs (share m c d r) ?p' cs ks"
    using h fresh_future_wf unfolding holds_jobs_def pool_ok_def queued_tasks_def
    by (auto simp: share_def split: if_splits)
  show thesis
    by (rule that [OF eq hold]) (use ne in \<open>auto simp: gathering_def\<close>)
qed

lemma gather_results_ok:
  assumes "\<forall>i < length js. futures p (j_fut (js ! i)) = Some (share m c d r (done_future (j_crt (js ! i)) (xs ! i)))"
    and "distinct (map j_fut js)" and "length xs = length js"
  shows "\<exists>p'. gather_results (map j_fut js) p = Inr (xs, p')"
  using assms
proof (induction js arbitrary: p xs)
  case Nil
  then show ?case by simp
next
  case (Cons j js)
  obtain x ys where xs: "xs = x # ys" using Cons.prems(3) by (cases xs) auto
  let ?p = "p\<lparr>futures := (futures p)(j_fut j := None)\<rparr>"
  have f: "futures p (j_fut j) = Some (share m c d r (done_future (j_crt j) x))"
    using Cons.prems(1) [rule_format, of 0] xs by simp
  have rest: "futures ?p (j_fut (js ! i)) = Some (share m c d r (done_future (j_crt (js ! i)) (ys ! i)))" if "i < length js" for i
  proof -
    have "j_fut (js ! i) \<noteq> j_fut j" using Cons.prems(2) that by (auto simp: image_iff) (metis nth_mem)
    then show ?thesis using Cons.prems(1) [rule_format, of "Suc i"] xs that by simp
  qed
  obtain p' where "gather_results (map j_fut js) ?p = Inr (ys, p')"
    using Cons.IH [of ?p ys] rest Cons.prems(2,3) xs by auto
  moreover have "out_block (share m c d r (done_future (j_crt j) x))
      = (if x = 0 then qblock_init else \<lparr>data = Buf (le_bytes 8 x), dsize = 8\<rparr>)"
    by (simp add: share_def done_future_def)
  ultimately show ?case
    using f xs by (simp add: qblock_init_def generic_qbout_def memcpy_from_def u64_codec.dec_enc)
qed

text \<open>C14: gathering futures whose coroutines have not run yet waits until the last one has: as long as fewer
  have run the call blocks, and then it yields their results in the order of the futures.\<close>

theorem gather_collects:
  assumes "length pad = 7" and "distinct (map j_fut js)" and "distinct (map j_crt js)"
    and ne: "m \<noteq> 0" "c \<noteq> 0" "r \<noteq> 0" "d \<noteq> r"
  shows "\<exists>p cs p0 p1 cs1 p2. create_all pad js (pool_init n, Map.empty) = Inr (p, cs)
     \<and> gather_begin m c d r (map j_fut js) p = Inr p0
     \<and> (\<forall>k < length js. \<exists>pk wk csk. rounds k (loop_worker run) (p0, w, cs) = Some (Inr (pk, wk, csk))
          \<and> gather_end d r (map j_fut js) pk = None)
     \<and> rounds (length js) (loop_worker run) (p0, w, cs) = Some (Inr (p1, snd (run_jobs run js w), cs1))
     \<and> gather_end d r (map j_fut js) p1 = Some (Inr (fst (run_jobs run js w), p2))"
proof -
  obtain p cs where p: "create_all pad js (pool_init n, Map.empty) = Inr (p, cs)" "holds_jobs id p cs js"
    by (rule created [OF assms(1-3)])
  obtain p0 where p0: "gather_begin m c d r (map j_fut ([] @ js)) p = Inr p0"
    "holds_jobs (share m c d r) p0 cs js" "gathering m c d r (cells p0)" "cells p0 d = Some 0"
    by (rule gather_begin_ok [where js = "[]", OF p(2) _ _ ne]) (use assms(2) in auto)
  obtain p1 cs1 where p1: "rounds (length js) (loop_worker run) (p0, w, cs) = Some (Inr (p1, snd (run_jobs run js w), cs1))"
    "cells p1 = (counted d r ^^ length js) (cells p0)"
    "\<forall>i < length js. futures p1 (j_fut (js ! i))
       = Some (share m c d r (done_future (j_crt (js ! i)) (fst (run_jobs run js w) ! i)))"
    using gathered.rounds_jobs [of m c d r p0 cs js "[]" run w] p0(2,3) by auto
  have early: "\<exists>pk wk csk. rounds k (loop_worker run) (p0, w, cs) = Some (Inr (pk, wk, csk))
      \<and> gather_end d r (map j_fut js) pk = None" if k: "k < length js" for k
  proof -
    obtain pk csk where pk: "rounds k (loop_worker run) (p0, w, cs) = Some (Inr (pk, snd (run_jobs run (take k js) w), csk))"
      "cells pk = (counted d r ^^ k) (cells p0)"
      using gathered.rounds_jobs [of m c d r p0 cs "take k js" "drop k js" run w] p0(2,3) k by (auto simp: min_absorb2)
    have "cells pk d = Some k" using counted_pow [of "cells p0" d, OF p0(4) ne(4)] pk(2) by simp
    then have "gather_end d r (map j_fut js) pk = None" using k by (simp add: gather_end_def)
    with pk(1) show ?thesis by blast
  qed
  have "cells p1 d = Some (length js)" using counted_pow [of "cells p0" d, OF p0(4) ne(4)] p1(2) by simp
  moreover obtain p2 where "gather_results (map j_fut js) p1 = Inr (fst (run_jobs run js w), p2)"
    using gather_results_ok [OF p1(3) assms(2)] by auto
  ultimately have "gather_end d r (map j_fut js) p1
      = Some (Inr (fst (run_jobs run js w), p2\<lparr>cells := (cells p2)(d := None, r := None)\<rparr>))"
    by (simp add: gather_end_def)
  with p(1) p0(1) p1(1) early show ?thesis by auto
qed

theorem gather_collects_witness:
  "\<exists>p0 cs pk p1 cs1 p2. gather_end 3 4 [16, 48] pk = None \<and> rounds 2 (loop_worker count_run) (p0, 0, cs) = Some (Inr (p1, 2, cs1))
     \<and> gather_end 3 4 [16, 48] p1 = Some (Inr ([0, 9], p2))"
proof -
  obtain p0 cs p1 cs1 p2 where
    "\<forall>k < length two_jobs. \<exists>pk wk csk. rounds k (loop_worker count_run) (p0, 0, cs) = Some (Inr (pk, wk, csk))
          \<and> gather_end 3 4 (map j_fut two_jobs) pk = None"
    "rounds (length two_jobs) (loop_worker count_run) (p0, 0, cs) = Some (Inr (p1, snd (run_jobs count_run two_jobs 0), cs1))"
    "gather_end 3 4 (map j_fut two_jobs) p1 = Some (Inr (fst (run_jobs count_run two_jobs 0), p2))"
    using gather_collects [OF _ two_jobs_distinct(1,2), of "replicate 7 0" 1 2 4 3 2 count_run 0] by auto
  moreover have "0 < length two_jobs" by (simp add: two_jobs_def)
  ultimately obtain pk where "gather_end 3 4 (map j_fut two_jobs) pk = None"
    "rounds (length two_jobs) (loop_worker count_run) (p0, 0, cs) = Some (Inr (p1, snd (run_jobs count_run two_jobs 0), cs1))"
    "gather_end 3 4 (map j_fut two_jobs) p1 = Some (Inr (fst (run_jobs count_run two_jobs 0), p2))"
    by blast
  then show ?thesis unfolding two_jobs_run two_jobs_distinct(3) by (auto simp: two_jobs_def)
qed

text \<open>A future that is ready before it is gathered is never counted: once the other coroutines have
  run, the pool is idle and the gathering thread waits for ever.\<close>

theorem gather_misses_finished:
  assumes "length pad = 7" and "distinct (map j_fut (js @ ks))" and "distinct (map j_crt (js @ ks))"
    and ne: "m \<noteq> 0" "c \<noteq> 0" "r \<noteq> 0" "d \<noteq> r" and early: "js \<noteq> []"
  shows "\<exists>p cs p0 w0 cs0 p1 p2 w2 cs2. create_all pad (js @ ks) (pool_init n, Map.empty) = Inr (p, cs)
     \<and> rounds (length js) (loop_worker run) (p, w, cs) = Some (Inr (p0, w0, cs0))
     \<and> gather_begin m c d r (map j_fut (js @ ks)) p0 = Inr p1
     \<and> rounds (length ks) (loop_worker run) (p1, w0, cs0) = Some (Inr (p2, w2, cs2))
     \<and> thr_work (loop_worker run) (p2, w2, cs2) = None
     \<and> gather_end d r (map j_fut (js @ ks)) p2 = None"
proof -
  obtain p cs where p: "create_all pad (js @ ks) (pool_init n, Map.empty) = Inr (p, cs)" "holds_jobs id p cs (js @ ks)"
    by (rule created [OF assms(1-3)])
  obtain p0 cs0 where p0: "rounds (length js) (loop_worker run) (p, w, cs) = Some (Inr (p0, snd (run_jobs run js w), cs0))"
    "holds_jobs id p0 cs0 ks"
    "\<forall>i < length js. futures p0 (j_fut (js ! i)) = Some (id (done_future (j_crt (js ! i)) (fst (run_jobs run js w) ! i)))"
    using alone.rounds_jobs [of p cs js ks run w] p(2) by auto
  have dn: "\<forall>j \<in> set js. futures p0 (j_fut j) \<noteq> None"
    using p0(3) by (auto simp: in_set_conv_nth)
  obtain p1 where p1: "gather_begin m c d r (map j_fut (js @ ks)) p0 = Inr p1"
    "holds_jobs (share m c d r) p1 cs0 ks" "gathering m c d r (cells p1)" "cells p1 d = Some 0"
    by (rule gather_begin_ok [OF p0(2) dn assms(2) ne])
  obtain p2 cs2 where p2: "rounds (length ks) (loop_worker run) (p1, snd (run_jobs run js w), cs0)
      = Some (Inr (p2, snd (run_jobs run ks (snd (run_jobs run js w))), cs2))"
    "holds_jobs (share m c d r) p2 cs2 []" "cells p2 = (counted d r ^^ length ks) (cells p1)"
    using gathered.rounds_jobs [of m c d r p1 cs0 ks "[]" run "snd (run_jobs run js w)"] p1(2,3) by auto
  have "cells p2 d = Some (length ks)" using counted_pow [of "cells p1" d, OF p1(4) ne(4)] p2(3) by simp
  then have "gather_end d r (map j_fut (js @ ks)) p2 = None" using early by (simp add: gather_end_def)
  moreover have "contents (pq p2) = []" "queue_inv (pq p2)"
    using p2(2) by (simp_all add: holds_jobs_def queued_tasks_def pool_ok_def)
  then have "thr_work (loop_worker run) (p2, snd (run_jobs run ks (snd (run_jobs run js w))), cs2) = None"
    by (simp add: thr_work_def queue_inv_bsize)
  ultimately show ?thesis using p(1) p0(1) p1(1) p2(1) by blast
qed

theorem gather_misses_finished_witness:
  "\<exists>p2 w2 cs2. thr_work (loop_worker count_run) (p2, w2, cs2) = None \<and> gather_end 3 4 [16, 48] p2 = None"
proof -
  have two: "[hd two_jobs] @ tl two_jobs = two_jobs" by (simp add: two_jobs_def)
  have "\<exists>p2 w2 cs2. thr_work (loop_worker count_run) (p2, w2, cs2) = None
      \<and> gather_end 3 4 (map j_fut two_jobs) p2 = None"
    using gather_misses_finished [of "replicate 7 0" "[hd two_jobs]" "tl two_jobs" 1 2 4 3 2 count_run 0]
      two_jobs_distinct(1,2) unfolding two by simp blast
  then show ?thesis by (simp add: two_jobs_def)
qed

text \<open>Stopping the pool drops what it has not started: no worker takes another task, and awaiting
  the future of a dropped coroutine never returns.\<close>

theorem stopped_pool_drops_tasks:
  assumes "holds_jobs S p cs js" and "j \<in> set js" and "\<And>fut. fut_ready (S fut) = fut_ready fut"
    and "\<And>fut. fut_pool (S fut) = fut_pool fut"
  shows "thr_work work (pool_free p, w) = None \<and> await (j_fut j) (pool_free p) = None"
proof -
  have "futures p (j_fut j) = Some (S (fresh_future (j_crt j)))"
    using assms(1,2) by (simp add: holds_jobs_def)
  then show ?thesis
    by (simp add: thr_work_def pool_free_def await_def await_future_def assms(3,4) fresh_future_def)
qed

theorem stopped_pool_drops_tasks_witness:
  "\<exists>p cs. create_all (replicate 7 0) two_jobs (pool_init 2, Map.empty) = Inr (p, cs)
     \<and> await 48 (pool_free p) = None"
proof -
  obtain p cs where p: "create_all (replicate 7 0) two_jobs (pool_init 2, Map.empty) = Inr (p, cs)" "holds_jobs id p cs two_jobs"
    by (rule created [OF _ two_jobs_distinct(1,2), of "replicate 7 0" 2]) simp
  have "await (j_fut (two_jobs ! 1)) (pool_free p) = None"
    using stopped_pool_drops_tasks [OF p(2) two_jobs_nth(2), of "\<lambda>_ _ _. Inl NullAccess" "()"] by simp
  then show ?thesis using p(1) unfolding two_jobs_nth(1) by blast
qed

end
