(* ===== verification/PoolSteps.thy ===== *)
theory PoolSteps
  imports Asyncio
begin

text \<open>
  The pool of theory ThreadPool action by action: its workers against \<open>pool_sumbit\<close> and
  \<open>pool_free\<close>; the tasks themselves are those of that theory, here only counted.  \<open>cnd_wait\<close> releases the
  mutex and sleeps in one action, a signal wakes at most one sleeper; wake-ups without a cause, which
  C permits, are left out.

  Popping the last task ends in \<open>queue_free\<close>, which destroys \<open>blocks_mtx\<close> while the worker holds it.  The
  step relation has both outcomes, by its argument \<open>busy\<close>: a C library may refuse to destroy a mutex
  that is held (glibc answers \<open>EBUSY\<close>), and then it goes on to exclude; or the mutex is gone, and then,
  as in theory CRuntime, locking it fails at once, and so does a wait on it.
\<close>

subsection \<open>Workers, submitters and the end of a pool\<close>

text \<open>Where a worker of \<open>__thr_work\<close> stands; \<open>PTest\<close>, \<open>PWait\<close> and \<open>PPop\<close> hold \<open>blocks_mtx\<close>.\<close>

datatype ppc = PTop | PLock | PTest | PWait | PAsleep | PWoken | PPop | PRun | PExit

text \<open>Where the thread in \<open>pool_free\<close> stands.\<close>

datatype stpc = SActive | SStored | SCasted | SJoining | SJoined

record psys =
  p_tasks :: nat          \<comment> \<open>\<open>q.bsize\<close>\<close>
  p_act :: bool           \<comment> \<open>\<open>is_active\<close>\<close>
  p_alive :: bool         \<comment> \<open>\<open>blocks_mtx\<close> is not destroyed\<close>
  p_held :: "nat option"  \<comment> \<open>the worker that holds it\<close>
  p_pc :: "nat \<Rightarrow> ppc"
  p_sig :: nat            \<comment> \<open>submitters between \<open>push_block\<close> and \<open>cnd_signal\<close>\<close>
  p_stop :: stpc
  p_fault :: bool         \<comment> \<open>a worker has read a task from a null block\<close>

definition psys_init :: "psys \<Rightarrow> bool" where
  "psys_init s \<longleftrightarrow> p_tasks s = 0 \<and> p_act s \<and> p_alive s \<and> p_held s = None \<and> (\<forall>i. p_pc s i = PTop) \<and> p_sig s = 0
     \<and> p_stop s = SActive \<and> \<not> p_fault s"

inductive pstep :: "bool \<Rightarrow> nat \<Rightarrow> psys \<Rightarrow> psys \<Rightarrow> bool" for busy n where
  p_top: "i < n \<Longrightarrow> p_pc s i = PTop \<Longrightarrow>
     pstep busy n s (s\<lparr>p_pc := (p_pc s)(i := if p_act s then PLock else PExit)\<rparr>)"
| p_lock: "i < n \<Longrightarrow> p_pc s i = PLock \<or> p_pc s i = PWoken \<Longrightarrow> p_alive s \<Longrightarrow> p_held s = None \<Longrightarrow>
     pstep busy n s (s\<lparr>p_pc := (p_pc s)(i := PTest), p_held := Some i\<rparr>)"
| p_nolock: "i < n \<Longrightarrow> p_pc s i = PLock \<or> p_pc s i = PWoken \<Longrightarrow> \<not> p_alive s \<Longrightarrow>
     pstep busy n s (s\<lparr>p_pc := (p_pc s)(i := PTest)\<rparr>)"
| p_block: "i < n \<Longrightarrow> p_pc s i = PTest \<Longrightarrow> p_tasks s = 0 \<Longrightarrow> p_act s \<Longrightarrow>
     pstep busy n s (s\<lparr>p_pc := (p_pc s)(i := PWait)\<rparr>)"
| p_none: "i < n \<Longrightarrow> p_pc s i = PTest \<Longrightarrow> p_tasks s = 0 \<Longrightarrow> \<not> p_act s \<Longrightarrow>
     pstep busy n s (s\<lparr>p_pc := (p_pc s)(i := PTop), p_held := None\<rparr>)"
| p_some: "i < n \<Longrightarrow> p_pc s i = PTest \<Longrightarrow> p_tasks s \<noteq> 0 \<Longrightarrow>
     pstep busy n s (s\<lparr>p_pc := (p_pc s)(i := PPop)\<rparr>)"
| p_wait: "i < n \<Longrightarrow> p_pc s i = PWait \<Longrightarrow> p_alive s \<Longrightarrow>
     pstep busy n s (s\<lparr>p_pc := (p_pc s)(i := PAsleep), p_held := None\<rparr>)"
| p_nowait: "i < n \<Longrightarrow> p_pc s i = PWait \<Longrightarrow> \<not> p_alive s \<Longrightarrow>
     pstep busy n s (s\<lparr>p_pc := (p_pc s)(i := PTest)\<rparr>)"
| p_pop: "i < n \<Longrightarrow> p_pc s i = PPop \<Longrightarrow>
     pstep busy n s (s\<lparr>p_pc := (p_pc s)(i := PRun), p_alive := p_alive s \<and> (p_tasks s = 1 \<longrightarrow> busy), p_held := None,
       p_tasks := p_tasks s - 1, p_fault := p_fault s \<or> p_tasks s = 0\<rparr>)"
| p_run: "i < n \<Longrightarrow> p_pc s i = PRun \<Longrightarrow> pstep busy n s (s\<lparr>p_pc := (p_pc s)(i := PTop)\<rparr>)"
| u_push: "p_stop s = SActive \<Longrightarrow> p_alive s \<longrightarrow> p_held s = None \<Longrightarrow>
     pstep busy n s (s\<lparr>p_tasks := Suc (p_tasks s), p_sig := Suc (p_sig s)\<rparr>)"
| u_wake: "p_sig s \<noteq> 0 \<Longrightarrow> i < n \<Longrightarrow> p_pc s i = PAsleep \<Longrightarrow>
     pstep busy n s (s\<lparr>p_sig := p_sig s - 1, p_pc := (p_pc s)(i := PWoken)\<rparr>)"
| u_signal: "p_sig s \<noteq> 0 \<Longrightarrow> (\<forall>i < n. p_pc s i \<noteq> PAsleep) \<Longrightarrow> pstep busy n s (s\<lparr>p_sig := p_sig s - 1\<rparr>)"
| f_store: "p_stop s = SActive \<Longrightarrow> pstep busy n s (s\<lparr>p_act := False, p_stop := SStored\<rparr>)"
| f_cast: "p_stop s = SStored \<Longrightarrow>
     pstep busy n s (s\<lparr>p_pc := (\<lambda>i. if p_pc s i = PAsleep then PWoken else p_pc s i), p_stop := SCasted\<rparr>)"
| f_queue: "p_stop s = SCasted \<Longrightarrow> p_alive s \<longrightarrow> p_held s = None \<Longrightarrow>
     pstep busy n s (s\<lparr>p_tasks := 0, p_alive := False, p_stop := SJoining\<rparr>)"
| f_join: "p_stop s = SJoining \<Longrightarrow> (\<forall>i < n. p_pc s i = PExit) \<Longrightarrow> pstep busy n s (s\<lparr>p_stop := SJoined\<rparr>)"

text \<open>
  As long as the mutex is there it excludes, and as long as the pool is active besides, a task that
  is queued has somebody to run it: a worker that is not asleep, or a signal that is still to come.
\<close>

definition psys_at :: "psys \<Rightarrow> nat \<Rightarrow> bool" where
  "psys_at s i \<longleftrightarrow> (p_alive s \<longrightarrow> (p_pc s i = PTest \<or> p_pc s i = PWait \<or> p_pc s i = PPop \<longleftrightarrow> p_held s = Some i)
     \<and> (p_act s \<longrightarrow> (p_pc s i = PWait \<longrightarrow> p_tasks s = 0) \<and> (p_pc s i = PPop \<longrightarrow> p_tasks s \<noteq> 0)))"

definition psys_inv :: "bool \<Rightarrow> nat \<Rightarrow> psys \<Rightarrow> bool" where
  "psys_inv busy n s \<longleftrightarrow> (\<forall>i. psys_at s i)
     \<and> (p_alive s \<longrightarrow> p_act s \<longrightarrow> (\<forall>i < n. p_pc s i = PAsleep) \<longrightarrow> p_tasks s \<noteq> 0 \<longrightarrow> p_sig s \<noteq> 0)
     \<and> (p_act s \<longleftrightarrow> p_stop s = SActive) \<and> (p_alive s \<longrightarrow> p_act s \<longrightarrow> \<not> p_fault s)
     \<and> (busy \<longrightarrow> p_act s \<longrightarrow> p_alive s)"

lemma psys_at_next:
  assumes "pstep busy n s t" and at: "\<And>i. psys_at s i" and stop: "p_act s \<longleftrightarrow> p_stop s = SActive"
  shows "psys_at t j"
  using assms(1)
proof cases
  case (p_top i)
  then show ?thesis using at [of i] at [of j] by (auto simp: psys_at_def)
next
  case (p_lock i)
  then show ?thesis using at [of i] at [of j] by (auto simp: psys_at_def)
next
  case (p_block i)
  then show ?thesis using at [of i] at [of j] by (auto simp: psys_at_def)
next
  case (p_none i)
  then show ?thesis using at [of i] at [of j] by (auto simp: psys_at_def)
next
  case (p_some i)
  then show ?thesis using at [of i] at [of j] by (auto simp: psys_at_def)
next
  case (p_wait i)
  then show ?thesis using at [of i] at [of j] by (auto simp: psys_at_def)
next
  case (p_pop i)
  then show ?thesis using at [of i] at [of j] by (auto simp: psys_at_def)
next
  case (p_run i)
  then show ?thesis using at [of i] at [of j] by (auto simp: psys_at_def)
next
  case (u_wake i)
  then show ?thesis using at [of i] at [of j] by (auto simp: psys_at_def)
next
  case f_cast
  then show ?thesis using at [of j] stop by (cases "p_pc s j") (simp_all add: psys_at_def)
qed (use at [of j] stop in \<open>auto simp: psys_at_def\<close>)

lemma psys_rest_next:
  assumes "pstep busy n s t" and "psys_inv busy n s" and "0 < n"
  shows "p_act t \<longleftrightarrow> p_stop t = SActive" "p_alive t \<Longrightarrow> p_act t \<Longrightarrow> \<not> p_fault t"
    "busy \<Longrightarrow> p_act t \<Longrightarrow> p_alive t"
    "p_alive t \<Longrightarrow> p_act t \<Longrightarrow> \<forall>i < n. p_pc t i = PAsleep \<Longrightarrow> p_tasks t \<noteq> 0 \<Longrightarrow> p_sig t \<noteq> 0"
proof -
  have at: "psys_at s i" for i using assms(2) by (simp add: psys_inv_def)
  have inv: "p_act s \<longleftrightarrow> p_stop s = SActive" "p_alive s \<Longrightarrow> p_act s \<Longrightarrow> \<not> p_fault s" "busy \<Longrightarrow> p_act s \<Longrightarrow> p_alive s"
    "p_alive s \<Longrightarrow> p_act s \<Longrightarrow> \<forall>i < n. p_pc s i = PAsleep \<Longrightarrow> p_tasks s \<noteq> 0 \<Longrightarrow> p_sig s \<noteq> 0"
    using assms(2) by (auto simp: psys_inv_def)
  show "p_act t \<longleftrightarrow> p_stop t = SActive" using assms(1) inv(1) by cases auto
  show "p_alive t" if "busy" "p_act t" using assms(1) inv(1,3) that by cases auto
  show "\<not> p_fault t" if "p_alive t" "p_act t"
    using assms(1) that
  proof cases
    case (p_pop i)
    then show ?thesis using at [of i] inv(2) that by (simp add: psys_at_def)
  qed (use inv(2) in auto)
  show "p_sig t \<noteq> 0" if "p_alive t" "p_act t" "\<forall>i < n. p_pc t i = PAsleep" "p_tasks t \<noteq> 0"
    using assms(1)
  proof cases
    case (p_wait i)
    then show ?thesis using at [of i] that by (simp add: psys_at_def)
  next
    case u_signal
    then show ?thesis using that assms(3) by auto
  qed (use inv that in \<open>auto split: if_splits\<close>)
qed

lemma psys_inv_next:
  assumes "0 < n" and "pstep busy n s t" and "psys_inv busy n s"
  shows "psys_inv busy n t"
  using psys_at_next [OF assms(2)] psys_rest_next [OF assms(2,3,1)] assms(3) by (auto simp: psys_inv_def)

lemma psys_inv_init: "psys_init s \<Longrightarrow> psys_inv busy n s"
  by (auto simp: psys_init_def psys_inv_def psys_at_def)

interpretation pl: invariant_of psys_init "pstep busy (Suc n)" "psys_inv busy (Suc n)" for busy n
  by unfold_locales (fact psys_inv_init, rule psys_inv_next, simp_all)

abbreviation preach :: "bool \<Rightarrow> nat \<Rightarrow> psys \<Rightarrow> bool" where
  "preach busy n \<equiv> reach psys_init (pstep busy n)"

lemma preach_step: "preach busy n s \<Longrightarrow> pstep busy n s t \<Longrightarrow> preach busy n t"
  by (rule reach_step)

text \<open>A state with the given tasks, flags, holder, workers and stopper, and \<open>g\<close> pending signals.\<close>

definition pstate :: "nat \<Rightarrow> bool \<Rightarrow> bool \<Rightarrow> nat option \<Rightarrow> (nat \<Rightarrow> ppc) \<Rightarrow> nat \<Rightarrow> stpc \<Rightarrow> psys" where
  "pstate t a l h pc g st =
     \<lparr>p_tasks = t, p_act = a, p_alive = l, p_held = h, p_pc = pc, p_sig = g, p_stop = st, p_fault = False\<rparr>"

lemma pstate_start: "preach busy n (pstate 0 True True None (\<lambda>_. PTop) 0 SActive)"
  by (rule reach_init) (simp add: psys_init_def pstate_def)

text \<open>A worker's way to its test of the queue, with the mutex and without.\<close>

lemma to_test:
  assumes r: "preach busy n (pstate t True True None pc g SActive)" and i: "i < n" "pc i = PTop"
  shows "preach busy n (pstate t True True (Some i) (pc(i := PTest)) g SActive)"
proof -
  let ?s = "pstate t True True None pc g SActive" and ?a = "pstate t True True None (pc(i := PLock)) g SActive"
  have "pstep busy n ?s ?a" using p_top [OF i(1), of ?s] i(2) by (simp add: pstate_def)
  then have ra: "preach busy n ?a" by (rule preach_step [OF r])
  have "pstep busy n ?a (pstate t True True (Some i) (pc(i := PTest)) g SActive)"
    using p_lock [OF i(1), of ?a] by (simp add: pstate_def)
  then show ?thesis by (rule preach_step [OF ra])
qed

lemma to_pop_unlocked:
  assumes r: "preach busy n (pstate (Suc t) True False h pc g SActive)" and i: "i < n" "pc i = PTop"
  shows "preach busy n (pstate (Suc t) True False h (pc(i := PPop)) g SActive)"
proof -
  let ?s = "\<lambda>q. pstate (Suc t) True False h (pc(i := q)) g SActive"
  have "pstep busy n (?s PTop) (?s PLock)" using p_top [OF i(1), of "?s PTop"] by (simp add: pstate_def)
  moreover have "pc(i := PTop) = pc" using i(2) by auto
  ultimately have a: "preach busy n (?s PLock)" using preach_step [OF r] by simp
  have "pstep busy n (?s PLock) (?s PTest)" using p_nolock [OF i(1), of "?s PLock"] by (simp add: pstate_def)
  then have b: "preach busy n (?s PTest)" by (rule preach_step [OF a])
  have "pstep busy n (?s PTest) (?s PPop)" using p_some [OF i(1), of "?s PTest"] by (simp add: pstate_def)
  then show ?thesis by (rule preach_step [OF b])
qed

lemma to_push:
  assumes r: "preach busy n (pstate t True l h pc g SActive)" and free: "l \<longrightarrow> h = None"
  shows "preach busy n (pstate (Suc t) True l h pc (Suc g) SActive)"
proof -
  have "pstep busy n (pstate t True l h pc g SActive) (pstate (Suc t) True l h pc (Suc g) SActive)"
    using u_push [of "pstate t True l h pc g SActive"] free by (simp add: pstate_def)
  then show ?thesis by (rule preach_step [OF r])
qed

subsection \<open>Properties of the pool\<close>

text \<open>C26: no submitted task is forgotten while the pool is active: if every worker is asleep and a task
  is queued, its submitter has still to signal; and no worker reads a task that is not there.  This
  holds for ever if the C library refuses to destroy a mutex that is held, and otherwise until a
  worker has popped the last task of the queue for the first time.\<close>

theorem submitted_task_not_forgotten:
  assumes "preach busy (Suc n) s" and "p_act s" and "busy \<or> p_alive s"
  shows "((\<forall>i < Suc n. p_pc s i = PAsleep) \<and> p_tasks s \<noteq> 0 \<longrightarrow> p_sig s \<noteq> 0) \<and> \<not> p_fault s"
  using pl.reach_inv [OF assms(1)] assms(2,3) by (auto simp: psys_inv_def)

text \<open>A worker that has gone to sleep, and a task that has been pushed since.\<close>

lemma asleep_and_pushed: "preach busy (Suc 0) (pstate 1 True True None ((\<lambda>_. PTop)(0 := PAsleep)) 1 SActive)"
proof -
  let ?s = "\<lambda>q. pstate 0 True True (Some 0) ((\<lambda>_. PTop)(0 := q)) 0 SActive"
    and ?z = "pstate 0 True True None ((\<lambda>_. PTop)(0 := PAsleep)) 0 SActive"
  have r: "preach busy (Suc 0) (?s PTest)" by (rule to_test [OF pstate_start]) simp_all
  have "pstep busy (Suc 0) (?s PTest) (?s PWait)" using p_block [of 0 "Suc 0" "?s PTest"] by (simp add: pstate_def)
  then have w: "preach busy (Suc 0) (?s PWait)" by (rule preach_step [OF r])
  have "pstep busy (Suc 0) (?s PWait) ?z" using p_wait [of 0 "Suc 0" "?s PWait"] by (simp add: pstate_def)
  then have "preach busy (Suc 0) ?z" by (rule preach_step [OF w])
  then show ?thesis using to_push by fastforce
qed

theorem submitted_task_not_forgotten_witness:
  "\<exists>s. preach False (Suc 0) s \<and> (\<forall>i < Suc 0. p_pc s i = PAsleep) \<and> p_tasks s \<noteq> 0 \<and> p_sig s \<noteq> 0 \<and> \<not> p_fault s"
proof -
  let ?s = "pstate 1 True True None ((\<lambda>_. PTop)(0 := PAsleep)) 1 SActive"
  have a: "p_act ?s" "False \<or> p_alive ?s" "\<forall>i < Suc 0. p_pc ?s i = PAsleep" "p_tasks ?s \<noteq> 0" by (simp_all add: pstate_def)
  from submitted_task_not_forgotten [OF asleep_and_pushed a(1,2)] a(3,4) asleep_and_pushed show ?thesis by blast
qed

text \<open>The queue has been drained once, and the mutex with it.\<close>

lemma drained_state:
  assumes i: "0 < n"
  shows "preach False n (pstate 0 True False None (\<lambda>_. PTop) 1 SActive)"
proof -
  let ?idle = "\<lambda>_ :: nat. PTop"
  have "preach False n (pstate 1 True True None ?idle 1 SActive)"
    using to_push [OF pstate_start [of False n]] by simp
  then have r1: "preach False n (pstate 1 True True (Some 0) (?idle(0 := PTest)) 1 SActive)"
    by (rule to_test) (use i in simp_all)
  have "pstep False n (pstate 1 True True (Some 0) (?idle(0 := PTest)) 1 SActive)
      (pstate 1 True True (Some 0) (?idle(0 := PPop)) 1 SActive)"
    using p_some [OF i, of "pstate 1 True True (Some 0) (?idle(0 := PTest)) 1 SActive"] by (simp add: pstate_def)
  then have r2: "preach False n (pstate 1 True True (Some 0) (?idle(0 := PPop)) 1 SActive)" by (rule preach_step [OF r1])
  have "pstep False n (pstate 1 True True (Some 0) (?idle(0 := PPop)) 1 SActive)
      (pstate 0 True False None (?idle(0 := PRun)) 1 SActive)"
    using p_pop [OF i, of "pstate 1 True True (Some 0) (?idle(0 := PPop)) 1 SActive" False] by (simp add: pstate_def)
  then have r3: "preach False n (pstate 0 True False None (?idle(0 := PRun)) 1 SActive)" by (rule preach_step [OF r2])
  have "pstep False n (pstate 0 True False None (?idle(0 := PRun)) 1 SActive) (pstate 0 True False None (?idle(0 := PTop)) 1 SActive)"
    using p_run [OF i, of "pstate 0 True False None (?idle(0 := PRun)) 1 SActive"] by (simp add: pstate_def)
  then have "preach False n (pstate 0 True False None (?idle(0 := PTop)) 1 SActive)" by (rule preach_step [OF r3])
  moreover have "?idle(0 := PTop) = ?idle" by auto
  ultimately show ?thesis by (simp only:)
qed

text \<open>After that, without such a library: two workers that nothing excludes see the same last task;
  one pops it, the other pops nothing and copies its task from a null pointer.\<close>

theorem drained_pool_pops_nothing:
  assumes "1 < n"
  shows "\<exists>s. preach False n s \<and> p_act s \<and> p_fault s"
proof -
  have i: "0 < n" "1 < n" using assms by simp_all
  let ?idle = "\<lambda>_. PTop" and ?both = "((\<lambda>_. PTop)(0 := PPop))(1 := PPop)"
  have "preach False n (pstate 1 True False None ?idle 2 SActive)"
    using to_push [OF drained_state [OF i(1)]] by (simp add: numeral_2_eq_2)
  then have "preach False n (pstate 1 True False None (?idle(0 := PPop)) 2 SActive)"
    using to_pop_unlocked [of False n 0 None ?idle 2 0] i by simp
  then have r4: "preach False n (pstate 1 True False None ?both 2 SActive)"
    using to_pop_unlocked [of False n 0 None "?idle(0 := PPop)" 2 1] i by simp
  have "pstep False n (pstate 1 True False None ?both 2 SActive) (pstate 0 True False None (?both(0 := PRun)) 2 SActive)"
    using p_pop [OF i(1), of "pstate 1 True False None ?both 2 SActive" False] by (simp add: pstate_def)
  then have r5: "preach False n (pstate 0 True False None (?both(0 := PRun)) 2 SActive)" by (rule preach_step [OF r4])
  let ?s = "pstate 0 True False None (?both(0 := PRun)) 2 SActive"
  have "pstep False n ?s (?s\<lparr>p_pc := (p_pc ?s)(1 := PRun), p_alive := p_alive ?s \<and> (p_tasks ?s = 1 \<longrightarrow> False),
      p_held := None, p_tasks := p_tasks ?s - 1, p_fault := p_fault ?s \<or> p_tasks ?s = 0\<rparr>)"
    by (rule p_pop [OF i(2)]) (simp add: pstate_def)
  from preach_step [OF r5 this] show ?thesis by (intro exI conjI) (assumption, simp_all add: pstate_def)
qed

theorem drained_pool_pops_nothing_witness: "\<exists>s. preach False 2 s \<and> p_act s \<and> p_fault s"
  using drained_pool_pops_nothing [of 2] by simp

text \<open>The first worker sleeps, \<open>k\<close> of the others have left their loops.\<close>

definition left_behind :: "nat \<Rightarrow> psys" where
  "left_behind k = pstate 0 False False None (\<lambda>i. if i = 0 then PAsleep else if i < k then PExit else PTop) 0 SJoining"

lemma left_behind_reach:
  assumes "0 < n"
  shows "0 < k \<Longrightarrow> k \<le> n \<Longrightarrow> preach busy n (left_behind k)"
proof (induction k)
  case (Suc k)
  show ?case
  proof (cases "k = 0")
    case True
    let ?w = "(\<lambda>_. PTop)(0 := PWait)" and ?z = "(\<lambda>_. PTop)(0 := PAsleep)"
    let ?s = "pstate 0 True True (Some 0) ((\<lambda>_. PTop)(0 := PTest)) 0 SActive"
      and ?a = "pstate 0 True True (Some 0) ?w 0 SActive" and ?b = "pstate 0 False True (Some 0) ?w 0 SStored"
      and ?c = "pstate 0 False True (Some 0) ?w 0 SCasted" and ?d = "pstate 0 False True None ?z 0 SCasted"
    have r: "preach busy n ?s" by (rule to_test [OF pstate_start]) (use assms in simp_all)
    have "pstep busy n ?s ?a" using p_block [OF assms, of ?s] by (simp add: pstate_def)
    then have a: "preach busy n ?a" by (rule preach_step [OF r])
    have "pstep busy n ?a ?b" using f_store [of ?a] by (simp add: pstate_def)
    then have b: "preach busy n ?b" by (rule preach_step [OF a])
    have "?b\<lparr>p_pc := (\<lambda>i. if p_pc ?b i = PAsleep then PWoken else p_pc ?b i), p_stop := SCasted\<rparr> = ?c"
      by (simp add: pstate_def fun_eq_iff)
    then have "pstep busy n ?b ?c" using f_cast [of ?b busy n] by (simp add: pstate_def)
    then have c: "preach busy n ?c" by (rule preach_step [OF b])
    have "pstep busy n ?c ?d" using p_wait [OF assms, of ?c] by (simp add: pstate_def)
    then have d: "preach busy n ?d" by (rule preach_step [OF c])
    have "pstep busy n ?d (pstate 0 False False None ?z 0 SJoining)" using f_queue [of ?d] by (simp add: pstate_def)
    moreover have "?z = (\<lambda>i. if i = 0 then PAsleep else if i < Suc k then PExit else PTop)"
      using True by (simp add: fun_eq_iff)
    ultimately show ?thesis unfolding left_behind_def using preach_step [OF d] by simp
  next
    case False
    then have r: "preach busy n (left_behind k)" and k: "k < n" using Suc by simp_all
    have "pstep busy n (left_behind k) ((left_behind k)\<lparr>p_pc := (p_pc (left_behind k))(k := PExit)\<rparr>)"
      using p_top [OF k, of "left_behind k"] False by (simp add: left_behind_def pstate_def)
    moreover have "(left_behind k)\<lparr>p_pc := (p_pc (left_behind k))(k := PExit)\<rparr> = left_behind (Suc k)"
      using False by (auto simp: left_behind_def pstate_def fun_eq_iff)
    ultimately show ?thesis using preach_step [OF r] by simp
  qed
qed simp

text \<open>\<open>pool_free\<close> can wait for ever, whatever the C library: a worker that has found the queue empty and
  the pool active goes to sleep after the only broadcast, and nothing wakes it, so that \<open>thrd_join\<close>
  does not return.\<close>

theorem pool_free_hangs:
  assumes "0 < n"
  shows "\<exists>s. preach busy n s \<and> p_stop s = SJoining \<and> p_pc s 0 = PAsleep \<and> (\<forall>t. \<not> pstep busy n s t)"
proof (intro exI conjI allI)
  show "preach busy n (left_behind n)" by (rule left_behind_reach [OF assms assms order_refl])
  show "p_stop (left_behind n) = SJoining" "p_pc (left_behind n) 0 = PAsleep"
    by (simp_all add: left_behind_def pstate_def)
  show "\<not> pstep busy n (left_behind n) t" for t
    using assms by (auto simp: left_behind_def pstate_def elim!: pstep.cases split: if_splits)
qed

theorem pool_free_hangs_witness:
  "\<exists>s. preach True 2 s \<and> p_stop s = SJoining \<and> (\<forall>t. \<not> pstep True 2 s t)"
  using pool_free_hangs [of 2 True] by auto

end
