(* ===== verification/GatherSteps.thy ===== *)
theory GatherSteps
  imports PoolSteps
begin

text \<open>
  \<open>await\<close> and \<open>asyncio_gather\<close> against the workers that finish their futures, action by
  action; the values that the workers store are those of theory Asyncio.
\<close>

subsection \<open>Awaiting one future\<close>

text \<open>The worker of \<open>__thr_work\<close> behind \<open>working_f\<close>.\<close>

datatype fpc = FRun | FSignal | FShared | FDone

text \<open>The thread in \<open>await\<close>; \<open>ATest\<close>, \<open>AWait\<close> and \<open>AUnlock\<close> hold \<open>cond_mtx\<close>.\<close>

datatype apc = ALock | ATest | AWait | AAsleep | AWoken | AUnlock | ACopy | AFreed

record fsys =
  f_ready :: bool
  f_out :: bool        \<comment> \<open>\<open>working_f\<close> has filled \<open>out_block\<close>\<close>
  f_pc :: fpc
  a_pc :: apc

definition fsys_init :: "fsys \<Rightarrow> bool" where
  "fsys_init s \<longleftrightarrow> \<not> f_ready s \<and> \<not> f_out s \<and> f_pc s = FRun \<and> a_pc s = ALock"

inductive fstep :: "fsys \<Rightarrow> fsys \<Rightarrow> bool" where
  f_work: "f_pc s = FRun \<Longrightarrow> \<not> f_out s \<Longrightarrow> fstep s (s\<lparr>f_out := True\<rparr>)"
| f_ready: "f_pc s = FRun \<Longrightarrow> f_out s \<Longrightarrow> fstep s (s\<lparr>f_ready := True, f_pc := FSignal\<rparr>)"
| f_signal: "f_pc s = FSignal \<Longrightarrow>
     fstep s (s\<lparr>f_pc := FShared, a_pc := (if a_pc s = AAsleep then AWoken else a_pc s)\<rparr>)"
| f_shared: "f_pc s = FShared \<Longrightarrow> fstep s (s\<lparr>f_pc := FDone\<rparr>)"
| a_lock: "a_pc s = ALock \<or> a_pc s = AWoken \<Longrightarrow> fstep s (s\<lparr>a_pc := ATest\<rparr>)"
| a_test: "a_pc s = ATest \<Longrightarrow> fstep s (s\<lparr>a_pc := if f_ready s then AUnlock else AWait\<rparr>)"
| a_wait: "a_pc s = AWait \<Longrightarrow> fstep s (s\<lparr>a_pc := AAsleep\<rparr>)"
| a_unlock: "a_pc s = AUnlock \<Longrightarrow> fstep s (s\<lparr>a_pc := ACopy\<rparr>)"
| a_copy: "a_pc s = ACopy \<Longrightarrow> fstep s (s\<lparr>a_pc := AFreed\<rparr>)"

definition fsys_inv :: "fsys \<Rightarrow> bool" where
  "fsys_inv s \<longleftrightarrow> (f_ready s \<longrightarrow> f_out s) \<and> (f_ready s \<longleftrightarrow> f_pc s \<noteq> FRun)
     \<and> (a_pc s \<in> {AUnlock, ACopy, AFreed} \<longrightarrow> f_ready s)
     \<and> (a_pc s = AAsleep \<longrightarrow> f_pc s = FRun \<or> f_pc s = FSignal \<or> f_ready s)"

interpretation fu: invariant_of fsys_init fstep fsys_inv
proof
  show "fsys_inv s" if "fsys_init s" for s using that by (simp add: fsys_init_def fsys_inv_def)
  show "fsys_inv t" if "fsys_inv s" and "fstep s t" for s t
    using that(2,1) by (induction rule: fstep.induct) (auto simp: fsys_inv_def split: if_splits)
qed

definition fstate :: "bool \<Rightarrow> bool \<Rightarrow> fpc \<Rightarrow> apc \<Rightarrow> fsys" where
  "fstate r out f a = \<lparr>f_ready = r, f_out = out, f_pc = f, a_pc = a\<rparr>"

lemma fstate_run: "reach fsys_init fstep (fstate True True FSignal ALock)"
proof -
  have r0: "reach fsys_init fstep (fstate False False FRun ALock)"
    by (rule reach_init) (simp add: fsys_init_def fstate_def)
  have s1: "fstep (fstate False False FRun ALock) (fstate False True FRun ALock)"
    using f_work [of "fstate False False FRun ALock"] by (simp add: fstate_def)
  have s2: "fstep (fstate False True FRun ALock) (fstate True True FSignal ALock)"
    using f_ready [of "fstate False True FRun ALock"] by (simp add: fstate_def)
  show ?thesis by (rule reach_step [OF reach_step [OF r0 s1] s2])
qed

text \<open>\<open>await\<close> copies the result of the coroutine, never an unfinished one, but it can release the
  future while the worker has still to signal it: the worker then signals a condition variable that
  has been destroyed.\<close>

theorem await_releases_in_use:
  shows "(\<forall>s. reach fsys_init fstep s \<longrightarrow> a_pc s \<in> {ACopy, AFreed} \<longrightarrow> f_out s)
     \<and> (\<exists>s. reach fsys_init fstep s \<and> a_pc s = AFreed \<and> f_pc s = FSignal)"
proof (intro conjI allI impI)
  show "f_out s" if "reach fsys_init fstep s" "a_pc s \<in> {ACopy, AFreed}" for s
    using fu.reach_inv [OF that(1)] that(2) by (auto simp: fsys_inv_def)
  let ?t = "\<lambda>a. fstate True True FSignal a"
  have s1: "fstep (?t ALock) (?t ATest)" using a_lock [of "?t ALock"] by (simp add: fstate_def)
  have s2: "fstep (?t ATest) (?t AUnlock)" using a_test [of "?t ATest"] by (simp add: fstate_def)
  have s3: "fstep (?t AUnlock) (?t ACopy)" using a_unlock [of "?t AUnlock"] by (simp add: fstate_def)
  have s4: "fstep (?t ACopy) (?t AFreed)" using a_copy [of "?t ACopy"] by (simp add: fstate_def)
  have "reach fsys_init fstep (?t AFreed)"
    by (rule reach_step [OF reach_step [OF reach_step [OF reach_step [OF fstate_run s1] s2] s3] s4])
  then show "\<exists>s. reach fsys_init fstep s \<and> a_pc s = AFreed \<and> f_pc s = FSignal"
    by (rule exI_conj) (simp add: fstate_def)
qed

theorem await_releases_in_use_witness:
  "f_out (fstate True True FSignal ACopy) \<and> (\<exists>s. reach fsys_init fstep s \<and> a_pc s = AFreed \<and> f_pc s = FSignal)"
  using await_releases_in_use by (simp add: fstate_def)

text \<open>\<open>await\<close> can wait for ever on a coroutine that has finished: the worker stores
  \<open>is_ready\<close> and signals without the mutex, so both fit between the test and \<open>cnd_wait\<close> of the
  awaiting thread, and nobody signals again.\<close>

theorem await_loses_wakeup:
  shows "\<exists>s. reach fsys_init fstep s \<and> f_ready s \<and> f_pc s = FDone \<and> a_pc s = AAsleep \<and> (\<forall>t. \<not> fstep s t)"
proof -
  let ?w = "\<lambda>r out f. fstate r out f AWait"
  have r: "reach fsys_init fstep (fstate False False FRun ALock)"
    by (rule reach_init) (simp add: fsys_init_def fstate_def)
  have s1: "fstep (fstate False False FRun ALock) (fstate False False FRun ATest)"
    using a_lock [of "fstate False False FRun ALock"] by (simp add: fstate_def)
  have s2: "fstep (fstate False False FRun ATest) (?w False False FRun)"
    using a_test [of "fstate False False FRun ATest"] by (simp add: fstate_def)
  have s3: "fstep (?w False False FRun) (?w False True FRun)"
    using f_work [of "?w False False FRun"] by (simp add: fstate_def)
  have s4: "fstep (?w False True FRun) (?w True True FSignal)"
    using f_ready [of "?w False True FRun"] by (simp add: fstate_def)
  have s5: "fstep (?w True True FSignal) (?w True True FShared)"
    using f_signal [of "?w True True FSignal"] by (simp add: fstate_def)
  have s6: "fstep (?w True True FShared) (?w True True FDone)"
    using f_shared [of "?w True True FShared"] by (simp add: fstate_def)
  have s7: "fstep (?w True True FDone) (fstate True True FDone AAsleep)"
    using a_wait [of "?w True True FDone"] by (simp add: fstate_def)
  have "reach fsys_init fstep (fstate True True FDone AAsleep)"
    by (rule reach_step [OF reach_step [OF reach_step [OF reach_step [OF reach_step [OF reach_step [OF
        reach_step [OF r s1] s2] s3] s4] s5] s6] s7])
  then show ?thesis
  proof (rule exI_conj, intro conjI allI)
    show "\<not> fstep (fstate True True FDone AAsleep) t" for t by (auto simp: fstate_def elim: fstep.cases)
  qed (simp_all add: fstate_def)
qed

subsection \<open>Gathering several\<close>

text \<open>A worker behind \<open>is_ready\<close> and its signal; \<open>GCast\<close> and \<open>GUnlock\<close> hold \<open>mutex\<close>.\<close>

datatype gpc = GRun | GTest | GCount | GLock | GCast | GUnlock | GOut

text \<open>
  The gathering thread: \<open>MShare i k\<close> is about to write the \<open>k\<close>-th of the four pointers of
  future \<open>i\<close> (mutex, \<open>done\<close>, \<open>is_ready\<close>, condition variable); \<open>MTest\<close>, \<open>MWait\<close> and
  \<open>MUnlock\<close> hold \<open>mutex\<close>; \<open>MGone\<close> has destroyed its locals.
\<close>

datatype mpc = MShare nat nat | MLock | MTest | MWait | MAsleep | MWoken | MUnlock | MGone

record gsys =
  g_ptrs :: "nat \<Rightarrow> nat"       \<comment> \<open>pointers written to each future\<close>
  g_done :: nat
  g_held :: "nat option option"  \<comment> \<open>\<open>Some None\<close>: held by the gathering thread\<close>
  g_pc :: "nat \<Rightarrow> gpc"
  m_pc :: mpc

definition gsys_init :: "gsys \<Rightarrow> bool" where
  "gsys_init s \<longleftrightarrow> (\<forall>i. g_ptrs s i = 0) \<and> g_done s = 0 \<and> g_held s = None \<and> (\<forall>i. g_pc s i = GRun)
     \<and> m_pc s = MShare 0 0"

inductive gstep :: "nat \<Rightarrow> gsys \<Rightarrow> gsys \<Rightarrow> bool" for n where
  m_share: "m_pc s = MShare i k \<Longrightarrow> i < n \<Longrightarrow> k < 4 \<Longrightarrow>
     gstep n s (s\<lparr>g_ptrs := (g_ptrs s)(i := Suc k),
       m_pc := if k < 3 then MShare i (Suc k) else MShare (Suc i) 0\<rparr>)"
| m_shared: "m_pc s = MShare n 0 \<Longrightarrow> gstep n s (s\<lparr>m_pc := MLock\<rparr>)"
| m_lock: "m_pc s = MLock \<or> m_pc s = MWoken \<Longrightarrow> g_held s = None \<Longrightarrow>
     gstep n s (s\<lparr>m_pc := MTest, g_held := Some None\<rparr>)"
| m_test: "m_pc s = MTest \<Longrightarrow> gstep n s (s\<lparr>m_pc := if g_done s < n then MWait else MUnlock\<rparr>)"
| m_wait: "m_pc s = MWait \<Longrightarrow> gstep n s (s\<lparr>m_pc := MAsleep, g_held := None\<rparr>)"
| m_unlock: "m_pc s = MUnlock \<Longrightarrow> gstep n s (s\<lparr>m_pc := MGone, g_held := None\<rparr>)"
| g_run: "i < n \<Longrightarrow> g_pc s i = GRun \<Longrightarrow> gstep n s (s\<lparr>g_pc := (g_pc s)(i := GTest)\<rparr>)"
| g_test: "i < n \<Longrightarrow> g_pc s i = GTest \<Longrightarrow>
     gstep n s (s\<lparr>g_pc := (g_pc s)(i := if 3 \<le> g_ptrs s i then GCount else GOut)\<rparr>)"
| g_count: "i < n \<Longrightarrow> g_pc s i = GCount \<Longrightarrow>
     gstep n s (s\<lparr>g_pc := (g_pc s)(i := GLock), g_done := Suc (g_done s)\<rparr>)"
| g_lock: "i < n \<Longrightarrow> g_pc s i = GLock \<Longrightarrow> g_held s = None \<Longrightarrow>
     gstep n s (s\<lparr>g_pc := (g_pc s)(i := GCast), g_held := Some (Some i)\<rparr>)"
| g_cast: "i < n \<Longrightarrow> g_pc s i = GCast \<Longrightarrow> g_ptrs s i = 4 \<Longrightarrow>
     gstep n s (s\<lparr>g_pc := (g_pc s)(i := GUnlock), m_pc := (if m_pc s = MAsleep then MWoken else m_pc s)\<rparr>)"
| g_unlock: "i < n \<Longrightarrow> g_pc s i = GUnlock \<Longrightarrow>
     gstep n s (s\<lparr>g_pc := (g_pc s)(i := GOut), g_held := None\<rparr>)"

text \<open>
  Whoever counts the last future has still to broadcast while the gathering thread is about to
  sleep or asleep, so that wake-up is not lost.
\<close>

definition gsys_at :: "gsys \<Rightarrow> nat \<Rightarrow> bool" where
  "gsys_at s i \<longleftrightarrow> (g_pc s i = GCast \<or> g_pc s i = GUnlock \<longleftrightarrow> g_held s = Some (Some i))
     \<and> (m_pc s = MTest \<or> m_pc s = MWait \<or> m_pc s = MUnlock \<longleftrightarrow> g_held s = Some None)"

definition casts :: "nat \<Rightarrow> gsys \<Rightarrow> bool" where
  "casts n s \<longleftrightarrow> (\<exists>i < n. g_pc s i = GLock \<or> g_pc s i = GCast)"

definition gsys_inv :: "nat \<Rightarrow> gsys \<Rightarrow> bool" where
  "gsys_inv n s \<longleftrightarrow> (\<forall>i. gsys_at s i)
     \<and> (m_pc s = MWait \<or> m_pc s = MAsleep \<longrightarrow> n \<le> g_done s \<longrightarrow> casts n s)
     \<and> (m_pc s = MUnlock \<or> m_pc s = MGone \<longrightarrow> n \<le> g_done s)"

lemma gsys_at_next:
  assumes "gstep n s t" and at: "\<And>i. gsys_at s i"
  shows "gsys_at t j"
  using assms(1)
proof cases
  case (g_run i)
  then show ?thesis using at [of i] at [of j] by (auto simp: gsys_at_def)
next
  case (g_test i)
  then show ?thesis using at [of i] at [of j] by (auto simp: gsys_at_def)
next
  case (g_count i)
  then show ?thesis using at [of i] at [of j] by (auto simp: gsys_at_def)
next
  case (g_lock i)
  then show ?thesis using at [of i] at [of j] by (auto simp: gsys_at_def)
next
  case (g_cast i)
  then show ?thesis using at [of i] at [of j] by (auto simp: gsys_at_def)
next
  case (g_unlock i)
  then show ?thesis using at [of i] at [of j] by (auto simp: gsys_at_def)
qed (use at [of j] in \<open>auto simp: gsys_at_def split: if_splits\<close>)

lemma casts_move:
  "casts n s \<Longrightarrow> i < n \<Longrightarrow> (g_pc s i = GLock \<or> g_pc s i = GCast \<longrightarrow> x = GLock \<or> x = GCast)
    \<Longrightarrow> casts n (s\<lparr>g_pc := (g_pc s)(i := x)\<rparr>)"
  by (auto simp: casts_def)

lemma casts_other [simp]:
  "casts n (s\<lparr>g_ptrs := a\<rparr>) = casts n s" "casts n (s\<lparr>g_done := b\<rparr>) = casts n s"
  "casts n (s\<lparr>g_held := c\<rparr>) = casts n s" "casts n (s\<lparr>m_pc := d\<rparr>) = casts n s"
  by (simp_all add: casts_def)

lemma gsys_cast_next:
  assumes "gstep n s t" and inv: "gsys_inv n s"
    and asleep: "m_pc t = MWait \<or> m_pc t = MAsleep" and "n \<le> g_done t"
  shows "casts n t"
proof -
  have at: "gsys_at s i" for i using inv by (simp add: gsys_inv_def)
  have c: "casts n s" if "m_pc s = MWait \<or> m_pc s = MAsleep" "n \<le> g_done s" using inv that by (simp add: gsys_inv_def)
  show ?thesis using assms(1)
  proof cases
    case (g_run i)
    then show ?thesis using c asleep assms(4) by (auto intro: casts_move)
  next
    case (g_test i)
    then show ?thesis using c asleep assms(4) by (auto intro: casts_move)
  next
    case (g_count i)
    then show ?thesis by (auto simp: casts_def)
  next
    case (g_lock i)
    then show ?thesis by (auto simp: casts_def)
  next
    case (g_cast i)
    then show ?thesis using asleep at [of i] by (auto simp: gsys_at_def split: if_splits)
  next
    case (g_unlock i)
    then show ?thesis using c asleep assms(4) casts_move [of n s i GOut] by (auto simp: casts_def)
  qed (use c asleep assms(4) in \<open>auto split: if_splits\<close>)
qed

lemma gsys_inv_next:
  assumes "gstep n s t" and inv: "gsys_inv n s"
  shows "gsys_inv n t"
proof -
  have "m_pc t = MUnlock \<or> m_pc t = MGone \<Longrightarrow> n \<le> g_done t"
    using assms(1) inv by cases (auto simp: gsys_inv_def split: if_splits)
  moreover have "gsys_at t j" for j by (rule gsys_at_next [OF assms(1)]) (use inv in \<open>simp add: gsys_inv_def\<close>)
  ultimately show ?thesis using gsys_cast_next [OF assms] by (simp add: gsys_inv_def)
qed

lemma gsys_inv_init: "gsys_init s \<Longrightarrow> gsys_inv n s"
  by (auto simp: gsys_init_def gsys_inv_def gsys_at_def)

interpretation ga: invariant_of gsys_init "gstep n" "gsys_inv n" for n
  by unfold_locales (fact gsys_inv_init, rule gsys_inv_next)

abbreviation greach :: "nat \<Rightarrow> gsys \<Rightarrow> bool" where
  "greach n \<equiv> reach gsys_init (gstep n)"

lemma greach_step: "greach n s \<Longrightarrow> gstep n s t \<Longrightarrow> greach n t"
  by (rule reach_step)

definition gstate :: "(nat \<Rightarrow> nat) \<Rightarrow> nat \<Rightarrow> nat option option \<Rightarrow> (nat \<Rightarrow> gpc) \<Rightarrow> mpc \<Rightarrow> gsys" where
  "gstate ptrs dn h pc m = \<lparr>g_ptrs = ptrs, g_done = dn, g_held = h, g_pc = pc, m_pc = m\<rparr>"

text \<open>Registering: \<open>k\<close> pointers of future \<open>i\<close>, and all of those before it.\<close>

definition ptrs_to :: "nat \<Rightarrow> nat \<Rightarrow> nat \<Rightarrow> nat" where
  "ptrs_to i k j = (if j < i then 4 else if j = i then k else 0)"

lemma share_steps:
  "i < n \<Longrightarrow> k \<le> 3 \<Longrightarrow> greach n (gstate (ptrs_to i 0) 0 None (\<lambda>_. GRun) (MShare i 0))
   \<Longrightarrow> greach n (gstate (ptrs_to i k) 0 None (\<lambda>_. GRun) (MShare i k))"
proof (induction k)
  case (Suc k)
  let ?s = "gstate (ptrs_to i k) 0 None (\<lambda>_. GRun) (MShare i k)"
  have "gstep n ?s (?s\<lparr>g_ptrs := (g_ptrs ?s)(i := Suc k), m_pc := if k < 3 then MShare i (Suc k) else MShare (Suc i) 0\<rparr>)"
    by (rule m_share) (use Suc.prems in \<open>simp_all add: gstate_def\<close>)
  moreover have "(ptrs_to i k)(i := Suc k) = ptrs_to i (Suc k)" by (auto simp: ptrs_to_def fun_eq_iff)
  ultimately have "gstep n ?s (gstate (ptrs_to i (Suc k)) 0 None (\<lambda>_. GRun) (MShare i (Suc k)))"
    using Suc.prems by (simp add: gstate_def)
  moreover have "greach n ?s" using Suc by simp
  ultimately show ?case using greach_step by blast
qed simp

lemma shared_all:
  "i \<le> n \<Longrightarrow> greach n (gstate (ptrs_to i 0) 0 None (\<lambda>_. GRun) (MShare i 0))"
proof (induction i)
  case 0
  show ?case by (rule reach_init) (simp add: gsys_init_def gstate_def ptrs_to_def)
next
  case (Suc i)
  then have "greach n (gstate (ptrs_to i 3) 0 None (\<lambda>_. GRun) (MShare i 3))"
    using share_steps [of i n 3] by simp
  moreover have "gstep n (gstate (ptrs_to i 3) 0 None (\<lambda>_. GRun) (MShare i 3))
      (gstate ((ptrs_to i 3)(i := 4)) 0 None (\<lambda>_. GRun) (MShare (Suc i) 0))"
    using m_share [of "gstate (ptrs_to i 3) 0 None (\<lambda>_. GRun) (MShare i 3)" i 3 n] Suc.prems
    by (simp add: gstate_def)
  moreover have "(ptrs_to i 3)(i := 4) = ptrs_to (Suc i) 0" by (auto simp: ptrs_to_def fun_eq_iff)
  ultimately show ?case using greach_step by metis
qed

text \<open>A worker that finishes a registered future, up to its \<open>mtx_lock\<close>.\<close>

lemma worker_counts:
  assumes r: "greach n (gstate ptrs dn h pc m)" and i: "i < n" "pc i = GRun" "3 \<le> ptrs i"
  shows "greach n (gstate ptrs (Suc dn) h (pc(i := GLock)) m)"
proof -
  let ?s = "gstate ptrs dn h pc m" and ?a = "gstate ptrs dn h (pc(i := GTest)) m"
    and ?b = "gstate ptrs dn h (pc(i := GCount)) m"
  have "gstep n ?s ?a" using g_run [OF i(1), of ?s] i(2) by (simp add: gstate_def)
  then have ra: "greach n ?a" by (rule greach_step [OF r])
  have "gstep n ?a ?b" using g_test [OF i(1), of ?a] i(3) by (simp add: gstate_def)
  then have rb: "greach n ?b" by (rule greach_step [OF ra])
  have "gstep n ?b (gstate ptrs (Suc dn) h (pc(i := GLock)) m)"
    using g_count [OF i(1), of ?b] by (simp add: gstate_def)
  then show ?thesis by (rule greach_step [OF rb])
qed

lemma workers_count:
  assumes r: "greach n (gstate ptrs 0 h (\<lambda>_. GRun) m)" and p: "\<forall>i < n. 3 \<le> ptrs i"
  shows "k \<le> n \<Longrightarrow> greach n (gstate ptrs k h (\<lambda>i. if i < k then GLock else GRun) m)"
proof (induction k)
  case 0
  then show ?case using r by simp
next
  case (Suc k)
  have "(\<lambda>i. if i < k then GLock else GRun)(k := GLock) = (\<lambda>i. if i < Suc k then GLock else GRun)"
    by (auto simp: fun_eq_iff)
  moreover have "greach n (gstate ptrs (Suc k) h ((\<lambda>i. if i < k then GLock else GRun)(k := GLock)) m)"
    by (rule worker_counts) (use Suc p in simp_all)
  ultimately show ?case by simp
qed

subsection \<open>Properties of gathering\<close>

text \<open>C27: once every future has counted itself, a gathering thread that sleeps will be woken: a worker
  has still to broadcast; and it goes on only when every future has counted itself.\<close>

theorem gather_wakeup_comes:
  assumes "greach n s"
  shows "(m_pc s = MAsleep \<and> n \<le> g_done s \<longrightarrow> (\<exists>i < n. g_pc s i \<in> {GLock, GCast}))
     \<and> (m_pc s = MGone \<longrightarrow> n \<le> g_done s)"
  using ga.reach_inv [OF assms] by (auto simp: gsys_inv_def casts_def)

text \<open>The counter is raised before the mutex is taken: \<open>asyncio_gather\<close> can return, its mutex
  and condition variable gone, while the workers that finished its futures have still to lock the
  one and to broadcast on the other.\<close>

theorem gather_returns_early:
  shows "\<exists>s. greach n s \<and> m_pc s = MGone \<and> (\<forall>i < n. g_pc s i = GLock)"
proof -
  have r0: "greach n (gstate (ptrs_to n 0) 0 None (\<lambda>_. GRun) (MShare n 0))" by (rule shared_all) simp
  have "gstep n (gstate (ptrs_to n 0) 0 None (\<lambda>_. GRun) (MShare n 0)) (gstate (ptrs_to n 0) 0 None (\<lambda>_. GRun) MLock)"
    using m_shared [of "gstate (ptrs_to n 0) 0 None (\<lambda>_. GRun) (MShare n 0)" n] by (simp add: gstate_def)
  then have r1: "greach n (gstate (ptrs_to n 0) 0 None (\<lambda>_. GRun) MLock)" by (rule greach_step [OF r0])
  let ?pc = "\<lambda>i. if i < n then GLock else GRun"
  let ?s = "\<lambda>h m. gstate (ptrs_to n 0) n h ?pc m"
  have r2: "greach n (?s None MLock)"
    by (rule workers_count [OF r1]) (simp_all add: ptrs_to_def)
  have "gstep n (?s None MLock) (?s (Some None) MTest)"
    using m_lock [of "?s None MLock" n] by (simp add: gstate_def)
  then have r3: "greach n (?s (Some None) MTest)" by (rule greach_step [OF r2])
  have "gstep n (?s (Some None) MTest) (?s (Some None) MUnlock)"
    using m_test [of "?s (Some None) MTest" n] by (simp add: gstate_def)
  then have r4: "greach n (?s (Some None) MUnlock)" by (rule greach_step [OF r3])
  have "gstep n (?s (Some None) MUnlock) (?s None MGone)"
    using m_unlock [of "?s (Some None) MUnlock" n] by (simp add: gstate_def)
  then have "greach n (?s None MGone)" by (rule greach_step [OF r4])
  then show ?thesis by (rule exI_conj) (simp add: gstate_def)
qed

theorem gather_wakeup_comes_witness:
  "\<exists>s. greach 2 s \<and> m_pc s = MGone \<and> 2 \<le> g_done s"
  using gather_wakeup_comes [of 2] gather_returns_early [of 2] by blast

text \<open>A future is registered pointer by pointer, and its worker looks at only one of the four: a
  worker that finishes just then counts itself and broadcasts on a null pointer.\<close>

theorem gather_broadcasts_null:
  assumes "0 < n"
  shows "\<exists>s. greach n s \<and> g_pc s 0 = GCast \<and> g_ptrs s 0 < 4"
proof -
  have r0: "greach n (gstate (ptrs_to 0 3) 0 None (\<lambda>_. GRun) (MShare 0 3))"
    using share_steps [of 0 n 3] shared_all [of 0 n] assms by simp
  let ?t = "gstate (ptrs_to 0 3) (Suc 0) None ((\<lambda>_. GRun)(0 := GLock)) (MShare 0 3)"
  have r1: "greach n ?t"
    by (rule worker_counts [OF r0 assms]) (simp_all add: ptrs_to_def)
  have "gstep n ?t (?t\<lparr>g_pc := (g_pc ?t)(0 := GCast), g_held := Some (Some 0)\<rparr>)"
    by (rule g_lock [OF assms]) (simp_all add: gstate_def)
  from greach_step [OF r1 this] show ?thesis by (rule exI_conj) (simp add: gstate_def ptrs_to_def)
qed

theorem gather_broadcasts_null_witness: "\<exists>s. greach 3 s \<and> g_pc s 0 = GCast \<and> g_ptrs s 0 < 4"
  using gather_broadcasts_null [of 3] by simp

end
