(* ===== verification/DArray.thy ===== *)
theory DArray
  imports CRuntime
begin

text \<open>
  The growable array of \<open>code/DCN/src/array.c\<close>.  Elements have one fixed size, so memory is
  counted in elements: the block is the list of the cells that are allocated, initialised or not,
  with \<open>None\<close> for a block that was freed under the array, and the first \<open>alen\<close> cells
  are the array's elements.  \<open>abase\<close> is the block's address, which \<open>array_index\<close> and
  \<open>array_in\<close> look at.  What \<open>realloc\<close> answers (an address, and the contents of the new
  cells) is an argument.
\<close>

record 'a darray =
  abase :: addr
  cells :: "'a list option"
  alen :: nat
  head :: nat
  el_size :: nat
  amtx :: mtx

definition ARRAY_HEAD_STEP :: nat where
  "ARRAY_HEAD_STEP = 10"

definition array_init :: "nat \<Rightarrow> 'a darray" where
  "array_init element =
     \<lparr>abase = 0, cells = Some [], alen = 0, head = 0, el_size = element, amtx = Mtx 0\<rparr>"

definition array_free :: "'a darray \<Rightarrow> 'a darray" where
  "array_free arr =
     arr\<lparr>abase := 0, cells := Some [], alen := 0, head := 0, amtx := MtxDestroyed\<rparr>"

definition array_size :: "'a darray \<Rightarrow> nat" where
  "array_size arr = alen arr"

text \<open>The address of an element; the boolean is the status of \<open>array_at\<close> (0 is \<open>True\<close>).\<close>

definition array_at :: "'a darray \<Rightarrow> nat \<Rightarrow> bool \<times> addr" where
  "array_at arr inx =
     (if inx \<ge> alen arr then (False, 0)
      else (True, abase arr + of_nat (inx * el_size arr)))"

text \<open>\<open>array_index\<close> answers \<open>SIZE_MAX\<close>, here \<open>None\<close>, when no element is at \<open>block\<close>.\<close>

definition array_index :: "'a darray \<Rightarrow> addr \<Rightarrow> nat option" where
  "array_index arr block = List.find (\<lambda>i. snd (array_at arr i) = block) [0..<alen arr]"

definition array_in :: "'a darray \<Rightarrow> addr \<Rightarrow> bool" where
  "array_in arr block = list_ex (\<lambda>i. snd (array_at arr i) = block) [0..<alen arr]"

text \<open>Resizing a block to \<open>n\<close> cells.\<close>

definition cell_realloc :: "'a list \<Rightarrow> nat \<Rightarrow> 'a list \<Rightarrow> 'a list" where
  "cell_realloc xs n junk = take n (xs @ junk)"

definition array_append ::
  "(addr \<times> 'a list) option \<Rightarrow> 'a darray \<Rightarrow> 'a \<Rightarrow> (int \<times> 'a darray) res" where
  "array_append ans arr x =
     (case cells arr of
        None \<Rightarrow> Inl UseAfterFree
      | Some cs \<Rightarrow>
          (if alen arr \<ge> head arr then
             (case ans of
                None \<Rightarrow> Inr (-1, arr)
              | Some (p, junk) \<Rightarrow>
                  (let cs = cell_realloc cs (head arr + ARRAY_HEAD_STEP) junk in
                   if alen arr < length cs
                   then Inr (0, arr\<lparr>abase := p, cells := Some (cs[alen arr := x]),
                                    head := head arr + ARRAY_HEAD_STEP, alen := alen arr + 1\<rparr>)
                   else Inl OutOfBounds))
           else if alen arr < length cs
           then Inr (0, arr\<lparr>cells := Some (cs[alen arr := x]), alen := alen arr + 1\<rparr>)
           else Inl OutOfBounds))"

text \<open>
  The \<open>memmove\<close> of \<open>array_del\<close>: the cells from \<open>inx + 1\<close> up to the length move one
  down.
\<close>

definition shift_cells :: "'a list \<Rightarrow> nat \<Rightarrow> nat \<Rightarrow> 'a list res" where
  "shift_cells cs inx len =
     (if inx < len - 1
      then if len \<le> length cs
           then Inr (take inx cs @ take (len - inx - 1) (drop (inx + 1) cs) @ drop (len - 1) cs)
           else Inl OutOfBounds
      else Inr cs)"

text \<open>
  \<open>array_del\<close>.  The shrinking \<open>realloc\<close> asks for one cell less than the elements that are
  left and does not record the new capacity; when it answers \<open>NULL\<close> the function returns with
  the mutex locked.  Asked for 0 bytes, \<open>realloc\<close> frees the block and answers \<open>NULL\<close>.
\<close>

definition array_del :: "addr option \<Rightarrow> 'a darray \<Rightarrow> nat \<Rightarrow> (bool \<times> 'a darray) res" where
  "array_del ans arr inx =
     (if inx \<ge> alen arr then Inr (False, arr)
      else case cells arr of
        None \<Rightarrow> Inl UseAfterFree
      | Some cs \<Rightarrow>
          (case shift_cells cs inx (alen arr) of
             Inl e \<Rightarrow> Inl e
           | Inr cs \<Rightarrow>
               (let arr = arr\<lparr>cells := Some cs, alen := alen arr - 1\<rparr> in
                if head arr - alen arr > ARRAY_HEAD_STEP * 2 \<and> alen arr > 0 then
                  (if (alen arr - 1) * el_size arr = 0
                   then Inr (False, arr\<lparr>cells := None, amtx := mtx_lock (amtx arr)\<rparr>)
                   else case ans of
                     None \<Rightarrow> Inr (False, arr\<lparr>amtx := mtx_lock (amtx arr)\<rparr>)
                   | Some p \<Rightarrow> Inr (True, arr\<lparr>abase := p, cells := Some (take (alen arr - 1) cs)\<rparr>))
                else Inr (True, arr))))"

definition array_copy_at :: "'a darray \<Rightarrow> nat \<Rightarrow> 'a option res" where
  "array_copy_at arr inx =
     (if inx \<ge> alen arr then Inr None
      else case cells arr of
        None \<Rightarrow> Inl UseAfterFree
      | Some cs \<Rightarrow> (if inx < length cs then Inr (Some (cs ! inx)) else Inl OutOfBounds))"

subsection \<open>The array as a list\<close>

text \<open>
  While no deletion shrinks the block, the array is the list of its elements.  Every cell up to
  \<open>head\<close> is allocated.
\<close>

definition array_inv :: "'a darray \<Rightarrow> bool" where
  "array_inv arr \<longleftrightarrow> alen arr \<le> head arr \<and> (\<exists>cs. cells arr = Some cs \<and> length cs = head arr)"

definition array_list :: "'a darray \<Rightarrow> 'a list" where
  "array_list arr = take (alen arr) (the (cells arr))"

definition list_del :: "nat \<Rightarrow> 'a list \<Rightarrow> 'a list" where
  "list_del i xs = take i xs @ drop (Suc i) xs"

lemma array_inv_init [simp, wf_intro]: "array_inv (array_init n)"
  by (simp add: array_inv_def array_init_def)

lemma array_list_init [simp]: "array_list (array_init n) = []"
  by (simp add: array_list_def array_init_def)

lemma length_array_list: "array_inv arr \<Longrightarrow> length (array_list arr) = alen arr"
  by (auto simp: array_inv_def array_list_def)

lemma array_append_step:
  assumes inv: "array_inv arr" and junk: "head arr = alen arr \<longrightarrow> length junk = ARRAY_HEAD_STEP"
  obtains arr' where "array_append (Some (p, junk)) arr x = Inr (0, arr')" "array_inv arr'"
    "array_list arr' = array_list arr @ [x]" "el_size arr' = el_size arr" "amtx arr' = amtx arr"
    "head arr' = (if alen arr = head arr then head arr + ARRAY_HEAD_STEP else head arr)"
proof -
  obtain cs where cs: "cells arr = Some cs" "length cs = head arr" and le: "alen arr \<le> head arr"
    using inv by (auto simp: array_inv_def)
  show thesis
  proof (cases "alen arr = head arr")
    case True
    with junk have j: "length junk = ARRAY_HEAD_STEP" by simp
    then have "0 < length junk" by (simp add: ARRAY_HEAD_STEP_def)
    then obtain y ys where ys: "junk = y # ys" by (cases junk) auto
    let ?arr = "arr\<lparr>abase := p, cells := Some ((cs @ junk)[alen arr := x]),
      head := head arr + ARRAY_HEAD_STEP, alen := alen arr + 1\<rparr>"
    have "array_append (Some (p, junk)) arr x = Inr (0, ?arr)"
      using True cs ys j by (simp add: array_append_def cell_realloc_def Let_def ARRAY_HEAD_STEP_def)
    moreover have "array_list ?arr = array_list arr @ [x]"
    proof -
      have l: "alen arr = length cs" using True cs by simp
      show ?thesis by (simp add: array_list_def cs(1) l ys)
    qed
    ultimately show thesis
      using True cs j by (intro that [of ?arr]) (simp_all add: array_inv_def ARRAY_HEAD_STEP_def)
  next
    case False
    let ?arr = "arr\<lparr>cells := Some (cs[alen arr := x]), alen := alen arr + 1\<rparr>"
    have "array_append (Some (p, junk)) arr x = Inr (0, ?arr)"
      using False cs le by (simp add: array_append_def)
    moreover have "array_list ?arr = array_list arr @ [x]"
      using False cs le by (simp add: array_list_def take_Suc_snoc take_update_cancel)
    ultimately show thesis
      using False cs le by (intro that [of ?arr]) (simp_all add: array_inv_def)
  qed
qed

lemma array_append_nomem:
  "array_inv arr \<Longrightarrow> alen arr = head arr \<Longrightarrow> array_append None arr x = Inr (-1, arr)"
  by (auto simp: array_inv_def array_append_def)

lemma take_list_del:
  "i < n \<Longrightarrow> n \<le> length xs \<Longrightarrow>
   list_del i (take n xs) = take i xs @ take (n - i - 1) (drop (i + 1) xs)"
  by (simp add: list_del_def min_def drop_take)

lemma take_exact: "length xs = n \<Longrightarrow> take n (xs @ ys) = xs"
  by simp

lemma length_list_del: "i < length xs \<Longrightarrow> length (list_del i xs) = length xs - 1"
  by (simp add: list_del_def min_def)

lemma shift_cells_del:
  assumes "len \<le> length cs" and "inx < len"
  obtains cs' where "shift_cells cs inx len = Inr cs'" "length cs' = length cs"
    "take (len - 1) cs' = list_del inx (take len cs)"
proof (cases "inx < len - 1")
  case True
  let ?cs = "take inx cs @ take (len - inx - 1) (drop (inx + 1) cs) @ drop (len - 1) cs"
  have "shift_cells cs inx len = Inr ?cs" and "length ?cs = length cs"
    using True assms by (simp add: shift_cells_def, simp)
  moreover have "take (len - 1) ?cs = list_del inx (take len cs)"
  proof -
    have "length (take inx cs @ take (len - inx - 1) (drop (inx + 1) cs)) = len - 1"
      using True assms by simp
    from take_exact [OF this, of "drop (len - 1) cs"] show ?thesis
      using assms by (simp only: take_list_del append_assoc)
  qed
  ultimately show thesis by (rule that)
next
  case False
  with assms have "inx = len - 1" by simp
  then have "shift_cells cs inx len = Inr cs" and "take (len - 1) cs = list_del inx (take len cs)"
    using assms by (simp_all add: shift_cells_def take_list_del)
  then show thesis using that by blast
qed

text \<open>A deletion that leaves at most \<open>2 * ARRAY_HEAD_STEP\<close> free cells.\<close>

lemma array_del_step:
  assumes inv: "array_inv arr" and i: "inx < alen arr"
    and slack: "head arr - (alen arr - 1) \<le> ARRAY_HEAD_STEP * 2 \<or> alen arr = 1"
  obtains arr' where "array_del ans arr inx = Inr (True, arr')" "array_inv arr'"
    "array_list arr' = list_del inx (array_list arr)" "amtx arr' = amtx arr" "head arr' = head arr"
proof -
  obtain cs where cs: "cells arr = Some cs" "length cs = head arr" and le: "alen arr \<le> head arr"
    using inv by (auto simp: array_inv_def)
  then obtain cs' where cs': "shift_cells cs inx (alen arr) = Inr cs'" "length cs' = head arr"
    "take (alen arr - 1) cs' = list_del inx (take (alen arr) cs)"
    using shift_cells_del [of "alen arr" cs inx] i by metis
  let ?arr = "arr\<lparr>cells := Some cs', alen := alen arr - 1\<rparr>"
  have "array_del ans arr inx = Inr (True, ?arr)"
    using slack i cs cs' by (auto simp: array_del_def Let_def)
  then show thesis
    using cs cs' le by (intro that [of ?arr]) (simp_all add: array_inv_def array_list_def)
qed

lemma array_del_out_of_range: "alen arr \<le> inx \<Longrightarrow> array_del ans arr inx = Inr (False, arr)"
  by (simp add: array_del_def)

lemma array_copy_at_list:
  "array_inv arr \<Longrightarrow> array_copy_at arr i =
     Inr (if i < length (array_list arr) then Some (array_list arr ! i) else None)"
  by (auto simp: array_inv_def array_copy_at_def array_list_def)

subsection \<open>The shrinking deletion\<close>

lemma array_del_shrinks:
  assumes inv: "array_inv arr" and i: "inx < alen arr"
    and slack: "ARRAY_HEAD_STEP * 2 < head arr - (alen arr - 1)" and two: "2 < alen arr"
    and el: "0 < el_size arr"
  obtains arr' where "array_del (Some p) arr inx = Inr (True, arr')" "alen arr' = alen arr - 1"
    "the (cells arr') = take (alen arr - 2) (list_del inx (array_list arr))"
    "cells arr' \<noteq> None" "length (the (cells arr')) = alen arr - 2"
proof -
  obtain cs where cs: "cells arr = Some cs" "length cs = head arr" and le: "alen arr \<le> head arr"
    using inv by (auto simp: array_inv_def)
  then obtain cs' where cs': "shift_cells cs inx (alen arr) = Inr cs'" "length cs' = head arr"
    "take (alen arr - 1) cs' = list_del inx (take (alen arr) cs)"
    using shift_cells_del [of "alen arr" cs inx] i by metis
  let ?arr = "arr\<lparr>cells := Some (take (alen arr - 2) cs'), alen := alen arr - 1, abase := p\<rparr>"
  have "length (take (alen arr - 2) cs') = alen arr - 2"
    using cs' le by simp
  moreover have "take (alen arr - 2) cs' = take (alen arr - 2) (list_del inx (array_list arr))"
    unfolding array_list_def cs option.sel cs'(3) [symmetric] by (simp add: min_def)
  moreover have "array_del (Some p) arr inx = Inr (True, ?arr)"
    using slack i cs cs' two el by (simp add: array_del_def Let_def numeral_2_eq_2)
  ultimately show thesis
    by (intro that [of ?arr]) simp_all
qed

lemma array_index_SomeD:
  assumes "array_index arr q = Some i"
  shows "i < alen arr \<and> q = abase arr + of_nat (i * el_size arr)"
proof -
  have "i \<in> set [0..<alen arr]" and "snd (array_at arr i) = q"
    using assms unfolding array_index_def find_Some_iff by (auto simp: nth_mem)
  then show ?thesis by (auto simp: array_at_def)
qed

lemma array_in_index: "array_in arr q \<longleftrightarrow> array_index arr q \<noteq> None"
  by (auto simp: array_in_def array_index_def find_None_iff list_ex_iff)

subsection \<open>Properties\<close>

text \<open>C22: while a deletion leaves at most \<open>2 * ARRAY_HEAD_STEP\<close> free cells, the array is the
  list of its elements: appending, deleting by index and reading do what they do on the list, and
  no access leaves the block.\<close>

theorem array_refines_list:
  assumes "array_inv arr"
    and "head arr = alen arr \<longrightarrow> length junk = ARRAY_HEAD_STEP"
  shows "(\<exists>arr'. array_append (Some (p, junk)) arr x = Inr (0, arr') \<and> array_inv arr'
      \<and> array_list arr' = array_list arr @ [x])
    \<and> (inx < alen arr \<longrightarrow> head arr - (alen arr - 1) \<le> ARRAY_HEAD_STEP * 2 \<longrightarrow>
      (\<exists>arr'. array_del ans arr inx = Inr (True, arr') \<and> array_inv arr'
        \<and> array_list arr' = list_del inx (array_list arr)))
    \<and> array_copy_at arr i =
      Inr (if i < length (array_list arr) then Some (array_list arr ! i) else None)"
proof (intro conjI)
  show "\<exists>arr'. array_append (Some (p, junk)) arr x = Inr (0, arr') \<and> array_inv arr'
      \<and> array_list arr' = array_list arr @ [x]"
    using array_append_step [OF assms] by metis
  show "inx < alen arr \<longrightarrow> head arr - (alen arr - 1) \<le> ARRAY_HEAD_STEP * 2 \<longrightarrow>
      (\<exists>arr'. array_del ans arr inx = Inr (True, arr') \<and> array_inv arr'
        \<and> array_list arr' = list_del inx (array_list arr))"
    using array_del_step [OF assms(1)] by metis
  show "array_copy_at arr i =
      Inr (if i < length (array_list arr) then Some (array_list arr ! i) else None)"
    by (rule array_copy_at_list [OF assms(1)])
qed

theorem array_refines_list_witness:
  "\<exists>arr'. array_append (Some (64, replicate 10 0)) (array_init 8) (5 :: int) = Inr (0, arr')
     \<and> array_list arr' = [5]"
  using array_refines_list [of "array_init 8" "replicate 10 0" 64 "5 :: int" 0 None 0]
  by (auto simp: ARRAY_HEAD_STEP_def)

text \<open>A deletion that leaves more free cells than that shrinks the block to one cell less
  than the elements left: the array still counts the last one, and reading it is out of bounds.\<close>

theorem shrink_loses_last:
  assumes "array_inv arr" and "inx < alen arr" and "2 < alen arr" and "0 < el_size arr"
    and "ARRAY_HEAD_STEP * 2 < head arr - (alen arr - 1)"
  shows "\<exists>arr'. array_del (Some p) arr inx = Inr (True, arr') \<and> alen arr' = alen arr - 1
     \<and> array_copy_at arr' (alen arr' - 1) = Inl OutOfBounds"
proof -
  obtain arr' where a: "array_del (Some p) arr inx = Inr (True, arr')" "alen arr' = alen arr - 1"
    "cells arr' \<noteq> None" "length (the (cells arr')) = alen arr - 2"
    by (rule array_del_shrinks [OF assms(1,2,5,3,4)])
  then have "array_copy_at arr' (alen arr' - 1) = Inl OutOfBounds"
    using assms(3) by (auto simp: array_copy_at_def)
  with a show ?thesis by blast
qed

definition sparse_array :: "int darray" where
  "sparse_array = \<lparr>abase = 64, cells = Some (replicate 30 7), alen = 9, head = 30, el_size = 8,
                   amtx = Mtx 0\<rparr>"

lemma sparse_array_simps [simp]:
  "alen sparse_array = 9" "head sparse_array = 30" "el_size sparse_array = 8"
  "amtx sparse_array = Mtx 0" "array_inv sparse_array"
  by (simp_all add: sparse_array_def array_inv_def)

theorem shrink_loses_last_witness:
  "\<exists>arr'. array_del (Some 64) sparse_array 0 = Inr (True, arr') \<and> alen arr' = 8
     \<and> array_copy_at arr' 7 = Inl OutOfBounds"
  using shrink_loses_last [of sparse_array 0 64] by (auto simp: ARRAY_HEAD_STEP_def)

text \<open>When that shrinking \<open>realloc\<close> fails, the deletion has happened, the call reports
  failure, and the mutex stays locked.\<close>

theorem failed_shrink_stays_locked:
  assumes "array_inv arr" and "inx < alen arr" and "2 < alen arr" and "0 < el_size arr"
    and "ARRAY_HEAD_STEP * 2 < head arr - (alen arr - 1)" and "amtx arr = Mtx n"
  shows "\<exists>arr'. array_del None arr inx = Inr (False, arr') \<and> alen arr' = alen arr - 1
     \<and> amtx arr' = Mtx (Suc n)"
proof -
  obtain cs where cs: "cells arr = Some cs" "length cs = head arr" and le: "alen arr \<le> head arr"
    using assms(1) by (auto simp: array_inv_def)
  obtain cs' where "shift_cells cs inx (alen arr) = Inr cs'"
    using shift_cells_del [of "alen arr" cs inx] le cs(2) assms(2) by metis
  then show ?thesis
    using assms cs by (simp add: array_del_def Let_def numeral_2_eq_2)
qed

theorem failed_shrink_stays_locked_witness:
  "\<exists>arr'. array_del None sparse_array 0 = Inr (False, arr') \<and> amtx arr' = Mtx 1"
  using failed_shrink_stays_locked [of sparse_array 0 0] by (auto simp: ARRAY_HEAD_STEP_def)

text \<open>\<open>array_index\<close> and \<open>array_in\<close> compare addresses, not elements: an object outside the
  array's block is never found, even when an equal element is stored.\<close>

theorem array_index_by_address:
  assumes "\<forall>i < alen arr. q \<noteq> abase arr + of_nat (i * el_size arr)"
  shows "array_index arr q = None \<and> \<not> array_in arr q"
proof -
  have "array_index arr q = None"
    using array_index_SomeD [of arr q] assms by (cases "array_index arr q") auto
  then show ?thesis by (simp add: array_in_index)
qed

theorem array_index_by_address_witness:
  "array_index sparse_array 4096 = None \<and> \<not> array_in sparse_array 4096"
proof (rule array_index_by_address)
  have "i \<in> set [0..<9] \<Longrightarrow> (4096 :: addr) \<noteq> 64 + of_nat (i * 8)" for i
    by (simp add: upt_rec) auto
  then show "\<forall>i < alen sparse_array. 4096 \<noteq> abase sparse_array + of_nat (i * el_size sparse_array)"
    by (simp add: sparse_array_def)
qed

end
