(* ===== verification/Logger.thy ===== *)
theory Logger
  imports DArray
begin

text \<open>
  The logger of \<open>code/DCN/src/logger.c\<close>: a stack of level names in a growable array and a stream
  on which equal messages in a row are collapsed.  One \<open>line\<close> is one \<open>fprintf\<close>; the thread
  number and the time of day that each carries are left out.  Messages are formatted already;
  \<open>None\<close> is a failing \<open>vasprintf\<close>.
\<close>

datatype LOG_TYPES = INFO | WARNING | ERROR | FATAL

datatype line =
    NewLine                        \<comment> \<open>\<open>"\n"\<close>\<close>
  | Full string string string      \<comment> \<open>type, level and message\<close>
  | Again nat string string string \<comment> \<open>\<open>"\r(%zu)..."\<close>\<close>
  | TooMany string string string   \<comment> \<open>\<open>"\r(99+)..."\<close>\<close>

datatype last_msg = NoMsg | Msg string | FreedMsg

record logger =
  levels :: "string option darray"
  logs_num :: size_t
  out_open :: bool               \<comment> \<open>\<open>output\<close> is not \<open>NULL\<close>\<close>
  out :: "line list"             \<comment> \<open>what has been written to it\<close>
  last_log :: last_msg
  log_active :: bool             \<comment> \<open>\<open>is_active\<close>\<close>

definition logger_init :: logger where
  "logger_init = \<lparr>levels = array_init 8, logs_num = 0, out_open = True, out = [], last_log = NoMsg, log_active = True\<rparr>"

definition logger_stop :: "logger \<Rightarrow> logger res" where
  "logger_stop log =
     (if last_log log = FreedMsg then Inl DoubleFree
      else Inr (log\<lparr>levels := array_free (levels log), out_open := False, logs_num := 0,
             last_log := (if last_log log = NoMsg then NoMsg else FreedMsg)\<rparr>))"

definition logger_act :: "logger \<Rightarrow> logger" where
  "logger_act log = log\<lparr>log_active := True\<rparr>"

definition logger_deact :: "logger \<Rightarrow> logger" where
  "logger_deact log = log\<lparr>log_active := False\<rparr>"

text \<open>The default case of the \<open>switch\<close>, for an integer outside the enumeration, has no counterpart.\<close>

fun strtype :: "LOG_TYPES \<Rightarrow> string" where
  "strtype INFO = ''INFO''"
| "strtype WARNING = ''WARN''"
| "strtype ERROR = ''ERROR''"
| "strtype FATAL = ''FATAL''"

text \<open>The level: the element behind the pointer that \<open>array_at\<close> gives.\<close>

definition current_level :: "string option darray \<Rightarrow> string res" where
  "current_level lv =
     (if array_size lv = 0 then Inr ''root''
      else case cells lv of
        None \<Rightarrow> Inl UseAfterFree
      | Some cs \<Rightarrow>
          (if array_size lv - 1 < length cs
           then Inr (case cs ! (array_size lv - 1) of None \<Rightarrow> ''undef'' | Some l \<Rightarrow> l)
           else Inl OutOfBounds))"

definition write_line :: "line \<Rightarrow> logger \<Rightarrow> logger res" where
  "write_line l log = (if out_open log then Inr (log\<lparr>out := out log @ [l]\<rparr>) else Inl NullAccess)"

definition dblog :: "LOG_TYPES \<Rightarrow> string option \<Rightarrow> logger \<Rightarrow> logger res" where
  "dblog type message log =
     (if \<not> log_active log then Inr log
      else bind_res (current_level (levels log)) (\<lambda>lvl.
        case message of
          None \<Rightarrow> Inr log
        | Some m \<Rightarrow>
            (if last_log log = FreedMsg then Inl UseAfterFree
             else if last_log log = Msg m then
               bind_res (write_line (if logs_num log \<le> 99 then Again (unat (logs_num log + 1)) (strtype type) lvl m
                                     else TooMany (strtype type) lvl m) log)
                 (\<lambda>log. Inr (log\<lparr>logs_num := logs_num log + 1\<rparr>))
             else
               bind_res (if logs_num log \<noteq> 0
                         then bind_res (write_line NewLine log) (\<lambda>log. Inr (log\<lparr>logs_num := 0\<rparr>)) else Inr log)
                 (\<lambda>log. bind_res (write_line (Full (strtype type) lvl m) log) (\<lambda>log. Inr (log\<lparr>last_log := Msg m\<rparr>))))))"

definition dblevel_push :: "(addr \<times> string option list) option \<Rightarrow> string \<Rightarrow> logger \<Rightarrow> logger res" where
  "dblevel_push ans level_name log =
     (if \<not> log_active log then Inr log
      else bind_res (array_append ans (levels log) (Some level_name)) (\<lambda>(_, lv).
        dblog INFO (Some ''new lvl'') (log\<lparr>levels := lv\<rparr>)))"

definition dblevel_pop :: "addr option \<Rightarrow> logger \<Rightarrow> logger res" where
  "dblevel_pop ans log =
     (if \<not> log_active log then Inr log
      else bind_res (array_del ans (levels log) (array_size (levels log) - 1)) (\<lambda>(ok, lv).
        if ok then dblog INFO (Some ''pop lvl'') (log\<lparr>levels := lv\<rparr>) else Inr (log\<lparr>levels := lv\<rparr>)))"

subsection \<open>Equal messages in a row\<close>

fun dblogs :: "LOG_TYPES \<Rightarrow> string list \<Rightarrow> logger \<Rightarrow> logger res" where
  "dblogs t [] log = Inr log"
| "dblogs t (m # ms) log = bind_res (dblog t (Some m) log) (dblogs t ms)"

lemma dblogs_snoc: "dblogs t (ms @ [m]) log = bind_res (dblogs t ms log) (dblog t (Some m))"
  by (induction ms arbitrary: log) (simp_all add: bind_res_def split: sum.splits)

text \<open>How often message \<open>i\<close> stands immediately before itself, and what is written for it.\<close>

definition repeats :: "string list \<Rightarrow> nat \<Rightarrow> nat" where
  "repeats ms i = length (takeWhile (\<lambda>m. m = ms ! i) (rev (take i ms)))"

definition entry :: "string \<Rightarrow> string \<Rightarrow> string list \<Rightarrow> nat \<Rightarrow> line list" where
  "entry ty lvl ms i =
     (if repeats ms i = 0
      then (if i \<noteq> 0 \<and> repeats ms (i - 1) \<noteq> 0 then [NewLine] else []) @ [Full ty lvl (ms ! i)]
      else if repeats ms i \<le> 100 then [Again (repeats ms i) ty lvl (ms ! i)]
      else [TooMany ty lvl (ms ! i)])"

definition journal :: "string \<Rightarrow> string \<Rightarrow> string list \<Rightarrow> line list" where
  "journal ty lvl ms = concat (map (entry ty lvl ms) [0..<length ms])"

lemma repeats_snoc: "i < length ms \<Longrightarrow> repeats (ms @ [m]) i = repeats ms i"
  by (simp add: repeats_def nth_append)

lemma repeats_last:
  "repeats (ms @ [m]) (length ms) = (if ms \<noteq> [] \<and> last ms = m then Suc (repeats ms (length ms - 1)) else 0)"
proof (cases ms rule: rev_cases)
  case (snoc ns n)
  then show ?thesis by (simp add: repeats_def nth_append)
qed (simp add: repeats_def)

lemma repeats_le: "repeats ms i \<le> i"
  using length_takeWhile_le [of "\<lambda>m. m = ms ! i" "rev (take i ms)"] by (simp add: repeats_def)

lemma journal_snoc: "journal ty lvl (ms @ [m]) = journal ty lvl ms @ entry ty lvl (ms @ [m]) (length ms)"
proof -
  have "map (entry ty lvl (ms @ [m])) [0..<length ms] = map (entry ty lvl ms) [0..<length ms]"
    by (rule map_cong) (simp_all add: entry_def repeats_snoc nth_append)
  then show ?thesis by (simp add: journal_def del: map_eq_conv)
qed

text \<open>The state between two messages.\<close>

lemma dblogs_journal:
  assumes lvl: "current_level (levels log) = Inr lvl"
    and log: "log_active log" "out_open log" "out log = []" "last_log log = NoMsg" "logs_num log = 0"
    and len: "length ms < 2 ^ 64"
  shows "dblogs t ms log = Inr (log\<lparr>out := journal (strtype t) lvl ms,
     last_log := (if ms = [] then NoMsg else Msg (last ms)),
     logs_num := (if ms = [] then 0 else of_nat (repeats ms (length ms - 1)))\<rparr>)"
  using len
proof (induction ms rule: rev_induct)
  case Nil
  then show ?case using log by (simp add: journal_def)
next
  case (snoc m ms)
  let ?k = "repeats ms (length ms - 1)"
  have k: "?k < 2 ^ 64 - 1" "ms \<noteq> [] \<Longrightarrow> Suc ?k < 2 ^ 64"
    using repeats_le [of ms "length ms - 1"] snoc.prems by (cases ms; simp)+
  have u: "unat (of_nat ?k :: size_t) = ?k" using k(1) by (simp add: unat_of_nat take_bit_nat_eq_self)
  have nz: "(of_nat ?k :: size_t) = 0 \<longleftrightarrow> ?k = 0"
    using unat_eq_zero [of "of_nat ?k :: size_t"] unfolding u by (rule sym)
  have le: "(of_nat ?k :: size_t) \<le> 99 \<longleftrightarrow> ?k \<le> 99" using u by (simp add: word_le_nat_alt)
  have suc: "unat ((of_nat ?k :: size_t) + 1) = Suc ?k" if "ms \<noteq> []"
    using k(2) [OF that] u by (simp add: unat_word_ariths)
  show ?case
  proof (cases "ms = []")
    case True
    then show ?thesis using log lvl
      by (simp add: dblog_def write_line_def journal_def entry_def repeats_def)
  next
    case False
    then show ?thesis
      using snoc log lvl u nz le suc [OF False]
      by (simp add: dblogs_snoc dblog_def write_line_def journal_snoc entry_def repeats_last repeats_snoc)
  qed
qed

subsection \<open>Levels\<close>

lemma dblog_out:
  assumes "log_active log" "out_open log" "last_log log \<noteq> FreedMsg" and "current_level (levels log) = Inr lvl"
  obtains log' where "dblog t (Some m) log = Inr log'" "levels log' = levels log" "log_active log'" "out_open log'"
    "last_log log' = Msg m"
    "last (out log') = Full (strtype t) lvl m \<or> (\<exists>n. last (out log') = Again n (strtype t) lvl m)
       \<or> last (out log') = TooMany (strtype t) lvl m" "out log' \<noteq> []"
  using assms by (cases "logs_num log = 0"; cases "last_log log = Msg m"; cases "logs_num log \<le> 99")
    (simp_all add: dblog_def write_line_def)

lemma last_take_nth: "0 < n \<Longrightarrow> n \<le> length xs \<Longrightarrow> last (take n xs) = xs ! (n - 1)"
  by (subst last_conv_nth) auto

lemma current_level_list:
  assumes "array_inv lv"
  shows "current_level lv = Inr (if array_list lv = [] then ''root''
     else case last (array_list lv) of None \<Rightarrow> ''undef'' | Some l \<Rightarrow> l)"
proof -
  obtain cs where cs: "cells lv = Some cs" "length cs = head lv" "alen lv \<le> head lv"
    using assms by (auto simp: array_inv_def)
  show ?thesis
  proof (cases "alen lv = 0")
    case False
    then have "last (array_list lv) = cs ! (alen lv - 1)" "array_list lv \<noteq> []"
      using cs last_take_nth [of "alen lv" cs] by (auto simp: array_list_def)
    then show ?thesis using cs False by (simp add: current_level_def array_size_def)
  qed (use cs in \<open>simp add: current_level_def array_size_def array_list_def\<close>)
qed

text \<open>A logger in use, with the levels \<open>xs\<close> in an array of capacity \<open>h\<close>.\<close>

definition in_use :: "nat \<Rightarrow> string option list \<Rightarrow> logger \<Rightarrow> bool" where
  "in_use h xs log \<longleftrightarrow> log_active log \<and> out_open log \<and> last_log log \<noteq> FreedMsg \<and> array_inv (levels log)
     \<and> array_list (levels log) = xs \<and> head (levels log) = h \<and> el_size (levels log) = 8"

lemma in_use_alen: "in_use h xs log \<Longrightarrow> alen (levels log) = length xs"
  using length_array_list [of "levels log"] by (simp add: in_use_def)

lemma in_use_init: "in_use 0 [] logger_init"
  by (simp add: in_use_def logger_init_def) (simp add: array_init_def)

text \<open>Both calls write a line with the level that they lead to.\<close>

definition says :: "LOG_TYPES \<Rightarrow> string \<Rightarrow> string \<Rightarrow> line \<Rightarrow> bool" where
  "says t lvl m l \<longleftrightarrow> l = Full (strtype t) lvl m \<or> (\<exists>n. l = Again n (strtype t) lvl m) \<or> l = TooMany (strtype t) lvl m"

lemma dblog_in_use:
  assumes "in_use h xs log" and "lvl = (if xs = [] then ''root'' else case last xs of None \<Rightarrow> ''undef'' | Some l \<Rightarrow> l)"
  obtains log' where "dblog t (Some m) log = Inr log'" "in_use h xs log'" "levels log' = levels log"
    "says t lvl m (last (out log'))"
proof -
  have lv: "current_level (levels log) = Inr lvl"
    using assms by (simp add: in_use_def current_level_list)
  obtain log' where log': "dblog t (Some m) log = Inr log'" "levels log' = levels log" "log_active log'" "out_open log'"
    "last_log log' = Msg m" "says t lvl m (last (out log'))"
    using dblog_out [of log lvl t m] lv assms(1) unfolding in_use_def says_def by metis
  with assms(1) show thesis by (intro that [of log']) (simp_all add: in_use_def)
qed

lemma dblevel_push_step:
  assumes use: "in_use h xs log" and junk: "length junk = ARRAY_HEAD_STEP"
  obtains log' where "dblevel_push (Some (p, junk)) n log = Inr log'"
    "in_use (if length xs = h then h + ARRAY_HEAD_STEP else h) (xs @ [Some n]) log'"
    "says INFO n ''new lvl'' (last (out log'))"
proof -
  have inv: "array_inv (levels log)" and len: "alen (levels log) = length xs"
    using use in_use_alen [OF use] by (simp_all add: in_use_def)
  obtain lv where lv: "array_append (Some (p, junk)) (levels log) (Some n) = Inr (0, lv)" "array_inv lv"
    "array_list lv = array_list (levels log) @ [Some n]" "el_size lv = el_size (levels log)"
    "head lv = (if alen (levels log) = head (levels log) then head (levels log) + ARRAY_HEAD_STEP else head (levels log))"
    by (rule array_append_step [OF inv, of junk p "Some n"]) (use junk in auto)
  have "in_use (if length xs = h then h + ARRAY_HEAD_STEP else h) (xs @ [Some n]) (log\<lparr>levels := lv\<rparr>)"
    using use lv len by (simp add: in_use_def)
  then obtain log' where "dblog INFO (Some ''new lvl'') (log\<lparr>levels := lv\<rparr>) = Inr log'"
    "in_use (if length xs = h then h + ARRAY_HEAD_STEP else h) (xs @ [Some n]) log'" "says INFO n ''new lvl'' (last (out log'))"
    by (rule dblog_in_use [where t = INFO and m = "''new lvl''" and lvl = n]) simp
  moreover have "log_active log" using use by (simp add: in_use_def)
  ultimately show thesis using lv(1) by (intro that [of log']) (simp_all add: dblevel_push_def)
qed

lemma dblevel_pop_step:
  assumes use: "in_use h xs log" and ne: "xs \<noteq> []" and slack: "h - (length xs - 1) \<le> ARRAY_HEAD_STEP * 2"
  obtains log' where "dblevel_pop ans log = Inr log'" "in_use h (butlast xs) log'"
proof -
  have inv: "array_inv (levels log)" and len: "alen (levels log) = length xs" and xs: "array_list (levels log) = xs"
    and act: "log_active log" using use in_use_alen [OF use] by (simp_all add: in_use_def)
  obtain lv where lv: "array_del ans (levels log) (length xs - 1) = Inr (True, lv)" "array_inv lv"
    "array_list lv = list_del (length xs - 1) (array_list (levels log))" "head lv = head (levels log)"
    by (rule array_del_step [OF inv, of "length xs - 1" ans]) (use use ne slack len in \<open>auto simp: in_use_def\<close>)
  have "el_size lv = el_size (levels log)"
    using lv(1) by (auto simp: array_del_def Let_def split: if_splits option.splits sum.splits)
  moreover have "list_del (length xs - 1) xs = butlast xs" using ne by (simp add: list_del_def butlast_conv_take)
  ultimately have "in_use h (butlast xs) (log\<lparr>levels := lv\<rparr>)" using use lv xs by (simp add: in_use_def)
  then obtain log' where "dblog INFO (Some ''pop lvl'') (log\<lparr>levels := lv\<rparr>) = Inr log'" "in_use h (butlast xs) log'"
    by (rule dblog_in_use [where t = INFO and m = "''pop lvl''", OF _ refl])
  then show thesis using lv(1) len act by (intro that [of log']) (simp_all add: dblevel_pop_def array_size_def)
qed

fun dblevel_pushes :: "(addr \<times> string option list) option \<Rightarrow> string list \<Rightarrow> logger \<Rightarrow> logger res" where
  "dblevel_pushes ans [] log = Inr log"
| "dblevel_pushes ans (n # ns) log = bind_res (dblevel_push ans n log) (dblevel_pushes ans ns)"

fun dblevel_pops :: "addr option \<Rightarrow> nat \<Rightarrow> logger \<Rightarrow> logger res" where
  "dblevel_pops ans 0 log = Inr log"
| "dblevel_pops ans (Suc k) log = bind_res (dblevel_pop ans log) (dblevel_pops ans k)"

text \<open>The capacity that \<open>n\<close> pushes lead to.\<close>

definition levels_cap :: "nat \<Rightarrow> nat" where
  "levels_cap n = (n + 9) div 10 * 10"

lemma levels_cap_Suc: "levels_cap (Suc n) = (if n = levels_cap n then levels_cap n + 10 else levels_cap n)"
proof -
  obtain q r where n: "n = 10 * q + r" "r < 10" by (metis div_mult_mod_eq mod_less_divisor mult.commute zero_less_numeral)
  have "(r + 9) div 10 = (if r = 0 then 0 else 1)" "(r + 10) div 10 = 1" using n(2) by presburger+
  then have "(10 * q + r + 9) div 10 = (if r = 0 then q else q + 1)" "(10 * q + Suc r + 9) div 10 = q + 1"
    by (simp_all add: div_mult_self4 add.assoc)
  then show ?thesis using n by (auto simp: levels_cap_def)
qed

lemma dblevel_pushes_ok:
  assumes "in_use (levels_cap (length xs)) xs log" and "length junk = ARRAY_HEAD_STEP"
  shows "\<exists>log'. dblevel_pushes (Some (p, junk)) ns log = Inr log'
     \<and> in_use (levels_cap (length xs + length ns)) (xs @ map Some ns) log'"
  using assms(1)
proof (induction ns arbitrary: xs log)
  case (Cons n ns)
  obtain log1 where log1: "dblevel_push (Some (p, junk)) n log = Inr log1"
    "in_use (if length xs = levels_cap (length xs) then levels_cap (length xs) + ARRAY_HEAD_STEP
       else levels_cap (length xs)) (xs @ [Some n]) log1"
    by (rule dblevel_push_step [OF Cons.prems assms(2)])
  moreover have "levels_cap (length (xs @ [Some n])) = (if length xs = levels_cap (length xs)
      then levels_cap (length xs) + ARRAY_HEAD_STEP else levels_cap (length xs))"
    by (simp add: levels_cap_Suc ARRAY_HEAD_STEP_def)
  ultimately have "in_use (levels_cap (length (xs @ [Some n]))) (xs @ [Some n]) log1" by simp
  from Cons.IH [OF this] log1(1) show ?case by simp
qed simp

lemma dblevel_pops_ok:
  "in_use h xs log \<Longrightarrow> k \<le> length xs \<Longrightarrow> h - (length xs - k) \<le> ARRAY_HEAD_STEP * 2
   \<Longrightarrow> \<exists>log'. dblevel_pops ans k log = Inr log' \<and> in_use h (take (length xs - k) xs) log'"
proof (induction k arbitrary: xs log)
  case (Suc k)
  have ne: "xs \<noteq> []" and slack: "h - (length xs - 1) \<le> ARRAY_HEAD_STEP * 2" using Suc.prems by auto
  obtain log1 where log1: "dblevel_pop ans log = Inr log1" "in_use h (butlast xs) log1"
    by (rule dblevel_pop_step [OF Suc.prems(1) ne slack])
  have "\<exists>log'. dblevel_pops ans k log1 = Inr log' \<and> in_use h (take (length (butlast xs) - k) (butlast xs)) log'"
    by (rule Suc.IH [OF log1(2)]) (use Suc.prems in auto)
  moreover have "take (length (butlast xs) - k) (butlast xs) = take (length xs - Suc k) xs"
    by (simp add: butlast_conv_take min_def)
  ultimately show ?case using log1(1) by simp
qed simp

subsection \<open>Properties\<close>

text \<open>C23: the stream of a fresh logger is a function of the messages alone: message by message, a line
  for one that differs from its predecessor, a numbered repetition otherwise, without a number from
  the 101st on, and a line break where a row of repetitions ends.\<close>

theorem log_collapses_repeats:
  assumes "length ms < 2 ^ 64"
  shows "\<exists>log. dblogs t ms logger_init = Inr log \<and> out log = journal (strtype t) ''root'' ms"
  using dblogs_journal [of logger_init "''root''" ms t] assms
  by (simp add: logger_init_def current_level_def array_size_def array_init_def)

theorem log_collapses_repeats_witness:
  "\<exists>log. dblogs INFO [''a'', ''a'', ''b''] logger_init = Inr log
     \<and> out log = [Full ''INFO'' ''root'' ''a'', Again 1 ''INFO'' ''root'' ''a'', NewLine, Full ''INFO'' ''root'' ''b'']"
  using log_collapses_repeats [of "[''a'', ''a'', ''b'']" INFO]
  by (simp add: journal_def entry_def repeats_def upt_rec)

text \<open>While at most twenty slots are free, levels nest: a push makes its name the level of the lines
  that follow, and the matching pop restores the levels as they were.\<close>

theorem levels_nest:
  assumes "in_use h xs log" and "length junk = ARRAY_HEAD_STEP" and "h \<le> length xs + ARRAY_HEAD_STEP * 2"
  shows "\<exists>h' log1 log2. dblevel_push (Some (p, junk)) n log = Inr log1 \<and> says INFO n ''new lvl'' (last (out log1))
     \<and> array_list (levels log1) = xs @ [Some n] \<and> current_level (levels log1) = Inr n
     \<and> dblevel_pop ans log1 = Inr log2 \<and> in_use h' xs log2"
proof -
  let ?h = "if length xs = h then h + ARRAY_HEAD_STEP else h"
  obtain log1 where log1: "dblevel_push (Some (p, junk)) n log = Inr log1" "in_use ?h (xs @ [Some n]) log1"
    "says INFO n ''new lvl'' (last (out log1))"
    by (rule dblevel_push_step [OF assms(1,2)])
  have "?h - (length (xs @ [Some n]) - 1) \<le> ARRAY_HEAD_STEP * 2" using assms(3) by auto
  then obtain log2 where "dblevel_pop ans log1 = Inr log2" "in_use ?h (butlast (xs @ [Some n])) log2"
    using dblevel_pop_step [OF log1(2), of ans] by blast
  moreover have "current_level (levels log1) = Inr n" "array_list (levels log1) = xs @ [Some n]"
    using log1(2) by (simp_all add: in_use_def current_level_list)
  ultimately show ?thesis using log1(1,3) by auto
qed

theorem levels_nest_witness:
  "\<exists>log1 log2. dblevel_push (Some (16, replicate 10 None)) ''req'' logger_init = Inr log1
     \<and> current_level (levels log1) = Inr ''req'' \<and> dblevel_pop None log1 = Inr log2"
  using levels_nest [OF in_use_init, of "replicate 10 None" 16 "''req''" None]
  by (auto simp: ARRAY_HEAD_STEP_def)

text \<open>Levels that have ever been nested deeper than twenty cannot be left: on the way back the array
  gives up the slot of the innermost level that is left, and the line that the same pop writes reads
  it past the end of the block.\<close>

theorem deep_levels_fault:
  assumes "20 < length ns" and "length junk = ARRAY_HEAD_STEP"
  shows "\<exists>log log'. dblevel_pushes (Some (p, junk)) ns logger_init = Inr log
     \<and> dblevel_pops (Some q) (length ns - (levels_cap (length ns) - 20)) log = Inr log'
     \<and> dblevel_pop (Some q) log' = Inl OutOfBounds"
proof -
  let ?h = "levels_cap (length ns)" and ?k = "length ns - (levels_cap (length ns) - 20)"
  have h: "20 < ?h" "30 \<le> ?h" "?h - 20 \<le> length ns" using assms(1) unfolding levels_cap_def by presburger+
  have "in_use (levels_cap (length [])) [] logger_init" using in_use_init by (simp add: levels_cap_def)
  from dblevel_pushes_ok [OF this assms(2), of p ns] obtain log where
    log: "dblevel_pushes (Some (p, junk)) ns logger_init = Inr log" "in_use ?h (map Some ns) log" by auto
  have "?k \<le> length (map Some ns)" "?h - (length (map Some ns) - ?k) \<le> ARRAY_HEAD_STEP * 2"
    using h by (simp_all add: ARRAY_HEAD_STEP_def)
  from dblevel_pops_ok [OF log(2) this, of "Some q"] obtain log' where
    log': "dblevel_pops (Some q) ?k log = Inr log'" "in_use ?h (take (length (map Some ns) - ?k) (map Some ns)) log'" by blast
  let ?lv = "levels log'"
  have lv: "array_inv ?lv" "alen ?lv = ?h - 20" "head ?lv = ?h" "el_size ?lv = 8" "log_active log'"
    using log'(2) in_use_alen [OF log'(2)] h by (simp_all add: in_use_def min_def)
  obtain arr where arr: "array_del (Some q) ?lv (alen ?lv - 1) = Inr (True, arr)" "alen arr = alen ?lv - 1"
    "cells arr \<noteq> None" "length (the (cells arr)) = alen ?lv - 2"
    by (rule array_del_shrinks [OF lv(1), of "alen ?lv - 1" q]) (use lv h in \<open>auto simp: ARRAY_HEAD_STEP_def\<close>)
  then have "current_level arr = Inl OutOfBounds"
    using lv(2) h by (auto simp: current_level_def array_size_def)
  then have "dblevel_pop (Some q) log' = Inl OutOfBounds"
    using arr(1) lv(5) by (simp add: dblevel_pop_def array_size_def dblog_def)
  with log(1) log'(1) show ?thesis by blast
qed

theorem deep_levels_fault_witness:
  "\<exists>log log'. dblevel_pushes (Some (16, replicate 10 None)) (replicate 21 ''l'') logger_init = Inr log
     \<and> dblevel_pops (Some 32) 11 log = Inr log' \<and> dblevel_pop (Some 32) log' = Inl OutOfBounds"
  using deep_levels_fault [of "replicate 21 ''l''" "replicate 10 None" 16 32]
  by (simp add: levels_cap_def ARRAY_HEAD_STEP_def)

end
