(* ===== verification/Framing.thy ===== *)
theory Framing
  imports Packet "HOL-Library.Monad_Syntax"
begin

text \<open>
  Stream reassembly, which \<open>run_server\<close> (\<open>code/DCN/src/netw/epldplx-c.c\<close>) and
  \<open>run_client\<close> (\<open>code/DCN/src/netw/client.c\<close>) perform with the same statements: received
  bytes are appended to an accumulator block, and a loop cuts complete packets off its front,
  pushes each on the read queue and schedules a handler for it.

  The loop need not end (a declared payload size can wrap the packet size around to 0), so it is
  a partial function with \<open>None\<close> for "does not return".
\<close>

subsection \<open>The code's accumulator and loop\<close>

text \<open>
  Appending the received bytes \<open>bs\<close>; \<open>ok\<close> says whether the reallocation succeeds, and the
  bytes are dropped when it does not.
\<close>

definition acc_append :: "bool \<Rightarrow> qblock \<Rightarrow> byte list \<Rightarrow> qblock" where
  "acc_append ok acc bs =
     (if bs \<noteq> [] \<and> ok
      then \<lparr>data = Buf (qb_bytes acc @ bs), dsize = dsize acc + length bs\<rparr>
      else acc)"

text \<open>
  Removing \<open>k\<close> consumed bytes: the rest is moved to the front, then the block is freed or
  shrunk.  When shrinking fails (\<open>\<not> ok\<close>) the block stays as long as it was, with stale bytes
  behind the first \<open>dsize\<close>.
\<close>

definition acc_drop :: "bool \<Rightarrow> qblock \<Rightarrow> nat \<Rightarrow> qblock" where
  "acc_drop ok acc k =
     (let remain = dsize acc - k in
      if remain = 0 then acc\<lparr>data := Null, dsize := 0\<rparr>
      else case data acc of
        Buf xs \<Rightarrow>
          (let moved = take remain (drop k xs) @ drop remain xs
           in acc\<lparr>data := Buf (if ok then take remain moved else moved), dsize := remain\<rparr>)
      | _ \<Rightarrow> acc\<lparr>dsize := remain\<rparr>)"

text \<open>The extraction loop: accumulator, read queue, number of handlers scheduled so far.\<close>

partial_function (option) extract_packets ::
  "bool \<Rightarrow> qblock \<Rightarrow> queue \<Rightarrow> nat \<Rightarrow> (qblock \<times> queue \<times> nat) res option" where
  "extract_packets ok acc q n =
     (if dsize acc < packet_general_ofs then Some (Inr (acc, q, n))
      else case memcpy_from (data acc) packet_general_ofs of
        Inl e \<Rightarrow> Some (Inl e)
      | Inr h \<Rightarrow>
          let payload_sz = u64_at (packet_general_ofs - 8) h;
              pkt_sz = unat (of_nat packet_general_ofs + payload_sz)
          in if dsize acc < pkt_sz then Some (Inr (acc, q, n))
             else case memcpy_from (data acc) pkt_sz of
               Inl e \<Rightarrow> Some (Inl e)
             | Inr bs \<Rightarrow> (case push_block True q \<lparr>data = Buf bs, dsize = pkt_sz\<rparr> of
                 Inl e \<Rightarrow> Some (Inl e)
               | Inr (_, q) \<Rightarrow> extract_packets ok (acc_drop ok acc pkt_sz) q (Suc n)))"

subsection \<open>The abstract splitter\<close>

definition next_frame :: "byte list \<Rightarrow> (byte list \<times> byte list) option" where
  "next_frame acc =
     (if length acc < 61 then None
      else let n = unat (61 + u64_at 53 acc)
           in if length acc < n then None else Some (take n acc, drop n acc))"

partial_function (option) frames :: "byte list \<Rightarrow> (byte list list \<times> byte list) option" where
  "frames acc =
     (case next_frame acc of
        None \<Rightarrow> Some ([], acc)
      | Some (f, r) \<Rightarrow> Option.bind (frames r) (\<lambda>(fs, t). Some (f # fs, t)))"

lemma u64_at_take: "k + 8 \<le> n \<Longrightarrow> u64_at k (take n bs) = u64_at k bs"
  by (simp add: u64_at_def drop_take min_def)

lemma u64_at_append: "k + 8 \<le> length bs \<Longrightarrow> u64_at k (bs @ ys) = u64_at k bs"
  by (simp add: u64_at_def)

lemma bind_Some_eq_map_option: "Option.bind x (\<lambda>(fs, t). Some (f # fs, t)) = map_option (\<lambda>(fs, t). (f # fs, t)) x"
  by (cases x) auto

interpretation pk: stream_framing next_frame frames
proof
  show "acc = f @ r" if "next_frame acc = Some (f, r)" for acc f r
    using that by (auto simp: next_frame_def Let_def split: if_splits)
  show "next_frame (acc @ ys) = Some (f, r @ ys)" if "next_frame acc = Some (f, r)"
    for acc f r ys
    using that by (auto simp: next_frame_def Let_def u64_at_append split: if_splits)
  show "frames acc = (case next_frame acc of None \<Rightarrow> Some ([], acc)
      | Some (f, r) \<Rightarrow> map_option (\<lambda>(fs, t). (f # fs, t)) (frames r))" for acc
    by (subst frames.simps) (simp add: bind_Some_eq_map_option split: option.splits)
qed

subsection \<open>The loop against the splitter\<close>

lemma qb_bytes_acc_append [simp]:
  "qb_wf acc \<Longrightarrow> qb_bytes (acc_append ok acc bs) = (if ok then qb_bytes acc @ bs else qb_bytes acc)"
  by (auto simp: acc_append_def qb_bytes_def qb_wf_dsize)

lemma qb_wf_acc_append [simp, wf_intro]: "qb_wf acc \<Longrightarrow> qb_wf (acc_append ok acc bs)"
  by (auto simp: acc_append_def qb_wf_dsize) (simp add: qb_wf_def)

lemma acc_drop_wf:
  assumes "qb_wf acc" and "k \<le> dsize acc"
  shows "qb_wf (acc_drop ok acc k)" and "qb_bytes (acc_drop ok acc k) = drop k (qb_bytes acc)"
  using assms
  by (cases "data acc"; auto simp: acc_drop_def qb_wf_def qb_bytes_def Let_def drop_take min_def)+

text \<open>One turn of the loop.\<close>

lemma extract_packets_step:
  assumes acc: "qb_wf acc" and q: "queue_inv q"
  shows "extract_packets ok acc q n =
     (case next_frame (qb_bytes acc) of
        None \<Rightarrow> Some (Inr (acc, q, n))
      | Some (f, r) \<Rightarrow> extract_packets ok (acc_drop ok acc (length f))
           (enqueue q \<lparr>data = Buf f, dsize = length f\<rparr>) (Suc n))"
proof (cases "dsize acc < 61")
  case True
  then show ?thesis
    using qb_wf_dsize [OF acc] by (subst extract_packets.simps) (simp add: next_frame_def)
next
  case False
  let ?b = "qb_bytes acc"
  let ?n = "unat (61 + u64_at 53 ?b)"
  have len: "dsize acc = length ?b" by (rule qb_wf_dsize [OF acc])
  have h: "memcpy_from (data acc) 61 = Inr (take 61 ?b)"
    using memcpy_from_wf [OF acc] False by simp
  have u: "u64_at 53 (take 61 ?b) = u64_at 53 ?b"
    by (simp add: u64_at_take)
  show ?thesis
  proof (cases "length ?b < ?n")
    case True
    then show ?thesis
      using False h u len by (subst extract_packets.simps) (simp add: next_frame_def Let_def)
  next
    case fits: False
    have rd: "memcpy_from (data acc) ?n = Inr (take ?n ?b)"
      using memcpy_from_wf [OF acc] fits len by simp
    have nf: "next_frame ?b = Some (take ?n ?b, drop ?n ?b)"
      using False fits len by (simp add: next_frame_def Let_def)
    have wf: "qb_wf \<lparr>data = Buf (take ?n ?b), dsize = ?n\<rparr>"
      using fits by (simp add: qb_wf_def)
    show ?thesis
      using False fits h u rd len nf push_block_step(1) [OF q wf]
      by (subst extract_packets.simps) (simp add: Let_def)
  qed
qed

text \<open>
  Where the splitter returns, the loop returns the same frames, in order, behind what the read
  queue already held, with one handler scheduled for each.
\<close>

lemma extract_packets_frames:
  assumes "frames (qb_bytes acc) = Some (fs, t)" and "qb_wf acc" and "queue_inv q"
  shows "\<exists>acc' q'. extract_packets ok acc q n = Some (Inr (acc', q', n + length fs))
     \<and> qb_wf acc' \<and> qb_bytes acc' = t \<and> queue_inv q' \<and> contents q' = contents q @ fs"
  using assms
proof (induction fs arbitrary: acc q n)
  case Nil
  then have "next_frame (qb_bytes acc) = None" and "t = qb_bytes acc"
    by (auto dest: pk.drain_NilD)
  then show ?case
    using Nil.prems extract_packets_step [OF Nil.prems(2,3)] by simp
next
  case (Cons f fs)
  then obtain r where r: "next_frame (qb_bytes acc) = Some (f, r)" "frames r = Some (fs, t)"
    by (auto dest: pk.drain_ConsD)
  have split: "qb_bytes acc = f @ r" by (rule pk.next_split [OF r(1)])
  then have le: "length f \<le> dsize acc"
    using qb_wf_dsize [OF Cons.prems(2)] by simp
  let ?acc = "acc_drop ok acc (length f)" and ?q = "enqueue q \<lparr>data = Buf f, dsize = length f\<rparr>"
  have wf: "qb_wf \<lparr>data = Buf f, dsize = length f\<rparr>" by (simp add: qb_wf_def)
  have acc: "qb_wf ?acc" "qb_bytes ?acc = r"
    using acc_drop_wf [OF Cons.prems(2) le] split by auto
  have q: "queue_inv ?q" "contents ?q = contents q @ [f]"
    using push_block_step [OF Cons.prems(3) wf] by (simp_all add: qb_bytes_def)
  have fr: "frames (qb_bytes ?acc) = Some (fs, t)"
    by (simp add: acc(2) r(2))
  obtain acc' q' where
    "extract_packets ok ?acc ?q (Suc n) = Some (Inr (acc', q', Suc n + length fs))"
    "qb_wf acc'" "qb_bytes acc' = t" "queue_inv q'" "contents q' = contents ?q @ fs"
    using Cons.IH [OF fr acc(1) q(1)] by blast
  then show ?case
    using extract_packets_step [OF Cons.prems(2,3), of ok n] r(1) q(2) by simp
qed

text \<open>Where the loop returns, the splitter does.\<close>

lemma extract_packets_returns:
  assumes ret: "extract_packets ok acc q n = Some out" and "qb_wf acc" and "queue_inv q"
  shows "frames (qb_bytes acc) \<noteq> None"
proof -
  have "qb_wf acc \<longrightarrow> queue_inv q \<longrightarrow> frames (qb_bytes acc) \<noteq> None"
  proof (rule extract_packets.raw_induct [where P = "\<lambda>ok acc q n out.
      qb_wf acc \<longrightarrow> queue_inv q \<longrightarrow> frames (qb_bytes acc) \<noteq> None", OF _ ret])
    fix f ok acc q n out
    assume IH: "\<And>ok acc q n out. f ok acc q n = Some out \<Longrightarrow>
        qb_wf acc \<longrightarrow> queue_inv q \<longrightarrow> frames (qb_bytes acc) \<noteq> None"
      and eq: "(if dsize acc < packet_general_ofs then Some (Inr (acc, q, n))
      else case memcpy_from (data acc) packet_general_ofs of
        Inl e \<Rightarrow> Some (Inl e)
      | Inr h \<Rightarrow>
          let payload_sz = u64_at (packet_general_ofs - 8) h;
              pkt_sz = unat (of_nat packet_general_ofs + payload_sz)
          in if dsize acc < pkt_sz then Some (Inr (acc, q, n))
             else case memcpy_from (data acc) pkt_sz of
               Inl e \<Rightarrow> Some (Inl e)
             | Inr bs \<Rightarrow> (case push_block True q \<lparr>data = Buf bs, dsize = pkt_sz\<rparr> of
                 Inl e \<Rightarrow> Some (Inl e)
               | Inr (_, q) \<Rightarrow> f ok (acc_drop ok acc pkt_sz) q (Suc n))) = Some out"
    show "qb_wf acc \<longrightarrow> queue_inv q \<longrightarrow> frames (qb_bytes acc) \<noteq> None"
    proof (intro impI)
      assume wf: "qb_wf acc" and q: "queue_inv q"
      show "frames (qb_bytes acc) \<noteq> None"
      proof (cases "next_frame (qb_bytes acc)")
        case None
        then show ?thesis by (simp add: pk.drain_stuck)
      next
        case (Some fr)
        let ?n = "unat (61 + u64_at 53 (qb_bytes acc))"
        have len: "dsize acc = length (qb_bytes acc)" by (rule qb_wf_dsize [OF wf])
        have fits: "61 \<le> dsize acc" "?n \<le> dsize acc"
          and fr: "fr = (take ?n (qb_bytes acc), drop ?n (qb_bytes acc))"
          using Some len by (auto simp: next_frame_def Let_def split: if_splits)
        let ?b = "\<lparr>data = Buf (take ?n (qb_bytes acc)), dsize = ?n\<rparr>"
        have wfb: "qb_wf ?b" using fits len by (simp add: qb_wf_def)
        have "f ok (acc_drop ok acc ?n) (enqueue q ?b) (Suc n) = Some out"
          using eq fits memcpy_from_wf [OF wf] push_block_step(1) [OF q wfb]
          by (simp add: Let_def u64_at_take)
        then have "frames (drop ?n (qb_bytes acc)) \<noteq> None"
          using IH acc_drop_wf [OF wf fits(2)] push_block_step(2) [OF q wfb] by fastforce
        then show ?thesis
          using Some fr pk.drain_step by fastforce
      qed
    qed
  qed
  with assms show ?thesis by blast
qed

subsection \<open>Packets through the splitter\<close>

lemma next_frame_packet:
  assumes "packet_wf p"
  shows "next_frame (packet_bytes p @ ys) = Some (packet_bytes p, ys)"
proof -
  have "u64_at 53 (packet_bytes p @ ys) = of_nat (dsize (pdata p))"
    by (simp add: packet_bytes_def u64_at_append)
  moreover have "unat (61 + of_nat (dsize (pdata p)) :: size_t) = 61 + dsize (pdata p)"
    using assms by (simp add: packet_wf_def unat_word_ariths unat_of_nat)
  ultimately show ?thesis
    using length_packet_bytes [OF assms] by (simp add: next_frame_def Let_def)
qed

lemma frames_packets:
  assumes "\<forall>p \<in> set ps. packet_wf p" and "next_frame t = None"
  shows "frames (concat (map packet_bytes ps) @ t) = Some (map packet_bytes ps, t)"
  by (rule pk.drain_frames) (use assms next_frame_packet in auto)

text \<open>A frame of at least a header's length is accepted by \<open>packet_deserial\<close>, a shorter one is not.\<close>

lemma frame_deserial:
  assumes "next_frame acc = Some (f, r)" and "qb_wf b" and "qb_bytes b = f"
  shows "\<exists>p. packet_deserial out b = Inr (61 \<le> length f, p)"
proof -
  let ?w = "u64_at 53 acc"
  have f: "f = take (unat (61 + ?w)) acc" "unat (61 + ?w) \<le> length acc"
    using assms(1) by (auto simp: next_frame_def Let_def split: if_splits)
  then have len: "length f = unat (61 + ?w)" by simp
  have "unat (61 + ?w) < 2 ^ LENGTH(64)" by (rule unsigned_less)
  then have small: "length f < 2 ^ 64" using len by simp
  have db: "dsize b = length f" using qb_wf_dsize [OF assms(2)] assms(3) by simp
  have "unat (u64_at 53 f) = length f - 61" if ge: "61 \<le> length f"
  proof -
    have uf: "u64_at 53 f = ?w"
      using f ge len by (simp add: u64_at_def drop_take min_def)
    have "?w = of_nat (length f) - 61" by (simp add: len)
    also have "\<dots> = of_nat (length f - 61)" using ge by (simp add: of_nat_diff)
    finally show ?thesis using small by (simp add: uf unat_of_nat)
  qed
  then show ?thesis
    using packet_deserial_cases [OF assms(2), of out] small db assms(3) by auto
qed

subsection \<open>When the loop returns\<close>

lemma frames_diverges:
  assumes "next_frame acc = Some ([], acc)"
  shows "frames acc = None"
proof (rule ccontr)
  assume "frames acc \<noteq> None"
  then obtain fs t where "frames acc = Some (fs, t)" by auto
  then show False
  proof (induction fs)
    case Nil
    then show ?case using assms by (auto dest: pk.drain_NilD)
  next
    case (Cons f fs)
    then show ?case using assms pk.drain_ConsD [OF Cons.prems] by auto
  qed
qed

lemma frames_None_split:
  "frames acc = None \<Longrightarrow> \<exists>pre post. acc = pre @ post \<and> 61 \<le> length post \<and> u64_at 53 post = - 61"
proof (induction "length acc" arbitrary: acc rule: less_induct)
  case less
  obtain f r where nf: "next_frame acc = Some (f, r)"
    using less.prems pk.drain_stuck by (cases "next_frame acc") auto
  then have ge: "61 \<le> length acc" and f: "f = take (unat (61 + u64_at 53 acc)) acc"
    and le: "unat (61 + u64_at 53 acc) \<le> length acc"
    by (auto simp: next_frame_def Let_def split: if_splits)
  show ?case
  proof (cases "f = []")
    case True
    with f ge have "unat (61 + u64_at 53 acc) = 0" by auto
    then have "61 + u64_at 53 acc = 0" by (simp add: unat_eq_0)
    then have "u64_at 53 acc = - 61" by (simp add: eq_neg_iff_add_eq_0 add.commute)
    with ge show ?thesis by (intro exI [of _ "[]"] exI [of _ acc]) simp
  next
    case False
    have split: "acc = f @ r" by (rule pk.next_split [OF nf])
    have "frames r = None" using less.prems pk.drain_step [OF nf] by (cases "frames r") auto
    moreover have "length r < length acc" using split False by simp
    ultimately obtain pre post where "r = pre @ post" "61 \<le> length post" "u64_at 53 post = - 61"
      using less.hyps by blast
    then show ?thesis using split by (intro exI [of _ "f @ pre"] exI [of _ post]) simp
  qed
qed

definition no_wrap :: "byte list \<Rightarrow> bool" where
  "no_wrap bs \<longleftrightarrow> (\<forall>pre post. bs = pre @ post \<and> 61 \<le> length post \<longrightarrow> u64_at 53 post \<noteq> - 61)"

lemma no_wrap_frames: "no_wrap bs \<Longrightarrow> frames bs \<noteq> None"
  unfolding no_wrap_def using frames_None_split by blast

lemma no_wrap_short [simp]: "length bs < 61 \<Longrightarrow> no_wrap bs"
  by (auto simp: no_wrap_def)

subsection \<open>Successive reads\<close>

text \<open>
  A connection's receive path over successive reads that returned the chunks \<open>cs\<close>: append, then
  run the loop.
\<close>

fun recv_chunks ::
  "qblock \<Rightarrow> queue \<Rightarrow> nat \<Rightarrow> byte list list \<Rightarrow> (qblock \<times> queue \<times> nat) res option" where
  "recv_chunks acc q n [] = Some (Inr (acc, q, n))"
| "recv_chunks acc q n (c # cs) =
     (case extract_packets True (acc_append True acc c) q n of
        None \<Rightarrow> None
      | Some (Inl e) \<Rightarrow> Some (Inl e)
      | Some (Inr (acc, q, n)) \<Rightarrow> recv_chunks acc q n cs)"

lemma recv_chunks_feed_all:
  assumes "feed_all frames (qb_bytes acc) cs = Some (fs, t)" and "qb_wf acc" and "queue_inv q"
  shows "\<exists>acc' q'. recv_chunks acc q n cs = Some (Inr (acc', q', n + length fs))
     \<and> qb_wf acc' \<and> qb_bytes acc' = t \<and> queue_inv q' \<and> contents q' = contents q @ fs"
  using assms
proof (induction cs arbitrary: acc q n fs)
  case Nil
  then show ?case by auto
next
  case (Cons c cs)
  obtain gs u hs where gs: "frames (qb_bytes acc @ c) = Some (gs, u)"
    and hs: "feed_all frames u cs = Some (hs, t)" and fs: "fs = gs @ hs"
    using Cons.prems(1) by (auto split: option.splits)
  let ?acc = "acc_append True acc c"
  have fr: "frames (qb_bytes ?acc) = Some (gs, u)"
    using gs Cons.prems(2) by simp
  obtain acc1 q1 where st: "extract_packets True ?acc q n = Some (Inr (acc1, q1, n + length gs))"
    and w1: "qb_wf acc1" "qb_bytes acc1 = u" "queue_inv q1" "contents q1 = contents q @ gs"
    using extract_packets_frames [OF fr _ Cons.prems(3), of True n] Cons.prems(2) by auto
  obtain acc2 q2 where
    "recv_chunks acc1 q1 (n + length gs) cs = Some (Inr (acc2, q2, n + length gs + length hs))"
    "qb_wf acc2" "qb_bytes acc2 = t" "queue_inv q2" "contents q2 = contents q1 @ hs"
    using Cons.IH [of acc1 hs q1 "n + length gs"] hs w1 by auto
  then show ?case using st w1 fs by auto
qed

subsection \<open>Properties\<close>

text \<open>C5: stream reassembly: however TCP cuts the bytes of a sequence of packets into reads, the
  receive path pushes exactly those packets' blocks, in order, schedules one handler for each, and
  keeps the incomplete rest; every pushed block deserialises to its packet.\<close>

theorem stream_reassembly:
  assumes "\<forall>p \<in> set ps. packet_wf p" and "length t < packet_general_ofs"
    and "concat cs = concat (map packet_bytes ps) @ t"
  shows "\<exists>acc q. recv_chunks qblock_init queue_init 0 cs = Some (Inr (acc, q, length ps))
     \<and> qb_bytes acc = t \<and> contents q = map packet_bytes ps
     \<and> (\<forall>p \<in> set ps. packet_deserial out (mk_block (packet_bytes p)) = Inr (True, packet_norm p))"
proof -
  have nt: "next_frame t = None" using assms(2) by (simp add: next_frame_def)
  have ne: "next_frame [] = None" by (simp add: next_frame_def)
  have "frames (concat cs) = Some (map packet_bytes ps, t)"
    using frames_packets [OF assms(1) nt] assms(3) by simp
  then have "feed_all frames (qb_bytes qblock_init) cs = Some (map packet_bytes ps, t)"
    using pk.feed_all_concat [OF ne, of cs] by simp
  from recv_chunks_feed_all [OF this, of queue_init 0] show ?thesis
    using packet_deserial_bytes assms(1) by auto
qed

theorem stream_reassembly_witness:
  "\<exists>acc q. recv_chunks qblock_init queue_init 0
       [take 40 (packet_bytes (sample_packet 10 20)), drop 40 (packet_bytes (sample_packet 10 20)) @ [5]]
     = Some (Inr (acc, q, 1)) \<and> qb_bytes acc = [5] \<and> contents q = [packet_bytes (sample_packet 10 20)]"
proof -
  let ?b = "packet_bytes (sample_packet 10 20)"
  have "concat [take 40 ?b, drop 40 ?b @ [5]] = concat (map packet_bytes [sample_packet 10 20]) @ [5]"
    by simp
  then show ?thesis
    using stream_reassembly [of "[sample_packet 10 20]" "[5]" "[take 40 ?b, drop 40 ?b @ [5]]"]
    by (simp del: recv_chunks.simps) blast
qed

text \<open>C32: a header that declares a payload of \<open>2 ^ 64 - 61\<close> bytes makes the packet size wrap
  around to 0, and the extraction loop never returns: it pushes empty blocks for ever.\<close>

theorem wrapped_size_loops:
  assumes "qb_wf acc" and "queue_inv q" and "packet_general_ofs \<le> dsize acc"
    and "u64_at 53 (qb_bytes acc) = - 61"
  shows "extract_packets ok acc q n = None"
proof -
  have "next_frame (qb_bytes acc) = Some ([], qb_bytes acc)"
    using assms qb_wf_dsize [OF assms(1)] by (simp add: next_frame_def Let_def)
  then have "frames (qb_bytes acc) = None" by (rule frames_diverges)
  then show ?thesis
    using extract_packets_returns [OF _ assms(1,2)] by (cases "extract_packets ok acc q n") auto
qed

definition wrapping_header :: "byte list" where
  "wrapping_header = replicate 53 0 @ le_bytes 8 (- 61 :: ullong)"

theorem wrapped_size_loops_witness:
  "extract_packets True (mk_block wrapping_header) queue_init 0 = None"
proof (rule wrapped_size_loops)
  show "u64_at 53 (qb_bytes (mk_block wrapping_header)) = - 61"
    by (simp add: u64_at_def wrapping_header_def u64_codec.dec_enc)
qed (simp_all add: wrapping_header_def)

text \<open>C31: that is the only way not to return: when no header position of the accumulated bytes
  declares the wrapping size, the loop ends, without a fault, and leaves no complete frame behind.\<close>

theorem extraction_returns:
  assumes "qb_wf acc" and "queue_inv q"
    and "no_wrap (qb_bytes acc)"
  shows "\<exists>acc' q' k. extract_packets ok acc q n = Some (Inr (acc', q', n + k))
     \<and> next_frame (qb_bytes acc') = None
     \<and> (\<exists>fs. length fs = k \<and> contents q' = contents q @ fs \<and> qb_bytes acc = concat fs @ qb_bytes acc')"
proof -
  have "frames (qb_bytes acc) \<noteq> None" by (rule no_wrap_frames [OF assms(3)])
  then obtain fs t where fr: "frames (qb_bytes acc) = Some (fs, t)" by auto
  from extract_packets_frames [OF fr assms(1,2), of ok n] show ?thesis
    using pk.drain_rest [OF fr] pk.drain_conserves [OF fr] by auto
qed

theorem extraction_returns_witness:
  "\<exists>acc' q'. extract_packets True (mk_block [1, 2, 3]) queue_init 0 = Some (Inr (acc', q', 0))"
  using extraction_returns [of "mk_block [1, 2, 3]" queue_init True 0]
  by (subst extract_packets.simps) simp

text \<open>A declared size between \<open>2 ^ 64 - 60\<close> and \<open>2 ^ 64 - 1\<close> also wraps: the loop cuts off a
  frame of 1 to 60 bytes, shorter than a header, which \<open>packet_deserial\<close> then rejects without
  filling the packet.\<close>

theorem short_frame_rejected:
  assumes "qb_wf acc" and "packet_general_ofs \<le> dsize acc" and "0 < k" and "k < packet_general_ofs"
    and "u64_at 53 (qb_bytes acc) = of_nat k - 61"
  shows "\<exists>f r. next_frame (qb_bytes acc) = Some (f, r) \<and> length f = k
     \<and> packet_deserial out (mk_block f) = Inr (False, out)"
proof -
  have "unat (of_nat k :: size_t) = k" using assms(4) by (simp add: unat_of_nat)
  then have "next_frame (qb_bytes acc) = Some (take k (qb_bytes acc), drop k (qb_bytes acc))"
    and "length (take k (qb_bytes acc)) = k"
    using assms qb_wf_dsize [OF assms(1)] by (simp_all add: next_frame_def Let_def)
  then show ?thesis
    using assms(4) by (intro exI [of _ "take k (qb_bytes acc)"] exI [of _ "drop k (qb_bytes acc)"])
      (simp add: packet_deserial_def)
qed

definition short_header :: "byte list" where
  "short_header = replicate 53 0 @ le_bytes 8 (of_nat 5 - 61 :: ullong)"

theorem short_frame_rejected_witness:
  "\<exists>f r. next_frame short_header = Some (f, r) \<and> length f = 5
     \<and> packet_deserial (sample_packet 1 2) (mk_block f) = Inr (False, sample_packet 1 2)"
proof -
  have "u64_at 53 short_header = of_nat 5 - 61"
    unfolding u64_at_def short_header_def by (simp add: u64_codec.dec_enc)
  then show ?thesis
    using short_frame_rejected [of "mk_block short_header" 5 "sample_packet 1 2"]
    by (simp add: short_header_def)
qed

end
