(* ===== verification/NetClient.thy ===== *)
theory NetClient
  imports Framing
begin

text \<open>
  The client's connection loop of \<open>code/DCN/src/netw/client.c\<close>: \<open>cfull_read\<close>,
  \<open>cfull_write\<close>, and \<open>run_client\<close> as one step per answer of \<open>poll\<close>.

  The loop's state is its locals (\<open>alr_wr\<close>, \<open>acc\<close>), the flag \<open>is_running\<close>, the number of
  message handlers it has created, and the bytes that went out on the socket.  The two queues
  belong to the session and are passed along.
\<close>

record cloop =
  alr_wr :: nat
  acc :: qblock
  is_active :: bool
  handlers :: nat         \<comment> \<open>\<open>on_message\<close> coroutines created\<close>
  wire :: "byte list"     \<comment> \<open>what the kernel took from \<open>write\<close>\<close>

definition cloop_init :: cloop where
  "cloop_init = \<lparr>alr_wr = 0, acc = qblock_init, is_active = True, handlers = 0, wire = []\<rparr>"

text \<open>
  \<open>cfull_write\<close>: the status, \<open>*alr_wr\<close>, and the bytes that the kernel took.  Any number of
  bytes, also 0, is the status 0.
\<close>

definition cfull_write :: "write_ans \<Rightarrow> byte list \<Rightarrow> nat \<Rightarrow> int \<times> nat \<times> byte list" where
  "cfull_write ans bs alr =
     (case ans of
        Wrote n \<Rightarrow> (0, alr + n, take n (drop alr bs))
      | WouldBlock \<Rightarrow> (1, alr, [])
      | WriteError \<Rightarrow> (-1, alr, []))"

text \<open>
  \<open>cfull_read\<close> goes on while the buffer comes back full: the status, the bytes collected and
  the answers not consumed; \<open>None\<close> when it would go on reading past the answers given.
\<close>

fun cfull_read :: "read_ans list \<Rightarrow> byte list \<Rightarrow> (int \<times> byte list \<times> read_ans list) option" where
  "cfull_read [] out = None"
| "cfull_read (ReadBytes bs ok # as) out =
     (if bs = [] then Some (2, out, as)
      else if \<not> ok then Some (-2, out, as)
      else if length bs = MAX_BUFFER_SIZE then cfull_read as (out @ bs)
      else Some (0, out @ bs, as))"
| "cfull_read (ReadEof # as) out = Some (2, out, as)"
| "cfull_read (ReadAgain # as) out = Some (1, out, as)"
| "cfull_read (ReadError # as) out = Some (-1, out, as)"

text \<open>
  One answer of \<open>poll\<close>: its return value, the two flags, and the answers of the system calls
  that follow.  \<open>pl_aok\<close> and \<open>pl_sok\<close> say whether the accumulator can be grown and shrunk.
\<close>

record poll_ev =
  pl_ret :: int
  pl_in :: bool
  pl_out :: bool
  pl_reads :: "read_ans list"
  pl_aok :: bool
  pl_sok :: bool
  pl_write :: write_ans

type_synonym cl_state = "cloop \<times> queue \<times> queue"

definition cl_readable :: "poll_ev \<Rightarrow> cl_state \<Rightarrow> cl_state res option" where
  "cl_readable ev st =
     (case st of (c, qr, qw) \<Rightarrow>
        case cfull_read (pl_reads ev) [] of
          None \<Rightarrow> None
        | Some (rstat, bs, _) \<Rightarrow>
            (if rstat = 2 then Some (Inr (c\<lparr>is_active := False\<rparr>, qr, qw))
             else case extract_packets (pl_sok ev) (acc_append (pl_aok ev) (acc c) bs) qr 0 of
               None \<Rightarrow> None
             | Some (Inl e) \<Rightarrow> Some (Inl e)
             | Some (Inr (a, qr, n)) \<Rightarrow>
                 Some (Inr (c\<lparr>acc := a, handlers := handlers c + n\<rparr>, qr, qw))))"

definition cl_writable :: "poll_ev \<Rightarrow> cl_state \<Rightarrow> cl_state res" where
  "cl_writable ev st =
     (case st of (c, qr, qw) \<Rightarrow>
        if queue_empty qw then Inr (c, qr, qw)
        else bind_res (peek_block qw (Some qblock_init)) (\<lambda>(_, b).
             case cfull_write (pl_write ev) (qb_bytes (the b)) (alr_wr c) of
               (ret, alr, bs) \<Rightarrow>
                 let c = c\<lparr>alr_wr := alr, wire := wire c @ bs\<rparr> in
                 if ret = 0
                 then bind_res (pop_block qw None) (\<lambda>(_, qw, _). Inr (c\<lparr>alr_wr := 0\<rparr>, qr, qw))
                 else Inr (c, qr, qw)))"

text \<open>The body of the loop.\<close>

definition on_poll :: "poll_ev \<Rightarrow> cl_state \<Rightarrow> cl_state res option" where
  "on_poll ev st =
     (if pl_ret ev = -1 then (case st of (c, q) \<Rightarrow> Some (Inr (c\<lparr>is_active := False\<rparr>, q)))
      else if pl_ret ev > 0 then
        (if pl_in ev then cl_readable ev st
         else if pl_out ev then Some (cl_writable ev st)
         else Some (Inr st))
      else Some (Inr st))"

fun run_client :: "poll_ev list \<Rightarrow> cl_state \<Rightarrow> cl_state res option" where
  "run_client [] st = Some (Inr st)"
| "run_client (ev # evs) st =
     (if is_active (fst st) then
        (case on_poll ev st of
           None \<Rightarrow> None
         | Some (Inl e) \<Rightarrow> Some (Inl e)
         | Some (Inr st) \<Rightarrow> run_client evs st)
      else Some (Inr st))"

subsection \<open>Invariant\<close>

text \<open>Between two polls the queues and the accumulator are well-formed and no write is pending.\<close>

definition cl_inv :: "cl_state \<Rightarrow> bool" where
  "cl_inv st \<longleftrightarrow> (case st of (c, qr, qw) \<Rightarrow>
     qb_wf (acc c) \<and> queue_inv qr \<and> queue_inv qw \<and> alr_wr c = 0)"

lemma cl_inv_init [simp, wf_intro]: "queue_inv qr \<Longrightarrow> queue_inv qw \<Longrightarrow> cl_inv (cloop_init, qr, qw)"
  by (simp add: cl_inv_def cloop_init_def)

lemma cfull_read_status: "cfull_read as out = Some (r, bs, rest) \<Longrightarrow> r \<in> {0, 1, 2, -1, -2}"
  by (induction as out rule: cfull_read.induct) (auto split: if_splits)

lemma cl_readable_frames:
  assumes inv: "cl_inv (c, qr, qw)" and rd: "cfull_read (pl_reads ev) [] = Some (r, bs, rest)" "r \<noteq> 2"
    and fr: "frames (qb_bytes (acc_append (pl_aok ev) (acc c) bs)) = Some (fs, t)"
  obtains a q where
    "cl_readable ev (c, qr, qw) = Some (Inr (c\<lparr>acc := a, handlers := handlers c + length fs\<rparr>, q, qw))"
    "qb_bytes a = t" "contents q = contents qr @ fs"
    "cl_inv (c\<lparr>acc := a, handlers := handlers c + length fs\<rparr>, q, qw)"
proof -
  have wf: "qb_wf (acc_append (pl_aok ev) (acc c) bs)" and q: "queue_inv qr"
    using inv by (simp_all add: cl_inv_def)
  obtain a q where ex: "extract_packets (pl_sok ev) (acc_append (pl_aok ev) (acc c) bs) qr 0
        = Some (Inr (a, q, 0 + length fs))"
    and w: "qb_wf a" "qb_bytes a = t" "queue_inv q" "contents q = contents qr @ fs"
    using extract_packets_frames [OF fr wf q, of "pl_sok ev" 0] by blast
  have "cl_readable ev (c, qr, qw) = Some (Inr (c\<lparr>acc := a, handlers := handlers c + length fs\<rparr>, q, qw))"
    using rd ex by (simp add: cl_readable_def)
  moreover have "cl_inv (c\<lparr>acc := a, handlers := handlers c + length fs\<rparr>, q, qw)"
    using w inv by (simp add: cl_inv_def)
  ultimately show thesis using that w by blast
qed

text \<open>Any number of bytes taken, and the whole block leaves the queue.\<close>

lemma cl_writable_wrote:
  assumes inv: "cl_inv (c, qr, qw)" and ne: "contents qw = x # xs" and w: "pl_write ev = Wrote n"
  shows "cl_writable ev (c, qr, qw) = Inr (c\<lparr>wire := wire c @ take n x\<rparr>, qr, dequeue qw)"
    and "cl_inv (c\<lparr>wire := wire c @ take n x\<rparr>, qr, dequeue qw)"
    and "contents (dequeue qw) = xs"
proof -
  have q: "queue_inv qw" and alr: "alr_wr c = 0" using inv by (simp_all add: cl_inv_def)
  have nn: "contents qw \<noteq> []" using ne by simp
  have upd: "c\<lparr>alr_wr := 0, wire := z\<rparr> = c\<lparr>wire := z\<rparr>" for z using alr by (cases c) simp
  show "cl_writable ev (c, qr, qw) = Inr (c\<lparr>wire := wire c @ take n x\<rparr>, qr, dequeue qw)"
    using queue_empty_iff [OF q] nn w ne alr
      peek_block_step [OF q nn, of "Some qblock_init"] pop_block_step(1) [OF q nn, of None]
    by (simp add: cl_writable_def cfull_write_def Let_def upd)
  show "cl_inv (c\<lparr>wire := wire c @ take n x\<rparr>, qr, dequeue qw)" and "contents (dequeue qw) = xs"
    using inv pop_block_step(2,3) [OF q nn] ne by (simp_all add: cl_inv_def)
qed

lemma cl_writable_stuck:
  assumes inv: "cl_inv (c, qr, qw)" and w: "pl_write ev = WouldBlock \<or> pl_write ev = WriteError"
  shows "cl_writable ev (c, qr, qw) = Inr (c, qr, qw)"
proof (cases "contents qw = []")
  case True
  then show ?thesis using inv by (simp add: cl_writable_def cl_inv_def queue_empty_iff)
next
  case False
  have q: "queue_inv qw" using inv by (simp add: cl_inv_def)
  have "c\<lparr>alr_wr := alr_wr c, wire := wire c @ []\<rparr> = c" by simp
  then show ?thesis
    using queue_empty_iff [OF q] False w peek_block_step [OF q False, of "Some qblock_init"]
    by (auto simp: cl_writable_def cfull_write_def Let_def)
qed

lemma cl_writable_idle:
  assumes "cl_inv (c, qr, qw)" and "contents qw = []"
  shows "cl_writable ev (c, qr, qw) = Inr (c, qr, qw)"
  using assms by (simp add: cl_writable_def cl_inv_def queue_empty_iff)

lemma cl_writable_inv:
  assumes inv: "cl_inv st"
  shows "\<exists>st'. cl_writable ev st = Inr st' \<and> cl_inv st' \<and> fst (snd st') = fst (snd st)"
proof -
  obtain c qr qw where st: "st = (c, qr, qw)" by (cases st)
  show ?thesis
  proof (cases "contents qw")
    case Nil
    then show ?thesis using cl_writable_idle inv st by auto
  next
    case (Cons x xs)
    then show ?thesis
      using cl_writable_wrote [of c qr qw x xs] cl_writable_stuck [of c qr qw] inv st
      by (cases "pl_write ev") auto
  qed
qed

subsection \<open>Runs\<close>

text \<open>A poll that finds the connection readable and reads the chunk \<open>bs\<close>.\<close>

definition reads_chunk :: "poll_ev \<Rightarrow> byte list \<Rightarrow> bool" where
  "reads_chunk ev bs \<longleftrightarrow> 0 < pl_ret ev \<and> pl_in ev \<and> pl_aok ev
     \<and> (\<exists>r rest. cfull_read (pl_reads ev) [] = Some (r, bs, rest) \<and> r \<noteq> 2)"

lemma run_client_feed_all:
  assumes "list_all2 reads_chunk evs cs" and "is_active c" and "cl_inv (c, qr, qw)"
    and "feed_all frames (qb_bytes (acc c)) cs = Some (fs, t)"
  shows "\<exists>c' qr'. run_client evs (c, qr, qw) = Some (Inr (c', qr', qw)) \<and> cl_inv (c', qr', qw)
     \<and> is_active c' \<and> handlers c' = handlers c + length fs \<and> qb_bytes (acc c') = t
     \<and> contents qr' = contents qr @ fs \<and> wire c' = wire c"
  using assms
proof (induction evs cs arbitrary: c qr fs rule: list_all2_induct)
  case Nil
  then show ?case by auto
next
  case (Cons ev evs b cs)
  obtain gs u hs where gs: "frames (qb_bytes (acc c) @ b) = Some (gs, u)"
    and hs: "feed_all frames u cs = Some (hs, t)" and fs: "fs = gs @ hs"
    using Cons.prems(3) by (auto split: option.splits)
  obtain r rest where rd: "0 < pl_ret ev" "pl_in ev" "pl_aok ev"
    "cfull_read (pl_reads ev) [] = Some (r, b, rest)" "r \<noteq> 2"
    using Cons.hyps(1) by (auto simp: reads_chunk_def)
  have fr: "frames (qb_bytes (acc_append (pl_aok ev) (acc c) b)) = Some (gs, u)"
    using gs rd(3) Cons.prems(2) by (simp add: cl_inv_def)
  obtain a q where st: "cl_readable ev (c, qr, qw)
        = Some (Inr (c\<lparr>acc := a, handlers := handlers c + length gs\<rparr>, q, qw))"
    and w: "qb_bytes a = u" "contents q = contents qr @ gs"
      "cl_inv (c\<lparr>acc := a, handlers := handlers c + length gs\<rparr>, q, qw)"
    by (rule cl_readable_frames [OF Cons.prems(2) rd(4,5) fr])
  let ?c = "c\<lparr>acc := a, handlers := handlers c + length gs\<rparr>"
  have act: "is_active ?c" and fd: "feed_all frames (qb_bytes (acc ?c)) cs = Some (hs, t)"
    using Cons.prems(1) hs w(1) by simp_all
  obtain c' qr' where "run_client evs (?c, q, qw) = Some (Inr (c', qr', qw))" "cl_inv (c', qr', qw)"
    "is_active c'" "handlers c' = handlers ?c + length hs" "qb_bytes (acc c') = t"
    "contents qr' = contents q @ hs" "wire c' = wire ?c"
    using Cons.IH [OF act w(3) fd] by blast
  moreover have "run_client (ev # evs) (c, qr, qw) = run_client evs (?c, q, qw)"
    using Cons.prems(1) rd st by (simp add: on_poll_def)
  ultimately show ?case using w(2) fs by auto
qed

text \<open>A poll that finds the connection writable and whose write takes everything.\<close>

definition writes_all :: "poll_ev \<Rightarrow> byte list \<Rightarrow> bool" where
  "writes_all ev bs \<longleftrightarrow> 0 < pl_ret ev \<and> \<not> pl_in ev \<and> pl_out ev \<and> pl_write ev = Wrote (length bs)"

lemma run_client_writes:
  assumes "list_all2 writes_all evs xs" and "is_active c" and "cl_inv (c, qr, qw)"
    and "contents qw = xs @ ys"
  shows "\<exists>c' qw'. run_client evs (c, qr, qw) = Some (Inr (c', qr, qw')) \<and> cl_inv (c', qr, qw')
     \<and> is_active c' \<and> wire c' = wire c @ concat xs \<and> contents qw' = ys \<and> acc c' = acc c
     \<and> handlers c' = handlers c"
  using assms
proof (induction evs xs arbitrary: c qw rule: list_all2_induct)
  case Nil
  then show ?case by auto
next
  case (Cons ev evs x xs)
  let ?c = "c\<lparr>wire := wire c @ x\<rparr>"
  have ev: "0 < pl_ret ev" "\<not> pl_in ev" "pl_out ev" "pl_write ev = Wrote (length x)"
    using Cons.hyps(1) by (simp_all add: writes_all_def)
  have qw: "contents qw = x # xs @ ys" using Cons.prems(3) by simp
  note st = cl_writable_wrote [OF Cons.prems(2) qw ev(4)]
  have "run_client (ev # evs) (c, qr, qw) = run_client evs (?c, qr, dequeue qw)"
    using Cons.prems(1) ev st(1) by (simp add: on_poll_def)
  moreover obtain c' qw' where "run_client evs (?c, qr, dequeue qw) = Some (Inr (c', qr, qw'))"
    "cl_inv (c', qr, qw')" "is_active c'" "wire c' = wire ?c @ concat xs" "contents qw' = ys"
    "acc c' = acc ?c" "handlers c' = handlers ?c"
    using Cons.IH [of ?c "dequeue qw"] Cons.prems(1) st(2,3) by auto
  ultimately show ?case by auto
qed

end
