(* ===== verification/Waiter.thy ===== *)
theory Waiter
  imports Interfaces Floats
begin

text \<open>
  The waiters of \<open>code/DCN/src/asyncio.c\<close>: a flag with a mutex and a condition variable.
  The first part is what each call does between two blocking points; the second runs
  \<open>waiter_wait\<close> and \<open>waiter_set\<close> one atomic action at a time, where the mutex that
  \<open>waiter_set\<close> does not take shows.  Wake-ups without a cause, which C permits, are left out.
\<close>

record waiter =
  is_ready :: bool
  wt_live :: bool   \<comment> \<open>\<open>cmtx\<close> and \<open>wcond\<close> are allocated; both are \<open>NULL\<close> otherwise\<close>

definition waiter_init :: waiter where
  "waiter_init = \<lparr>is_ready = False, wt_live = True\<rparr>"

text \<open>\<open>waiter_wait\<close>: \<open>None\<close> while it blocks.\<close>

definition waiter_wait :: "waiter \<Rightarrow> waiter res option" where
  "waiter_wait wt =
     (if \<not> wt_live wt then Some (Inl NullAccess)
      else if is_ready wt then Some (Inr (wt\<lparr>is_ready := False\<rparr>))
      else None)"

text \<open>
  \<open>waiter_wait_for\<close>: \<open>neg\<close> says whether the timeout is negative (wait without a limit),
  \<open>expired\<close> whether the time is up.
\<close>

definition waiter_wait_for :: "bool \<Rightarrow> bool \<Rightarrow> waiter \<Rightarrow> (bool \<times> waiter) res option" where
  "waiter_wait_for neg expired wt =
     (if neg then (case waiter_wait wt of
          None \<Rightarrow> None | Some (Inl e) \<Rightarrow> Some (Inl e) | Some (Inr wt) \<Rightarrow> Some (Inr (True, wt)))
      else if \<not> wt_live wt then Some (Inl NullAccess)
      else if is_ready wt then Some (Inr (True, wt\<lparr>is_ready := False\<rparr>))
      else if expired then Some (Inr (False, wt))
      else None)"

text \<open>
  The absolute deadline: \<open>now\<close> is the clock as seconds and nanoseconds, \<open>d\<close> the timeout.
  \<open>None\<close> is undefined behaviour: a timeout out of the range of \<open>time_t\<close>, or a sum that is.
\<close>

definition ts_add :: "int \<times> int \<Rightarrow> int \<Rightarrow> int \<Rightarrow> int \<times> int" where
  "ts_add now sec nsec =
     (let s = fst now + sec; n = snd now + nsec
      in if n \<ge> 1000000000 then (s + n div 1000000000, n mod 1000000000) else (s, n))"

definition wait_deadline :: "int \<times> int \<Rightarrow> cfloat \<Rightarrow> (int \<times> int) option" where
  "wait_deadline now d =
     (case split_seconds 53 d of
        None \<Rightarrow> None
      | Some (sec, nsec) \<Rightarrow>
          let t = ts_add now sec (if nsec < 0 then 0 else nsec)
          in if fst t < 2 ^ 63 then Some t else None)"

definition waiter_set :: "waiter \<Rightarrow> waiter res" where
  "waiter_set wt = (if wt_live wt then Inr (wt\<lparr>is_ready := True\<rparr>) else Inl NullAccess)"

definition waiter_free :: "waiter \<Rightarrow> waiter res" where
  "waiter_free wt = (if wt_live wt then Inr (wt\<lparr>wt_live := False\<rparr>) else Inl NullAccess)"

lemma waiter_simps [crt]:
  "wt_live wt \<Longrightarrow> waiter_set wt = Inr (wt\<lparr>is_ready := True\<rparr>)"
  "wt_live wt \<Longrightarrow> waiter_free wt = Inr (wt\<lparr>wt_live := False\<rparr>)"
  "wt_live wt \<Longrightarrow> is_ready wt \<Longrightarrow> waiter_wait wt = Some (Inr (wt\<lparr>is_ready := False\<rparr>))"
  "wt_live wt \<Longrightarrow> \<not> is_ready wt \<Longrightarrow> waiter_wait wt = None"
  by (simp_all add: waiter_set_def waiter_free_def waiter_wait_def)

lemma waiter_init_simps [simp]: "wt_live waiter_init" "\<not> is_ready waiter_init"
  by (simp_all add: waiter_init_def)

text \<open>C40: the deadline of a wait is a proper \<open>timespec\<close>, and it lies the timeout after the present
  time, to less than two nanoseconds, for every timeout of \<open>double\<close> that is not negative and for which the
  seconds of the deadline fit into \<open>time_t\<close>; beyond that the conversion in C is undefined.\<close>

theorem deadline_is_timeout:
  assumes d: "is_fl 53 d" "0 \<le> fst d" and now: "0 \<le> fst now" "0 \<le> snd now" "snd now < 1000000000"
    and range: "fst now + fl_trunc d + 1 < 2 ^ 63"
  shows "\<exists>s n. wait_deadline now d = Some (s, n) \<and> 0 \<le> n \<and> n < 1000000000
     \<and> \<bar>of_int (s * 1000000000 + n - (fst now * 1000000000 + snd now)) - fl_val d * 1000000000\<bar> < 2"
proof -
  have fits: "fl_trunc d < 2 ^ 63" using range now(1) by simp
  obtain sec nsec where parts: "split_seconds 53 d = Some (sec, nsec)" "sec = fl_trunc d" "0 \<le> nsec" "nsec < 1000000000"
    and err: "\<bar>of_int (sec * 1000000000 + nsec) - fl_val d * 1000000000\<bar> < 2"
    using split_seconds_ok [OF d fits] by auto
  define t where "t = ts_add now sec nsec"
  have t: "0 \<le> snd t" "snd t < 1000000000" "fst t \<le> fst now + sec + 1"
    "fst t * 1000000000 + snd t - (fst now * 1000000000 + snd now) = sec * 1000000000 + nsec"
    using now parts(3,4) by (auto simp: t_def ts_add_def Let_def)
  have "fst t < 2 ^ 63" using t(3) range parts(2) by simp
  then have "wait_deadline now d = Some t"
    using parts(1,3) by (simp add: wait_deadline_def Let_def flip: t_def)
  with t err show ?thesis by (intro exI [of _ "fst t"] exI [of _ "snd t"]) simp
qed

text \<open>One and a half seconds.\<close>

theorem deadline_is_timeout_witness:
  "wait_deadline (5, 700000000) (3, -1) = Some (7, 200000000)
     \<and> (\<exists>s n. wait_deadline (5, 700000000) (3, -1) = Some (s, n) \<and> 0 \<le> n \<and> n < 1000000000)"
proof
  have one: "fl_trunc (3, -1) = 1" using sdiv_pow [of 3 1] by (simp add: fl_trunc_def)
  have half: "fl_trunc (1000000000, -1) = 500000000" using sdiv_pow [of 1000000000 1] by (simp add: fl_trunc_def)
  have "split_seconds 53 (3, -1) = Some (1, 500000000)"
    by (simp add: split_seconds_def fl_to_long_def one billion fl_of_int_fits fl_sub_def fl_mul_def round_int_fits half)
  then show "wait_deadline (5, 700000000) (3, -1) = Some (7, 200000000)" by (simp add: wait_deadline_def ts_add_def Let_def)
  show "\<exists>s n. wait_deadline (5, 700000000) (3, -1) = Some (s, n) \<and> 0 \<le> n \<and> n < 1000000000"
    using deadline_is_timeout [of "(3, -1)" "(5, 700000000)"] one by (auto simp: is_fl_def)
qed

subsection \<open>One action at a time\<close>

text \<open>
  The states of a thread in \<open>waiter_wait\<close>.  \<open>WTest\<close> to \<open>WClear\<close> and \<open>WUnlock\<close> hold
  \<open>cmtx\<close>; \<open>WBlock\<close> has found the flag clear and is about to call \<open>cnd_wait\<close>, which
  releases the mutex and falls asleep in one action.
\<close>

datatype wpc = WLock | WTest | WBlock | WAsleep | WWoken | WClear | WUnlock | WDone

text \<open>A thread in \<open>waiter_set\<close>: before the store, between the store and the broadcast, after.\<close>

datatype spc = SStore | SCast | SDone

record wsys =
  wflag :: bool
  wheld :: bool          \<comment> \<open>\<open>cmtx\<close> is locked\<close>
  wpc :: wpc
  spc :: "nat \<Rightarrow> spc"    \<comment> \<open>the setters, by number\<close>

definition wsys_init :: "wsys \<Rightarrow> bool" where
  "wsys_init s \<longleftrightarrow> \<not> wflag s \<and> \<not> wheld s \<and> wpc s = WLock \<and> (\<forall>i. spc s i = SStore)"

inductive wstep :: "nat \<Rightarrow> wsys \<Rightarrow> wsys \<Rightarrow> bool" for n where
  w_lock: "wpc s = WLock \<Longrightarrow> \<not> wheld s \<Longrightarrow> wstep n s (s\<lparr>wpc := WTest, wheld := True\<rparr>)"
| w_test: "wpc s = WTest \<Longrightarrow> wstep n s (s\<lparr>wpc := if wflag s then WClear else WBlock\<rparr>)"
| w_block: "wpc s = WBlock \<Longrightarrow> wstep n s (s\<lparr>wpc := WAsleep, wheld := False\<rparr>)"
| w_relock: "wpc s = WWoken \<Longrightarrow> \<not> wheld s \<Longrightarrow> wstep n s (s\<lparr>wpc := WTest, wheld := True\<rparr>)"
| w_clear: "wpc s = WClear \<Longrightarrow> wstep n s (s\<lparr>wpc := WUnlock, wflag := False\<rparr>)"
| w_unlock: "wpc s = WUnlock \<Longrightarrow> wstep n s (s\<lparr>wpc := WDone, wheld := False\<rparr>)"
| s_store: "i < n \<Longrightarrow> spc s i = SStore \<Longrightarrow> wstep n s (s\<lparr>spc := (spc s)(i := SCast), wflag := True\<rparr>)"
| s_cast: "i < n \<Longrightarrow> spc s i = SCast \<Longrightarrow> wstep n s (s\<lparr>spc := (spc s)(i := SDone),
     wpc := (if wpc s = WAsleep then WWoken else wpc s)\<rparr>)"

text \<open>
  What the code does guarantee: the mutex is held exactly inside the critical section, the waiter
  returns only when the flag was set, and a waiter that sleeps on a clear flag has not been
  overlooked: no setter has stored.
\<close>

definition holding :: "wpc \<Rightarrow> bool" where
  "holding p \<longleftrightarrow> p \<in> {WTest, WBlock, WClear, WUnlock}"

definition stored :: "wsys \<Rightarrow> bool" where
  "stored s \<longleftrightarrow> (\<exists>i. spc s i \<noteq> SStore)"

lemma stored_simps [simp]:
  "stored (s\<lparr>wpc := p\<rparr>) = stored s" "stored (s\<lparr>wheld := b\<rparr>) = stored s"
  "stored (s\<lparr>wflag := b\<rparr>) = stored s"
  "x \<noteq> SStore \<Longrightarrow> stored (s\<lparr>spc := (spc s)(i := x)\<rparr>)"
  by (auto simp: stored_def)

definition wsys_inv :: "wsys \<Rightarrow> bool" where
  "wsys_inv s \<longleftrightarrow> (wheld s \<longleftrightarrow> holding (wpc s))
     \<and> (wpc s \<noteq> WUnlock \<longrightarrow> wpc s \<noteq> WDone \<longrightarrow> (wflag s \<longleftrightarrow> stored s))
     \<and> (wpc s = WClear \<or> wpc s = WUnlock \<or> wpc s = WDone \<longrightarrow> stored s)"

lemma wsys_inv_next: "wstep n s t \<Longrightarrow> wsys_inv s \<Longrightarrow> wsys_inv t"
proof (induction rule: wstep.induct)
  case (s_store i s)
  then show ?case by (simp add: wsys_inv_def)
next
  case (s_cast i s)
  then have "stored s" by (auto simp: stored_def intro: exI [of _ i])
  with s_cast show ?case by (simp add: wsys_inv_def holding_def)
qed (simp_all add: wsys_inv_def holding_def)

interpretation wp: invariant_of wsys_init "wstep n" wsys_inv for n
proof
  show "wsys_inv s" if "wsys_init s" for s
    using that by (simp add: wsys_inv_def wsys_init_def holding_def stored_def)
  show "wsys_inv t" if "wsys_inv s" and "wstep n s t" for s t
    by (rule wsys_inv_next [OF that(2,1)])
qed

subsection \<open>A wake-up that is lost\<close>

text \<open>The waiter has found the flag clear; \<open>k\<close> of the setters have run to their end since.\<close>

definition set_behind :: "nat \<Rightarrow> wsys" where
  "set_behind k = \<lparr>wflag = (0 < k), wheld = True, wpc = WBlock, spc = (\<lambda>i. if i < k then SDone else SStore)\<rparr>"

lemma set_behind_0: "reach wsys_init (wstep n) (set_behind 0)"
proof -
  let ?s = "\<lparr>wflag = False, wheld = False, wpc = WLock, spc = (\<lambda>i. SStore)\<rparr>"
  have "wstep n ?s (?s\<lparr>wpc := WTest, wheld := True\<rparr>)" by (rule w_lock) simp_all
  moreover have "wstep n (?s\<lparr>wpc := WTest, wheld := True\<rparr>) (set_behind 0)"
    using w_test [of "?s\<lparr>wpc := WTest, wheld := True\<rparr>" n] by (simp add: set_behind_def)
  moreover have "wsys_init ?s" by (simp add: wsys_init_def)
  ultimately show ?thesis by (blast intro: reach.intros)
qed

lemma set_behind_Suc:
  assumes "reach wsys_init (wstep n) (set_behind k)" and "k < n"
  shows "reach wsys_init (wstep n) (set_behind (Suc k))"
proof -
  let ?s = "set_behind k" and ?t = "(set_behind k)\<lparr>spc := (spc (set_behind k))(k := SCast), wflag := True\<rparr>"
  have "wstep n ?s ?t" by (rule s_store [OF assms(2)]) (simp add: set_behind_def)
  then have r: "reach wsys_init (wstep n) ?t" by (rule reach_step [OF assms(1)])
  have "wstep n ?t (?t\<lparr>spc := (spc ?t)(k := SDone), wpc := (if wpc ?t = WAsleep then WWoken else wpc ?t)\<rparr>)"
    by (rule s_cast [OF assms(2)]) simp
  also have "?t\<lparr>spc := (spc ?t)(k := SDone), wpc := (if wpc ?t = WAsleep then WWoken else wpc ?t)\<rparr> = set_behind (Suc k)"
    by (auto simp: set_behind_def fun_eq_iff)
  finally show ?thesis by (rule reach_step [OF r])
qed

lemma set_behind_reach: "k \<le> n \<Longrightarrow> reach wsys_init (wstep n) (set_behind k)"
  by (induction k) (simp_all add: set_behind_0 set_behind_Suc)

lemma asleep_stuck:
  assumes "wpc s = WAsleep" and "\<forall>i < n. spc s i = SDone"
  shows "\<not> wstep n s t"
  using assms by (auto elim: wstep.cases)

text \<open>A wake-up can be lost: whatever the number of calls of \<open>waiter_set\<close>, there is an
  execution in which all of them return, the flag is set, and the thread in \<open>waiter_wait\<close> is
  asleep with nobody left to wake it.\<close>

theorem waiter_oversleeps:
  assumes "0 < n"
  shows "\<exists>s. reach wsys_init (wstep n) s \<and> wflag s \<and> wpc s = WAsleep
     \<and> (\<forall>i < n. spc s i = SDone) \<and> (\<forall>t. \<not> wstep n s t)"
proof -
  let ?s = "(set_behind n)\<lparr>wpc := WAsleep, wheld := False\<rparr>"
  have "wstep n (set_behind n) ?s" by (rule w_block) (simp add: set_behind_def)
  then have "reach wsys_init (wstep n) ?s" by (rule reach_step [OF set_behind_reach [OF order_refl]])
  moreover have "wflag ?s" "wpc ?s = WAsleep" "\<forall>i < n. spc ?s i = SDone"
    using assms by (simp_all add: set_behind_def)
  ultimately show ?thesis using asleep_stuck by blast
qed

theorem waiter_oversleeps_witness:
  "\<exists>s. reach wsys_init (wstep 1) s \<and> wflag s \<and> wpc s = WAsleep \<and> (\<forall>t. \<not> wstep 1 s t)"
  using waiter_oversleeps [of 1] by auto

text \<open>What the waiter does promise: it returns only after a \<open>waiter_set\<close> has stored the
  flag, it sleeps on a clear flag only when no \<open>waiter_set\<close> has begun, and it holds its mutex
  exactly from the lock to \<open>cnd_wait\<close> or the unlock.\<close>

theorem waiter_returns_when_set:
  assumes "reach wsys_init (wstep n) s"
  shows "(wpc s = WDone \<longrightarrow> (\<exists>i. spc s i \<noteq> SStore))
     \<and> (wpc s = WAsleep \<longrightarrow> \<not> wflag s \<longrightarrow> (\<forall>i. spc s i = SStore))
     \<and> (wheld s \<longleftrightarrow> holding (wpc s))"
  using wp.reach_inv [OF assms] by (auto simp: wsys_inv_def stored_def)

theorem waiter_returns_when_set_witness:
  "\<exists>s. reach wsys_init (wstep 1) s \<and> wpc s = WBlock \<and> (wheld s \<longleftrightarrow> holding (wpc s))"
  using waiter_returns_when_set [OF set_behind_0 [of 1]] set_behind_0 [of 1]
  by (intro exI [of _ "set_behind 0"]) (simp add: set_behind_def)

end
