(* ===== verification/DcnClient.thy ===== *)
theory DcnClient
  imports NetClient DMap Waiter
begin

text \<open>
  The DCN client of \<open>code/DCN/src/dnet/client.c\<close>: the session, the handler of received
  packets, requests and their answers, and the coroutines behind \<open>request\<close>, \<open>ping\<close>,
  \<open>async_grequests\<close> and the traceroute calls.

  A coroutine runs in a thread of the pool and may be interrupted where it blocks, and inside
  \<open>dcn_request\<close> between the push on the write queue and the registration of its waiter.  The
  model has one definition per stretch between two such points; type \<open>coro\<close> names the points.

  A packet that \<open>responses\<close> points to is owned by that map and is a value here; the waiters
  are shared and live in a heap, field \<open>waiters\<close>.  Log output is left out.
\<close>

datatype RESP_CODE =
  UNDEFINED_ERROR | FROM_USER | NO_SUCH_USER | OK_STATUS | FORBIDEN_UID | NO_DATA | SERVER_ERROR

record usr_resp =
  requests :: queue
  cm_responses :: "(ullong, packet) cmap"  \<comment> \<open>\<open>responses\<close>, by \<open>cmuid\<close>\<close>

record usr_waiter =
  req_waiter :: addr
  resp_waiter :: addr

record session =
  cli_uid :: ullong
  last_muid :: ullong
  last_c_muids :: "(ullong, ullong) cmap"
  readq :: queue
  writeq :: queue
  responses :: "(ullong, packet) cmap"
  cnd_responses :: "(ullong, addr) cmap"
  usr_responses :: "(ullong, usr_resp) cmap"
  usr_waiters :: "(ullong, usr_waiter) cmap"
  any_waiter :: waiter                       \<comment> \<open>\<open>session->req_waiter\<close>\<close>
  trr_responses :: "(ullong, ullong) cmap"
  trr_requests :: queue
  trr_waiter :: waiter
  usr_responses_mtx :: mtx
  usr_waiters_mtx :: mtx
  stray_unlocks :: nat    \<comment> \<open>\<open>mtx_unlock\<close> calls on a mutex that nobody held\<close>
  waiters :: "addr \<rightharpoonup> waiter"

definition usr_resp_size :: nat where
  "usr_resp_size = 88"

definition dcn_new_session :: "ullong \<Rightarrow> session" where
  "dcn_new_session uid =
     \<lparr>cli_uid = uid, last_muid = 1, last_c_muids = map_init 8 8,
      readq = queue_init, writeq = queue_init,
      responses = map_init 8 8, cnd_responses = map_init 8 8,
      usr_responses = map_init 8 usr_resp_size, usr_waiters = map_init 8 16,
      any_waiter = waiter_init, trr_responses = map_init 8 8, trr_requests = queue_init,
      trr_waiter = waiter_init, usr_responses_mtx = Mtx 0, usr_waiters_mtx = Mtx 0,
      stray_unlocks = 0, waiters = Map.empty\<rparr>"

subsection \<open>Waiters and the mutex of \<open>usr_responses\<close>\<close>

definition wake :: "addr \<Rightarrow> session \<Rightarrow> session res" where
  "wake a s =
     (case waiters s a of
        None \<Rightarrow> Inl UseAfterFree
      | Some w \<Rightarrow> bind_res (waiter_set w) (\<lambda>w. Inr (s\<lparr>waiters := (waiters s)(a \<mapsto> w)\<rparr>)))"

definition lock_ur :: "session \<Rightarrow> session" where
  "lock_ur s = s\<lparr>usr_responses_mtx := mtx_lock (usr_responses_mtx s)\<rparr>"

definition unlock_ur :: "session \<Rightarrow> session" where
  "unlock_ur s =
     s\<lparr>usr_responses_mtx := mtx_unlock (usr_responses_mtx s),
       stray_unlocks := stray_unlocks s + (if usr_responses_mtx s = Mtx 0 then 1 else 0)\<rparr>"

subsection \<open>Received packets\<close>

text \<open>The packet that \<open>alc_calloc\<close> clears.\<close>

definition zero_packet :: packet where
  "zero_packet =
     \<lparr>packtype = 0, from_os = False, from_uid = 0, to_uid = 0, trav_fuid = 0, trav_tuid = 0,
      muid = 0, cmuid = 0, pdata = qblock_init\<rparr>"

definition is_response_pack :: "packet \<Rightarrow> bool" where
  "is_response_pack pack \<longleftrightarrow> packtype pack = pt_code RESPONSE"

text \<open>Filing a packet of another user under its sender.\<close>

definition file_user_packet :: "packet \<Rightarrow> usr_resp \<Rightarrow> usr_resp res" where
  "file_user_packet pack targ =
     (if \<not> is_response_pack pack then
        bind_res (packet_serial pack) (\<lambda>blk.
        bind_res (push_block True (requests targ) blk) (\<lambda>(_, q). Inr (targ\<lparr>requests := q\<rparr>)))
      else
        bind_res (copy_packet pack) (\<lambda>cp.
        Inr (targ\<lparr>cm_responses := map_put (cmuid pack) cp (cm_responses targ)\<rparr>)))"

definition usr_resp_init :: usr_resp where
  "usr_resp_init = \<lparr>requests = queue_init, cm_responses = map_init 8 8\<rparr>"

definition file_message :: "packet \<Rightarrow> session \<Rightarrow> session res" where
  "file_message pack s =
     (let s = lock_ur s in
      bind_res (case map_ptr (usr_responses s) (from_uid pack) of
          Some (inx, targ) \<Rightarrow> bind_res (file_user_packet pack targ) (\<lambda>targ.
            Inr (s\<lparr>usr_responses := (usr_responses s)\<lparr>mvals := (mvals (usr_responses s))[inx := targ]\<rparr>\<rparr>))
        | None \<Rightarrow> bind_res (file_user_packet pack usr_resp_init) (\<lambda>loc.
            Inr (s\<lparr>usr_responses := map_put (from_uid pack) loc (usr_responses s)\<rparr>)))
      (\<lambda>s. Inr (unlock_ur s)))"

text \<open>Waking the coroutine that waits for this user, and the one that waits for anybody.\<close>

definition notify_user :: "packet \<Rightarrow> session \<Rightarrow> session res" where
  "notify_user pack s =
     bind_res (case map_ptr (usr_waiters s) (from_uid pack) of
         Some (_, w) \<Rightarrow> wake (if is_response_pack pack then resp_waiter w else req_waiter w) s
       | None \<Rightarrow> Inr s)
     (\<lambda>s. if is_response_pack pack then Inr s
          else bind_res (waiter_set (any_waiter s)) (\<lambda>w. Inr (s\<lparr>any_waiter := w\<rparr>)))"

definition on_user_message :: "packet \<Rightarrow> session \<Rightarrow> session res" where
  "on_user_message pack s = bind_res (file_message pack s) (notify_user pack)"

text \<open>The last step of the handler: wake the request that carries this number.\<close>

definition wake_request :: "ullong \<Rightarrow> session \<Rightarrow> session res" where
  "wake_request m s =
     (case map_ptr (cnd_responses s) m of
        Some (_, a) \<Rightarrow> wake a s
      | None \<Rightarrow> Inr s)"

text \<open>
  \<open>__dcn_on_message\<close>; \<open>trp0\<close> is the indeterminate local of the traceroute branch.  The
  status of \<open>packet_deserial\<close> and \<open>trp_data_deserial\<close> is not looked at.
\<close>

definition dispatch_message :: "trp_data \<Rightarrow> packet \<Rightarrow> session \<Rightarrow> session res" where
  "dispatch_message trp0 pack s =
     (if to_uid pack \<noteq> cli_uid s then Inr s
      else if from_os pack then on_user_message pack s
      else if packtype pack = pt_code TRACEROUTE then
        bind_res (trp_data_deserial trp0 (pdata pack)) (\<lambda>(_, d).
        if \<not> is_response d then
          bind_res (qblock_fill qblock_init (le_bytes 8 (req_uid d))) (\<lambda>req.
          bind_res (push_block True (trr_requests s) req) (\<lambda>(_, q).
          bind_res (waiter_set (trr_waiter s)) (\<lambda>w.
          Inr (s\<lparr>trr_requests := q, trr_waiter := w\<rparr>))))
        else wake_request (muid pack) s)
      else wake_request (muid pack) (s\<lparr>responses := map_put (muid pack) pack (responses s)\<rparr>))"

definition dcn_on_message :: "trp_data \<Rightarrow> session \<Rightarrow> session res" where
  "dcn_on_message trp0 s =
     bind_res (pop_block (readq s) (Some qblock_init)) (\<lambda>(r, q, input).
     let s = s\<lparr>readq := q\<rparr> in
     if r = 1 then Inr s
     else bind_res (packet_deserial zero_packet (the input)) (\<lambda>(_, pack).
          dispatch_message trp0 pack s))"

subsection \<open>Requests to the server\<close>

text \<open>\<open>dcn_request\<close> up to the push on the write queue, and the rest of it.\<close>

definition dcn_post :: "packet \<Rightarrow> ullong \<Rightarrow> session \<Rightarrow> (packet \<times> session) res" where
  "dcn_post pack to s =
     (let pack = pack\<lparr>from_uid := cli_uid s, to_uid := to, from_os := False, muid := last_muid s\<rparr> in
      bind_res (packet_serial pack) (\<lambda>blk.
      bind_res (push_block True (writeq s) blk) (\<lambda>(_, q). Inr (pack, s\<lparr>writeq := q\<rparr>))))"

definition dcn_watch :: "addr \<Rightarrow> packet \<Rightarrow> session \<Rightarrow> session" where
  "dcn_watch wt pack s =
     s\<lparr>last_muid := last_muid s + 1, waiters := (waiters s)(wt \<mapsto> waiter_init),
       cnd_responses := map_put (muid pack) wt (cnd_responses s)\<rparr>"

definition dcn_request :: "addr \<Rightarrow> packet \<Rightarrow> ullong \<Rightarrow> session \<Rightarrow> (ullong \<times> packet \<times> session) res" where
  "dcn_request wt pack to s =
     bind_res (dcn_post pack to s) (\<lambda>(pack, s). Inr (muid pack, pack, dcn_watch wt pack s))"

text \<open>\<open>wait_response\<close>: \<open>None\<close> while it blocks.  The waiter object itself is not freed.\<close>

definition wait_response :: "addr \<Rightarrow> ullong \<Rightarrow> session \<Rightarrow> session res option" where
  "wait_response wt m s =
     (case waiters s wt of
        None \<Rightarrow> Some (Inl UseAfterFree)
      | Some w \<Rightarrow> (case waiter_wait w of
          None \<Rightarrow> None
        | Some r \<Rightarrow> Some (bind_res r (\<lambda>w. bind_res (waiter_free w) (\<lambda>w.
            Inr (s\<lparr>waiters := (waiters s)(wt \<mapsto> w),
                   cnd_responses := map_del m (cnd_responses s)\<rparr>))))))"

fun resp_code :: "32 word \<Rightarrow> RESP_CODE" where
  "resp_code c =
     (if c = 101 then NO_SUCH_USER else if c = 102 then FORBIDEN_UID else if c = 103 then NO_DATA
      else if c = 200 then OK_STATUS else if c = 500 then SERVER_ERROR else UNDEFINED_ERROR)"

declare resp_code.simps [simp del]

text \<open>\<open>dcn_getresp\<close>: \<open>pack\<close> is the caller's packet, \<open>cmuid\<close> is not copied into it.\<close>

definition dcn_getresp ::
  "ullong \<Rightarrow> packet \<Rightarrow> session \<Rightarrow> (bool \<times> packet \<times> RESP_CODE \<times> session) res" where
  "dcn_getresp resp_n pack s =
     (case map_ptr (responses s) resp_n of
        None \<Rightarrow> Inr (False, pack, UNDEFINED_ERROR, s)
      | Some (_, src) \<Rightarrow>
          bind_res (qblock_dup qblock_init (pdata src)) (\<lambda>b.
          let pack = pack\<lparr>from_uid := from_uid src, to_uid := to_uid src, from_os := from_os src,
                          packtype := packtype src, muid := muid src, trav_fuid := trav_fuid src,
                          trav_tuid := trav_tuid src, pdata := b\<rparr>;
              s = s\<lparr>responses := map_del resp_n (responses s)\<rparr>
          in if from_uid pack = 0 then
               bind_res (memcpy_from (data (pdata pack)) 4) (\<lambda>bs.
               Inr (True, pack, resp_code (le_word bs), s))
             else Inr (True, pack, FROM_USER, s)))"

subsection \<open>Invariant\<close>

text \<open>What a request queue holds: the bytes of packets.\<close>

definition holds_packets :: "byte list list \<Rightarrow> bool" where
  "holds_packets fs \<longleftrightarrow> (\<forall>f \<in> set fs. \<exists>p. packet_wf p \<and> f = packet_bytes p)"

definition usr_resp_ok :: "usr_resp \<Rightarrow> bool" where
  "usr_resp_ok r \<longleftrightarrow> queue_inv (requests r) \<and> holds_packets (contents (requests r))
     \<and> map_ok (cm_responses r) \<and> (\<forall>c p. map_get (cm_responses r) c = Some p \<longrightarrow> packet_wf p)"

text \<open>A packet that the server may send: an answer of its own carries a code.\<close>

definition msg_ok :: "packet \<Rightarrow> bool" where
  "msg_ok p \<longleftrightarrow> packet_wf p \<and> (\<not> from_os p \<longrightarrow>
     packtype p \<noteq> pt_code TRACEROUTE \<and> (from_uid p = 0 \<longrightarrow> 4 \<le> dsize (pdata p)))"

definition waiter_live :: "session \<Rightarrow> addr \<Rightarrow> bool" where
  "waiter_live s a \<longleftrightarrow> (\<exists>w. waiters s a = Some w \<and> wt_live w)"

definition sess_ok :: "session \<Rightarrow> bool" where
  "sess_ok s \<longleftrightarrow>
     queue_inv (readq s) \<and> queue_inv (writeq s) \<and> queue_inv (trr_requests s)
     \<and> map_ok (last_c_muids s) \<and> map_ok (responses s) \<and> map_ok (cnd_responses s)
     \<and> map_ok (usr_responses s) \<and> map_ok (usr_waiters s)
     \<and> wt_live (any_waiter s) \<and> wt_live (trr_waiter s) \<and> usr_responses_mtx s = Mtx 0
     \<and> (\<forall>m p. map_get (responses s) m = Some p \<longrightarrow> msg_ok p \<and> \<not> from_os p)
     \<and> (\<forall>u r. map_get (usr_responses s) u = Some r \<longrightarrow> usr_resp_ok r)
     \<and> (\<forall>m a. map_get (cnd_responses s) m = Some a \<longrightarrow> waiter_live s a)
     \<and> (\<forall>u w. map_get (usr_waiters s) u = Some w
          \<longrightarrow> waiter_live s (req_waiter w) \<and> waiter_live s (resp_waiter w))"

lemma sess_ok_new [simp]: "sess_ok (dcn_new_session uid)"
  by (simp add: sess_ok_def dcn_new_session_def usr_resp_size_def)

lemma wakeE:
  assumes "waiter_live s a"
  obtains w where "waiters s a = Some w" "wt_live w"
    "wake a s = Inr (s\<lparr>waiters := (waiters s)(a \<mapsto> w\<lparr>is_ready := True\<rparr>)\<rparr>)"
  using assms by (auto simp: waiter_live_def wake_def waiter_set_def)

lemma waiter_live_wake [simp]:
  "wt_live w \<Longrightarrow> waiter_live (s\<lparr>waiters := (waiters s)(a \<mapsto> w)\<rparr>) b \<longleftrightarrow> b = a \<or> waiter_live s b"
  by (auto simp: waiter_live_def)

text \<open>Waking keeps the invariant: the state differs in one live waiter's flag.\<close>

lemma sess_ok_waiter:
  assumes "sess_ok s" and "wt_live w"
  shows "sess_ok (s\<lparr>waiters := (waiters s)(a \<mapsto> w)\<rparr>)"
  using assms by (auto simp: sess_ok_def)

subsection \<open>What a session has received\<close>

text \<open>
  The abstract view: the requests of each user in order of arrival, their responses by \<open>cmuid\<close>,
  and the server's answers by \<open>muid\<close>.
\<close>

record mailbox =
  mb_requests :: "ullong \<Rightarrow> byte list list"
  mb_replies :: "ullong \<Rightarrow> ullong \<rightharpoonup> packet"
  mb_answers :: "ullong \<rightharpoonup> packet"

definition user_requests :: "session \<Rightarrow> ullong \<Rightarrow> byte list list" where
  "user_requests s u = (case map_get (usr_responses s) u of None \<Rightarrow> [] | Some r \<Rightarrow> contents (requests r))"

definition user_replies :: "session \<Rightarrow> ullong \<Rightarrow> ullong \<rightharpoonup> packet" where
  "user_replies s u = (case map_get (usr_responses s) u of None \<Rightarrow> Map.empty | Some r \<Rightarrow> map_get (cm_responses r))"

definition mailbox :: "session \<Rightarrow> mailbox" where
  "mailbox s = \<lparr>mb_requests = user_requests s, mb_replies = user_replies s,
                mb_answers = map_get (responses s)\<rparr>"

definition stored_packet :: "packet \<Rightarrow> packet" where
  "stored_packet p = p\<lparr>pdata := mk_block (qb_bytes (pdata p))\<rparr>"

text \<open>What receiving the packet \<open>p\<close> does to the mailbox of user \<open>uid\<close>.\<close>

definition receive :: "ullong \<Rightarrow> packet \<Rightarrow> mailbox \<Rightarrow> mailbox" where
  "receive uid p mb =
     (if to_uid p \<noteq> uid then mb
      else if \<not> from_os p then mb\<lparr>mb_answers := (mb_answers mb)(muid p \<mapsto> packet_norm p)\<rparr>
      else if is_response_pack p then
        mb\<lparr>mb_replies := (mb_replies mb)(from_uid p :=
             (mb_replies mb (from_uid p))(cmuid p \<mapsto> stored_packet p))\<rparr>
      else mb\<lparr>mb_requests := (mb_requests mb)(from_uid p := mb_requests mb (from_uid p) @ [packet_bytes p])\<rparr>)"

text \<open>Which waiters it wakes.\<close>

definition awake :: "session \<Rightarrow> addr \<Rightarrow> bool" where
  "awake s a \<longleftrightarrow> (\<exists>w. waiters s a = Some w \<and> wt_live w \<and> is_ready w)"

definition woken_by :: "packet \<Rightarrow> session \<Rightarrow> addr option" where
  "woken_by p s =
     (if to_uid p \<noteq> cli_uid s then None
      else if \<not> from_os p then map_get (cnd_responses s) (muid p)
      else map_option (\<lambda>w. if is_response_pack p then resp_waiter w else req_waiter w)
             (map_get (usr_waiters s) (from_uid p)))"

lemma packet_wf_norm [simp]: "packet_wf p \<Longrightarrow> packet_wf (packet_norm p)"
  by (auto simp: packet_wf_def packet_norm_def qb_wf_def qb_wf_dsize [unfolded qb_wf_def])

lemma packet_wf_stored [simp]: "packet_wf p \<Longrightarrow> packet_wf (stored_packet p)"
  by (auto simp: packet_wf_def stored_packet_def qb_wf_dsize [symmetric])

lemma packet_norm_simps [simp]:
  "to_uid (packet_norm p) = to_uid p" "from_uid (packet_norm p) = from_uid p"
  "from_os (packet_norm p) = from_os p" "packtype (packet_norm p) = packtype p"
  "muid (packet_norm p) = muid p" "cmuid (packet_norm p) = cmuid p"
  "dsize (pdata (packet_norm p)) = dsize (pdata p)" "trav_fuid (packet_norm p) = trav_fuid p"
  "trav_tuid (packet_norm p) = trav_tuid p"
  by (simp_all add: packet_norm_def)

lemma qb_bytes_norm [simp]: "packet_wf p \<Longrightarrow> qb_bytes (pdata (packet_norm p)) = qb_bytes (pdata p)"
  by (simp add: packet_norm_def packet_wf_def qb_wf_dsize)

lemma packet_bytes_norm [simp]: "packet_wf p \<Longrightarrow> packet_bytes (packet_norm p) = packet_bytes p"
  by (simp add: packet_bytes_def packet_header_def)

lemma stored_packet_norm [simp]: "packet_wf p \<Longrightarrow> stored_packet (packet_norm p) = stored_packet p"
  by (cases p) (simp add: stored_packet_def packet_norm_def packet_wf_def qb_wf_dsize)

lemma msg_ok_norm [simp]: "msg_ok p \<Longrightarrow> msg_ok (packet_norm p)"
  by (simp add: msg_ok_def)


lemma file_user_ok:
  assumes r: "usr_resp_ok r" and p: "packet_wf p"
  obtains r' where "file_user_packet p r = Inr r'" "usr_resp_ok r'"
    "contents (requests r') = contents (requests r) @ (if is_response_pack p then [] else [packet_bytes p])"
    "map_get (cm_responses r') = (if is_response_pack p
       then (map_get (cm_responses r))(cmuid p \<mapsto> stored_packet p) else map_get (cm_responses r))"
proof (cases "is_response_pack p")
  case True
  let ?r = "r\<lparr>cm_responses := map_put (cmuid p) (stored_packet p) (cm_responses r)\<rparr>"
  have "file_user_packet p r = Inr ?r"
    using True p copy_packet_ok [of p] by (simp add: file_user_packet_def stored_packet_def packet_wf_def)
  moreover have "usr_resp_ok ?r"
    using r p by (auto simp: usr_resp_ok_def map_get_put)
  ultimately show thesis
    using True r that by (simp add: usr_resp_ok_def map_get_put)
next
  case False
  let ?b = "\<lparr>data = Buf (packet_bytes p), dsize = length (packet_bytes p)\<rparr>"
  have q: "queue_inv (requests r)" using r by (simp add: usr_resp_ok_def)
  have b: "qb_wf ?b" by (simp add: qb_wf_def)
  note st = push_block_step [OF q b]
  let ?r = "r\<lparr>requests := enqueue (requests r) ?b\<rparr>"
  have "file_user_packet p r = Inr ?r"
    using False packet_serial_ok [OF p] st(1) by (simp add: file_user_packet_def)
  moreover have "usr_resp_ok ?r"
    using r p st by (auto simp: usr_resp_ok_def holds_packets_def)
  ultimately show thesis
    using False st that by simp
qed

lemma usr_resp_init_ok [simp]: "usr_resp_ok usr_resp_init"
  by (simp add: usr_resp_ok_def usr_resp_init_def holds_packets_def)

lemma usr_resp_init_empty [simp]:
  "contents (requests usr_resp_init) = []" "map_get (cm_responses usr_resp_init) = Map.empty"
  by (simp_all add: usr_resp_init_def fun_eq_iff)

lemma unlock_lock_ur:
  "usr_responses_mtx s = Mtx 0 \<Longrightarrow>
   unlock_ur ((lock_ur s)\<lparr>usr_responses := u\<rparr>) = s\<lparr>usr_responses := u\<rparr>"
  by (cases s) (simp add: lock_ur_def unlock_ur_def)

text \<open>The locked region of the handler: the packet is filed under its sender.\<close>

lemma file_message_ok:
  assumes ok: "sess_ok s" and p: "packet_wf p"
  obtains r where
    "file_message p s = Inr (s\<lparr>usr_responses := map_put (from_uid p) r (usr_responses s)\<rparr>)"
    "usr_resp_ok r"
    "contents (requests r) = user_requests s (from_uid p)
        @ (if is_response_pack p then [] else [packet_bytes p])"
    "map_get (cm_responses r) = (if is_response_pack p
       then (user_replies s (from_uid p))(cmuid p \<mapsto> stored_packet p) else user_replies s (from_uid p))"
proof -
  have m: "map_ok (usr_responses s)" and mtx: "usr_responses_mtx s = Mtx 0"
    using ok by (simp_all add: sess_ok_def)
  have l: "usr_responses (lock_ur s) = usr_responses s" by (simp add: lock_ur_def)
  note eq = file_message_def [of p s] l unlock_lock_ur [OF mtx]
  show thesis
  proof (cases "map_get (usr_responses s) (from_uid p)")
    case None
    obtain r where r: "file_user_packet p usr_resp_init = Inr r" "usr_resp_ok r"
      "contents (requests r) = contents (requests usr_resp_init) @ (if is_response_pack p then [] else [packet_bytes p])"
      "map_get (cm_responses r) = (if is_response_pack p
         then (map_get (cm_responses usr_resp_init))(cmuid p \<mapsto> stored_packet p)
         else map_get (cm_responses usr_resp_init))"
      by (rule file_user_ok [OF usr_resp_init_ok p])
    have "map_ptr (usr_responses s) (from_uid p) = None" using None map_ptr_None [OF m] by simp
    then have "file_message p s = Inr (s\<lparr>usr_responses := map_put (from_uid p) r (usr_responses s)\<rparr>)"
      using r(1) by (simp add: eq Let_def)
    then show thesis
      by (rule that) (use r None in \<open>simp_all add: user_requests_def user_replies_def\<close>)
  next
    case (Some u)
    then have u: "usr_resp_ok u" using ok by (simp add: sess_ok_def)
    obtain i where i: "map_ptr (usr_responses s) (from_uid p) = Some (i, u)"
      "\<forall>w. (usr_responses s)\<lparr>mvals := (mvals (usr_responses s))[i := w]\<rparr> = map_put (from_uid p) w (usr_responses s)"
      by (rule map_ptr_Some [OF m Some])
    obtain r where r: "file_user_packet p u = Inr r" "usr_resp_ok r"
      "contents (requests r) = contents (requests u) @ (if is_response_pack p then [] else [packet_bytes p])"
      "map_get (cm_responses r) = (if is_response_pack p
         then (map_get (cm_responses u))(cmuid p \<mapsto> stored_packet p) else map_get (cm_responses u))"
      by (rule file_user_ok [OF u p])
    have "file_message p s = Inr (s\<lparr>usr_responses := map_put (from_uid p) r (usr_responses s)\<rparr>)"
      using r(1) i by (simp add: eq Let_def)
    then show thesis
      by (rule that) (use r Some in \<open>simp_all add: user_requests_def user_replies_def\<close>)
  qed
qed

text \<open>What both handlers keep, and the waking of one waiter.\<close>

definition only_woke :: "session \<Rightarrow> addr option \<Rightarrow> session \<Rightarrow> bool" where
  "only_woke s wk s' \<longleftrightarrow> (\<forall>a. wk = Some a \<longrightarrow> awake s' a)
     \<and> (\<forall>a. wk \<noteq> Some a \<longrightarrow> waiters s' a = waiters s a)"

definition kept :: "session \<Rightarrow> session \<Rightarrow> bool" where
  "kept s s' \<longleftrightarrow> cli_uid s' = cli_uid s \<and> last_muid s' = last_muid s
     \<and> last_c_muids s' = last_c_muids s \<and> writeq s' = writeq s
     \<and> cnd_responses s' = cnd_responses s \<and> usr_waiters s' = usr_waiters s
     \<and> stray_unlocks s' = stray_unlocks s \<and> usr_responses_mtx s' = usr_responses_mtx s
     \<and> usr_waiters_mtx s' = usr_waiters_mtx s \<and> trr_requests s' = trr_requests s
     \<and> trr_responses s' = trr_responses s \<and> trr_waiter s' = trr_waiter s"

text \<open>The waiter for anybody is set by the requests of other users, and by nothing else.\<close>

definition any_set_by :: "packet \<Rightarrow> session \<Rightarrow> waiter" where
  "any_set_by p s =
     (if to_uid p = cli_uid s \<and> from_os p \<and> \<not> is_response_pack p
      then (any_waiter s)\<lparr>is_ready := True\<rparr> else any_waiter s)"

lemma wake_opt:
  assumes ok: "sess_ok s" and live: "\<And>a. wk = Some a \<Longrightarrow> waiter_live s a"
  obtains ws where "(case wk of Some a \<Rightarrow> wake a s | None \<Rightarrow> Inr s) = Inr (s\<lparr>waiters := ws\<rparr>)"
    "sess_ok (s\<lparr>waiters := ws\<rparr>)" "only_woke s wk (s\<lparr>waiters := ws\<rparr>)"
proof (cases wk)
  case None
  then show thesis using that [of "waiters s"] ok by (simp add: only_woke_def)
next
  case (Some a)
  obtain w where w: "wt_live w"
    "wake a s = Inr (s\<lparr>waiters := (waiters s)(a \<mapsto> w\<lparr>is_ready := True\<rparr>)\<rparr>)"
    by (rule wakeE [OF live [OF Some]])
  show thesis
    using that [of "(waiters s)(a \<mapsto> w\<lparr>is_ready := True\<rparr>)"] Some w sess_ok_waiter [OF ok]
    by (simp add: only_woke_def awake_def)
qed

lemma sess_ok_cnd: "sess_ok s \<Longrightarrow> map_get (cnd_responses s) m = Some a \<Longrightarrow> waiter_live s a"
  by (simp add: sess_ok_def)

lemma sess_ok_usr:
  "sess_ok s \<Longrightarrow> map_get (usr_waiters s) u = Some w \<Longrightarrow> waiter_live s (req_waiter w) \<and> waiter_live s (resp_waiter w)"
  by (simp add: sess_ok_def)

text \<open>The waiters of a user packet.\<close>

lemma notify_user_ok:
  assumes ok: "sess_ok s" and from_user: "from_os p" "to_uid p = cli_uid s"
  obtains ws aw where "notify_user p s = Inr (s\<lparr>waiters := ws, any_waiter := aw\<rparr>)"
    "sess_ok (s\<lparr>waiters := ws, any_waiter := aw\<rparr>)"
    "only_woke s (woken_by p s) (s\<lparr>waiters := ws, any_waiter := aw\<rparr>)"
    "aw = any_set_by p s"
proof -
  let ?wk = "woken_by p s"
  have mw: "map_ok (usr_waiters s)" using ok by (simp add: sess_ok_def)
  have wk: "(case map_ptr (usr_waiters s) (from_uid p) of
          Some (_, w) \<Rightarrow> wake (if is_response_pack p then resp_waiter w else req_waiter w) s
        | None \<Rightarrow> Inr s) = (case ?wk of Some a \<Rightarrow> wake a s | None \<Rightarrow> Inr s)"
    using from_user map_ptr_None [OF mw, of "from_uid p"] map_ptr_get [OF mw, of "from_uid p"]
    by (cases "map_ptr (usr_waiters s) (from_uid p)") (auto simp: woken_by_def)
  have live: "waiter_live s a" if "?wk = Some a" for a
    using that from_user sess_ok_usr [OF ok] by (auto simp: woken_by_def split: if_splits)
  obtain ws where ws: "(case ?wk of Some a \<Rightarrow> wake a s | None \<Rightarrow> Inr s) = Inr (s\<lparr>waiters := ws\<rparr>)"
    "sess_ok (s\<lparr>waiters := ws\<rparr>)" "only_woke s ?wk (s\<lparr>waiters := ws\<rparr>)"
    by (rule wake_opt [OF ok live])
  let ?aw = "if is_response_pack p then any_waiter s else (any_waiter s)\<lparr>is_ready := True\<rparr>"
  have aw: "wt_live (any_waiter s)" using ok by (simp add: sess_ok_def)
  show thesis
  proof (rule that)
    show "notify_user p s = Inr (s\<lparr>waiters := ws, any_waiter := ?aw\<rparr>)"
      unfolding notify_user_def wk ws(1) using aw by (simp add: waiter_set_def)
    show "sess_ok (s\<lparr>waiters := ws, any_waiter := ?aw\<rparr>)"
      using ws(2) aw by (simp add: sess_ok_def waiter_live_def)
    show "only_woke s ?wk (s\<lparr>waiters := ws, any_waiter := ?aw\<rparr>)"
      using ws(3) by (simp add: only_woke_def awake_def)
    show "?aw = any_set_by p s" using from_user by (simp add: any_set_by_def)
  qed
qed

text \<open>Another user's packet: filed, then its waiter and the one for anybody are woken.\<close>

lemma on_user_message_ok:
  assumes ok: "sess_ok s" and p: "packet_wf p" and from_user: "from_os p" "to_uid p = cli_uid s"
  obtains s' where "on_user_message p s = Inr s'" "sess_ok s'" "kept s s'" "readq s' = readq s"
    "mailbox s' = receive (cli_uid s) p (mailbox s)" "only_woke s (woken_by p s) s'"
    "any_waiter s' = any_set_by p s"
proof -
  obtain r where r: "file_message p s = Inr (s\<lparr>usr_responses := map_put (from_uid p) r (usr_responses s)\<rparr>)"
    "usr_resp_ok r"
    "contents (requests r) = user_requests s (from_uid p) @ (if is_response_pack p then [] else [packet_bytes p])"
    "map_get (cm_responses r) = (if is_response_pack p
       then (user_replies s (from_uid p))(cmuid p \<mapsto> stored_packet p) else user_replies s (from_uid p))"
    by (rule file_message_ok [OF ok p])
  let ?s = "s\<lparr>usr_responses := map_put (from_uid p) r (usr_responses s)\<rparr>"
  have m: "map_ok (usr_responses s)" using ok by (simp add: sess_ok_def)
  have ok': "sess_ok ?s"
    using ok r(2) m by (simp add: sess_ok_def map_get_put waiter_live_def)
  have to: "to_uid p = cli_uid ?s" using from_user by simp
  obtain ws aw where n: "notify_user p ?s = Inr (?s\<lparr>waiters := ws, any_waiter := aw\<rparr>)"
    "sess_ok (?s\<lparr>waiters := ws, any_waiter := aw\<rparr>)"
    "only_woke ?s (woken_by p ?s) (?s\<lparr>waiters := ws, any_waiter := aw\<rparr>)"
    "aw = any_set_by p ?s"
    by (rule notify_user_ok [OF ok' from_user(1) to])
  let ?t = "?s\<lparr>waiters := ws, any_waiter := aw\<rparr>"
  have "woken_by p ?s = woken_by p s" by (simp add: woken_by_def)
  then have "only_woke s (woken_by p s) ?t" using n(3) by (simp add: only_woke_def awake_def)
  moreover have "mailbox ?t = receive (cli_uid s) p (mailbox s)"
    using r(3,4) from_user m
    by (simp add: mailbox_def receive_def user_requests_def user_replies_def map_get_put fun_eq_iff)
  moreover have "on_user_message p s = Inr ?t" using r(1) n(1) by (simp add: on_user_message_def)
  ultimately show thesis
    using n(2,4) by (intro that [of ?t]) (simp_all add: kept_def any_set_by_def)
qed

text \<open>An answer of the server: stored under its number, then the request is woken.\<close>

lemma wake_request_ok:
  assumes ok: "sess_ok s"
  obtains ws where "wake_request m s = Inr (s\<lparr>waiters := ws\<rparr>)" "sess_ok (s\<lparr>waiters := ws\<rparr>)"
    "only_woke s (map_get (cnd_responses s) m) (s\<lparr>waiters := ws\<rparr>)"
proof -
  have m: "map_ok (cnd_responses s)" using ok by (simp add: sess_ok_def)
  have wk: "wake_request m s = (case map_get (cnd_responses s) m of Some a \<Rightarrow> wake a s | None \<Rightarrow> Inr s)"
    using map_ptr_None [OF m, of m] map_ptr_get [OF m, of m]
    by (cases "map_ptr (cnd_responses s) m") (auto simp: wake_request_def)
  show thesis
    using wake_opt [OF ok, of "map_get (cnd_responses s) m"] sess_ok_cnd [OF ok] that
    unfolding wk by metis
qed

lemma on_answer_ok:
  assumes ok: "sess_ok s" and p: "msg_ok p" and own: "\<not> from_os p" "to_uid p = cli_uid s"
  obtains s' where "dispatch_message trp0 (packet_norm p) s = Inr s'" "sess_ok s'" "kept s s'"
    "readq s' = readq s" "mailbox s' = receive (cli_uid s) p (mailbox s)"
    "only_woke s (woken_by p s) s'" "any_waiter s' = any_waiter s"
proof -
  let ?s = "s\<lparr>responses := map_put (muid p) (packet_norm p) (responses s)\<rparr>"
  have m: "map_ok (responses s)" using ok by (simp add: sess_ok_def)
  have ok': "sess_ok ?s" using ok p own m by (simp add: sess_ok_def map_get_put waiter_live_def)
  obtain ws where ws: "wake_request (muid p) ?s = Inr (?s\<lparr>waiters := ws\<rparr>)"
    "sess_ok (?s\<lparr>waiters := ws\<rparr>)"
    "only_woke ?s (map_get (cnd_responses ?s) (muid p)) (?s\<lparr>waiters := ws\<rparr>)"
    by (rule wake_request_ok [OF ok'])
  let ?t = "?s\<lparr>waiters := ws\<rparr>"
  have "packtype p \<noteq> pt_code TRACEROUTE" using p own by (simp add: msg_ok_def)
  then have "dispatch_message trp0 (packet_norm p) s = Inr ?t"
    using own ws(1) by (simp add: dispatch_message_def)
  moreover have "mailbox ?t = receive (cli_uid s) p (mailbox s)"
    using own m by (simp add: mailbox_def receive_def user_requests_def user_replies_def map_get_put fun_eq_iff)
  moreover have "only_woke s (woken_by p s) ?t"
    using ws(3) own by (simp add: only_woke_def awake_def woken_by_def)
  ultimately show thesis using ws(2) by (intro that [of ?t]) (simp_all add: kept_def)
qed

text \<open>The whole handler, on the oldest packet of the read queue.\<close>

lemma on_message_ok:
  assumes ok: "sess_ok s" and c: "contents (readq s) = packet_bytes p # fs" and p: "msg_ok p"
  obtains s' where "dcn_on_message trp0 s = Inr s'" "sess_ok s'" "kept s s'" "contents (readq s') = fs"
    "mailbox s' = receive (cli_uid s) p (mailbox s)" "only_woke s (woken_by p s) s'"
    "any_waiter s' = any_set_by p s"
proof -
  have q: "queue_inv (readq s)" and nn: "contents (readq s) \<noteq> []" using ok c by (simp_all add: sess_ok_def)
  note pop = pop_block_step [OF q nn]
  let ?s = "s\<lparr>readq := dequeue (readq s)\<rparr>"
  have ok': "sess_ok ?s" using ok pop(2) by (simp add: sess_ok_def waiter_live_def)
  have wf: "packet_wf p" using p by (simp add: msg_ok_def)
  have ds: "packet_deserial zero_packet (mk_block (packet_bytes p)) = Inr (True, packet_norm p)"
    by (rule packet_deserial_bytes) (simp_all add: wf)
  have eq: "dcn_on_message trp0 s = dispatch_message trp0 (packet_norm p) ?s"
    using pop(1) [of "Some qblock_init"] c ds by (simp add: dcn_on_message_def)
  have mb: "mailbox ?s = mailbox s" and wb: "woken_by p ?s = woken_by p s"
    by (simp_all add: mailbox_def user_requests_def user_replies_def woken_by_def fun_eq_iff)
  have fs: "contents (readq ?s) = fs" using pop(3) c by simp
  have ow: "only_woke s w t" if "only_woke ?s w t" for w t using that by (simp add: only_woke_def)
  have kp: "kept s t" if "kept ?s t" for t using that by (simp add: kept_def)
  consider (other) "to_uid p \<noteq> cli_uid s" | (user) "to_uid p = cli_uid s" "from_os p"
    | (answer) "to_uid p = cli_uid s" "\<not> from_os p" by blast
  then show thesis
  proof cases
    case other
    then have "dcn_on_message trp0 s = Inr ?s" by (simp add: eq dispatch_message_def)
    then show thesis
      using other ok' fs mb
      by (intro that [of ?s]) (simp_all add: kept_def receive_def only_woke_def woken_by_def any_set_by_def)
  next
    case user
    obtain t where t: "on_user_message (packet_norm p) ?s = Inr t" "sess_ok t" "kept ?s t" "readq t = readq ?s"
      "mailbox t = receive (cli_uid ?s) (packet_norm p) (mailbox ?s)"
      "only_woke ?s (woken_by (packet_norm p) ?s) t"
      "any_waiter t = any_set_by (packet_norm p) ?s"
      by (rule on_user_message_ok [OF ok', of "packet_norm p"]) (use user wf in simp_all)
    have "receive u (packet_norm p) mb = receive u p mb" for u mb
      using wf user by (simp add: receive_def is_response_pack_def)
    moreover have "woken_by (packet_norm p) ?s = woken_by p s"
      by (simp add: woken_by_def is_response_pack_def)
    moreover have "dcn_on_message trp0 s = Inr t"
      using t(1) user by (simp add: eq dispatch_message_def)
    ultimately show thesis
      using t fs mb by (intro that [of t]) (simp_all add: ow kp is_response_pack_def any_set_by_def)
  next
    case answer
    obtain t where t: "dispatch_message trp0 (packet_norm p) ?s = Inr t" "sess_ok t" "kept ?s t"
      "readq t = readq ?s" "mailbox t = receive (cli_uid ?s) p (mailbox ?s)"
      "only_woke ?s (woken_by p ?s) t" "any_waiter t = any_waiter ?s"
      by (rule on_answer_ok [OF ok' p, of trp0]) (use answer in simp_all)
    then show thesis
      using answer fs mb wb by (intro that [of t]) (simp_all add: eq ow kp any_set_by_def)
  qed
qed

subsection \<open>Requests\<close>

text \<open>The packet as \<open>dcn_request\<close> sends it.\<close>

definition addressed :: "session \<Rightarrow> ullong \<Rightarrow> packet \<Rightarrow> packet" where
  "addressed s to pack =
     pack\<lparr>from_uid := cli_uid s, to_uid := to, from_os := False, muid := last_muid s\<rparr>"

lemma addressed_simps [simp]:
  "to_uid (addressed s to p) = to" "from_uid (addressed s to p) = cli_uid s"
  "muid (addressed s to p) = last_muid s" "from_os (addressed s to p) = False"
  "packtype (addressed s to p) = packtype p" "pdata (addressed s to p) = pdata p"
  "cmuid (addressed s to p) = cmuid p" "trav_fuid (addressed s to p) = trav_fuid p"
  by (simp_all add: addressed_def)

lemma addressed_wf [simp]: "packet_wf (addressed s to p) = packet_wf p"
  by (simp add: packet_wf_def)

lemma dcn_post_ok:
  assumes ok: "sess_ok s" and p: "packet_wf pack"
  obtains q where "dcn_post pack to s = Inr (addressed s to pack, s\<lparr>writeq := q\<rparr>)"
    "sess_ok (s\<lparr>writeq := q\<rparr>)"
    "contents q = contents (writeq s) @ [packet_bytes (addressed s to pack)]"
proof -
  let ?p = "addressed s to pack"
  let ?b = "\<lparr>data = Buf (packet_bytes ?p), dsize = length (packet_bytes ?p)\<rparr>"
  have wf: "packet_wf ?p" using p by simp
  have q: "queue_inv (writeq s)" using ok by (simp add: sess_ok_def)
  have b: "qb_wf ?b" by (simp add: qb_wf_def)
  note st = push_block_step [OF q b]
  have "dcn_post pack to s = Inr (?p, s\<lparr>writeq := enqueue (writeq s) ?b\<rparr>)"
    using packet_serial_ok [OF wf] st(1) by (simp add: dcn_post_def addressed_def [symmetric] Let_def)
  moreover have "sess_ok (s\<lparr>writeq := enqueue (writeq s) ?b\<rparr>)"
    using ok st(2) by (simp add: sess_ok_def waiter_live_def)
  ultimately show thesis using that st(3) by simp
qed

lemma dcn_watch_ok:
  assumes ok: "sess_ok s"
  shows "sess_ok (dcn_watch wt pack s)"
    and "map_get (cnd_responses (dcn_watch wt pack s)) = (map_get (cnd_responses s))(muid pack \<mapsto> wt)"
    and "waiters (dcn_watch wt pack s) = (waiters s)(wt \<mapsto> waiter_init)"
  using ok by (auto simp: dcn_watch_def sess_ok_def map_get_put waiter_live_def)

text \<open>A waiter that nobody else uses is released when its request goes on.\<close>

definition sole_user :: "session \<Rightarrow> addr \<Rightarrow> ullong \<Rightarrow> bool" where
  "sole_user s a m \<longleftrightarrow> (\<forall>m'. map_get (cnd_responses s) m' = Some a \<longrightarrow> m' = m)
     \<and> (\<forall>u w. map_get (usr_waiters s) u = Some w \<longrightarrow> req_waiter w \<noteq> a \<and> resp_waiter w \<noteq> a)"

lemma wait_response_blocked:
  "waiters s a = Some w \<Longrightarrow> wt_live w \<Longrightarrow> \<not> is_ready w \<Longrightarrow> wait_response a m s = None"
  by (simp add: wait_response_def waiter_wait_def)

lemma wait_response_ready:
  assumes ok: "sess_ok s" and a: "awake s a" and sole: "sole_user s a m"
  obtains s' where "wait_response a m s = Some (Inr s')" "sess_ok s'"
    "s' = s\<lparr>waiters := (waiters s)(a \<mapsto> \<lparr>is_ready = False, wt_live = False\<rparr>),
            cnd_responses := map_del m (cnd_responses s)\<rparr>"
proof -
  obtain w where "waiters s a = Some w" "wt_live w" "is_ready w" using a by (auto simp: awake_def)
  then have w: "waiters s a = Some \<lparr>is_ready = True, wt_live = True\<rparr>" by (cases w) simp
  let ?s = "s\<lparr>waiters := (waiters s)(a \<mapsto> \<lparr>is_ready = False, wt_live = False\<rparr>),
            cnd_responses := map_del m (cnd_responses s)\<rparr>"
  have "wait_response a m s = Some (Inr ?s)"
    by (simp add: wait_response_def waiter_wait_def waiter_free_def w)
  moreover have "sess_ok ?s"
  proof -
    have m: "map_ok (cnd_responses s)" using ok by (simp add: sess_ok_def)
    have live: "waiter_live ?s b" if "waiter_live s b" "b \<noteq> a" for b
      using that by (simp add: waiter_live_def)
    have c: "waiter_live ?s b" if "map_get (map_del m (cnd_responses s)) m' = Some b" for m' b
    proof (rule live)
      have b: "map_get (cnd_responses s) m' = Some b" "m' \<noteq> m"
        using that m by (simp_all add: map_get_del split: if_splits)
      show "waiter_live s b" by (rule sess_ok_cnd [OF ok b(1)])
      show "b \<noteq> a" using b sole by (auto simp: sole_user_def)
    qed
    have u: "waiter_live ?s (req_waiter w) \<and> waiter_live ?s (resp_waiter w)"
      if "map_get (usr_waiters s) v = Some w" for v w
    proof -
      have "req_waiter w \<noteq> a" "resp_waiter w \<noteq> a"
        using that sole unfolding sole_user_def by blast+
      then show ?thesis using live sess_ok_usr [OF ok that] by blast
    qed
    show ?thesis
      unfolding sess_ok_def by (intro conjI allI impI; (use c u in simp)?; use ok in \<open>simp add: sess_ok_def\<close>)
  qed
  ultimately show thesis using that by blast
qed

text \<open>The code that \<open>dcn_getresp\<close> makes of an answer.\<close>

definition answer_code :: "packet \<Rightarrow> RESP_CODE" where
  "answer_code p = (if from_uid p = 0 then resp_code (le_word (take 4 (qb_bytes (pdata p)))) else FROM_USER)"

lemma dcn_getresp_found:
  assumes ok: "sess_ok s" and r: "map_get (responses s) m = Some p"
  shows "dcn_getresp m junk s = Inr (True, (stored_packet p)\<lparr>cmuid := cmuid junk\<rparr>, answer_code p,
      s\<lparr>responses := map_del m (responses s)\<rparr>)"
    and "sess_ok (s\<lparr>responses := map_del m (responses s)\<rparr>)"
proof -
  have m: "map_ok (responses s)" and p: "msg_ok p" "\<not> from_os p"
    using ok r by (simp_all add: sess_ok_def)
  have wf: "qb_wf (pdata p)" using p by (simp add: msg_ok_def packet_wf_def)
  obtain i where i: "map_ptr (responses s) m = Some (i, p)"
    using map_ptr_Some [OF m r] by metis
  have rd: "memcpy_from (data (mk_block (qb_bytes (pdata p)))) 4 = Inr (take 4 (qb_bytes (pdata p)))"
    if "from_uid p = 0"
    using memcpy_from_wf [of "mk_block (qb_bytes (pdata p))" 4] p that qb_wf_dsize [OF wf]
    by (simp add: msg_ok_def)
  have fill: "junk\<lparr>from_uid := from_uid p, to_uid := to_uid p, from_os := from_os p,
      packtype := packtype p, muid := muid p, trav_fuid := trav_fuid p, trav_tuid := trav_tuid p,
      pdata := mk_block (qb_bytes (pdata p))\<rparr> = (stored_packet p)\<lparr>cmuid := cmuid junk\<rparr>"
    by (cases p; cases junk) (simp add: stored_packet_def)
  have dup: "qblock_dup qblock_init (pdata p) = Inr (mk_block (qb_bytes (pdata p)))" using wf by simp
  show "dcn_getresp m junk s = Inr (True, (stored_packet p)\<lparr>cmuid := cmuid junk\<rparr>, answer_code p,
      s\<lparr>responses := map_del m (responses s)\<rparr>)"
    using i dup rd unfolding dcn_getresp_def fill [symmetric]
    by (simp add: answer_code_def Let_def)
  show "sess_ok (s\<lparr>responses := map_del m (responses s)\<rparr>)"
    using ok m by (simp add: sess_ok_def map_get_del waiter_live_def)
qed

lemma dcn_getresp_missing:
  "map_ok (responses s) \<Longrightarrow> map_get (responses s) m = None \<Longrightarrow>
   dcn_getresp m junk s = Inr (False, junk, UNDEFINED_ERROR, s)"
  by (simp add: dcn_getresp_def map_ptr_None [symmetric])

end
