(* ===== verification/ClientCalls.thy ===== *)
theory ClientCalls
  imports DcnClient
begin

text \<open>
  The calls of \<open>code/DCN/src/dnet/client.c\<close> that return a future, as the coroutines that the
  event loop runs for them.  A value of type \<open>coro\<close> is where a coroutine stands; \<open>coro_step\<close>
  is what it does until it next blocks or may be interrupted.
\<close>

datatype result = RNull | RPacket packet | RTrp trp_data | RBool bool

text \<open>Which call an exchange with the server belongs to, and how far the exchange has got.\<close>

datatype job = JReq | JPing | JTrace | JTraceAns

datatype phase = XPost | XWatch | XWait addr

datatype coro =
    CReq packet                   \<comment> \<open>\<open>__async_req\<close>, not yet begun\<close>
  | CExch job packet phase        \<comment> \<open>inside \<open>dcn_request\<close> or \<open>wait_response\<close>\<close>
  | CUser packet addr             \<comment> \<open>\<open>__async_req\<close> in \<open>waiter_wait(resp_waiter)\<close>\<close>
  | CFrom ullong bool             \<comment> \<open>\<open>__async_grequests\<close>, not yet begun; no time limit\<close>
  | CFromWait ullong addr bool    \<comment> \<open>\<open>__async_grequests\<close> in its wait for one user\<close>
  | CMisc bool                    \<comment> \<open>\<open>__async_grequests\<close> in its wait for anybody\<close>
  | CTrr                          \<comment> \<open>\<open>__async_gtraceroutes\<close> in its wait\<close>
  | CTraceAns ullong              \<comment> \<open>\<open>__async_traceroute_ans\<close>, not yet begun\<close>
  | CDone result

text \<open>
  What a step takes from outside: the indeterminate contents of locals, fresh addresses, whether
  a timeout has run out, and the padding bytes of \<open>struct trp_data\<close>.
\<close>

record env =
  junk_pack :: packet
  junk_trp :: trp_data
  new1 :: addr
  new2 :: addr
  time_up :: bool
  pad_bytes :: "byte list"

subsection \<open>Starting a call\<close>

text \<open>\<open>request\<close>: \<open>None\<close> when it answers \<open>NULL\<close> instead of a future.\<close>

definition request ::
  "packet \<Rightarrow> ullong \<Rightarrow> ullong \<Rightarrow> 32 word \<Rightarrow> session \<Rightarrow> packet \<times> coro option \<times> session" where
  "request pack to trv_fuid ptype s =
     (let pack = pack\<lparr>from_uid := cli_uid s, from_os := False, to_uid := to, muid := 0,
                      packtype := ptype, trav_fuid := trv_fuid, trav_tuid := 0\<rparr> in
      if to \<noteq> 0 then
        (case map_ptr (last_c_muids s) to of
           Some (_, last_cmuid) \<Rightarrow>
             (let pack = pack\<lparr>cmuid := if ptype \<noteq> pt_code RESPONSE then last_cmuid + 1 else last_cmuid\<rparr>
              in (pack, Some (CReq pack), s))
         | None \<Rightarrow>
             (if ptype = pt_code RESPONSE then (pack, None, s)
              else let pack = pack\<lparr>cmuid := 0\<rparr>
                   in (pack, Some (CReq pack),
                       s\<lparr>last_c_muids := map_put to (cmuid pack) (last_c_muids s)\<rparr>)))
      else let pack = pack\<lparr>cmuid := 0\<rparr> in (pack, Some (CReq pack), s))"

definition ping :: "session \<Rightarrow> coro res" where
  "ping s = bind_res (packet_init Null 0 (cli_uid s) 0 0) (\<lambda>pack.
     Inr (CExch JPing (pack\<lparr>packtype := pt_code PING\<rparr>) XPost))"

definition async_grequests :: "ullong \<Rightarrow> coro" where
  "async_grequests from = CFrom from True"

definition async_misc_grequests :: "bool \<Rightarrow> coro" where
  "async_misc_grequests neg = CFrom 0 neg"

definition traceroute :: "byte list \<Rightarrow> ullong \<Rightarrow> session \<Rightarrow> coro res" where
  "traceroute pad uid_ttr s =
     bind_res (create_traceroute pad \<lparr>is_response = False, success = False, req_uid = uid_ttr\<rparr> (cli_uid s))
       (\<lambda>trp. bind_res (copy_packet trp) (\<lambda>pack. Inr (CExch JTrace pack XPost)))"

definition async_gtraceroutes :: coro where
  "async_gtraceroutes = CTrr"

definition traceroute_ans :: "ullong \<Rightarrow> coro" where
  "traceroute_ans who = CTraceAns who"

subsection \<open>\<open>__async_req\<close>\<close>

definition sig_like :: "packet \<Rightarrow> bool" where
  "sig_like pack \<longleftrightarrow> packtype pack = pt_code SIGNAL \<or> packtype pack = pt_code SIG_BROADCAST"

text \<open>Its first part: two waiters for the user that the request goes to.\<close>

definition async_req_begin :: "addr \<Rightarrow> addr \<Rightarrow> packet \<Rightarrow> session \<Rightarrow> coro \<times> session" where
  "async_req_begin a b pack s =
     (CExch JReq pack XPost,
      if \<not> is_response_pack pack \<and> \<not> sig_like pack \<and> \<not> map_in (usr_waiters s) (to_uid pack)
      then s\<lparr>waiters := (waiters s)(a \<mapsto> waiter_init, b \<mapsto> waiter_init),
             usr_waiters := map_put (to_uid pack) \<lparr>req_waiter = a, resp_waiter = b\<rparr> (usr_waiters s)\<rparr>
      else s)"

text \<open>
  Its last part: the answer of the user.  The mutex is locked on entry only if the answer was
  there before the wait; every path unlocks it.
\<close>

definition async_req_take :: "packet \<Rightarrow> session \<Rightarrow> (coro \<times> session) res" where
  "async_req_take pack s =
     (case map_ptr (usr_responses s) (to_uid pack) of
        None \<Rightarrow> Inr (CDone RNull, unlock_ur s)
      | Some (inx, ursp) \<Rightarrow> (case map_ptr (cm_responses ursp) (cmuid pack) of
          None \<Rightarrow> Inr (CDone RNull, unlock_ur s)
        | Some (_, p) \<Rightarrow> bind_res (copy_packet p) (\<lambda>answer.
            let ursp = ursp\<lparr>cm_responses :=
                  map_del (cmuid pack) (cm_responses ursp)\<rparr>
            in Inr (CDone (RPacket answer),
                 unlock_ur (s\<lparr>usr_responses :=
                   (usr_responses s)\<lparr>mvals := (mvals (usr_responses s))[inx := ursp]\<rparr>\<rparr>)))))"

text \<open>Its middle part, behind the request cycle.\<close>

definition async_req_acked :: "packet \<Rightarrow> session \<Rightarrow> (coro \<times> session) res" where
  "async_req_acked pack s =
     (if sig_like pack \<or> is_response_pack pack then Inr (CDone RNull, s)
      else let s = lock_ur s;
               response_exists = (case map_ptr (usr_responses s) (to_uid pack) of
                   None \<Rightarrow> False | Some (_, ursp) \<Rightarrow> \<not> map_empty (cm_responses ursp))
           in if response_exists then async_req_take pack s
              else let s = unlock_ur s in
                (case map_ptr (usr_waiters s) (to_uid pack) of
                   Some (_, w) \<Rightarrow> Inr (CUser pack (resp_waiter w), s)
                 | None \<Rightarrow> async_req_take pack s))"

subsection \<open>What follows an exchange\<close>

definition req_done :: "packet \<Rightarrow> RESP_CODE \<Rightarrow> session \<Rightarrow> (coro \<times> session) res" where
  "req_done pack rcode s =
     (if rcode = NO_SUCH_USER then Inr (CExch JReq pack XPost, s) else async_req_acked pack s)"

definition ping_done :: "packet \<Rightarrow> RESP_CODE \<Rightarrow> session \<Rightarrow> (coro \<times> session) res" where
  "ping_done pack rcode s =
     (if rcode = OK_STATUS then Inr (CDone RNull, s) else Inr (CExch JPing pack XPost, s))"

definition trace_done :: "env \<Rightarrow> packet \<Rightarrow> session \<Rightarrow> (coro \<times> session) res" where
  "trace_done e answer s =
     (if dsize (pdata answer) \<noteq> trp_offset then Inr (CDone RNull, s)
      else bind_res (trp_data_deserial (junk_trp e) (pdata answer)) (\<lambda>(_, t). Inr (CDone (RTrp t), s)))"

definition trace_ans_done :: "RESP_CODE \<Rightarrow> session \<Rightarrow> (coro \<times> session) res" where
  "trace_ans_done rcode s = Inr (CDone (RBool (rcode = OK_STATUS)), s)"

definition exch_done ::
  "env \<Rightarrow> job \<Rightarrow> packet \<Rightarrow> packet \<Rightarrow> RESP_CODE \<Rightarrow> session \<Rightarrow> (coro \<times> session) res" where
  "exch_done e j pack answer rcode s =
     (case j of
        JReq \<Rightarrow> req_done pack rcode s
      | JPing \<Rightarrow> ping_done pack rcode s
      | JTrace \<Rightarrow> trace_done e answer s
      | JTraceAns \<Rightarrow> trace_ans_done rcode s)"

lemmas exch_done_defs = exch_done_def req_done_def ping_done_def trace_done_def trace_ans_done_def

fun exch_step :: "env \<Rightarrow> job \<Rightarrow> packet \<Rightarrow> phase \<Rightarrow> session \<Rightarrow> (coro \<times> session) res option" where
  "exch_step e j pack XPost s =
     Some (bind_res (dcn_post pack (if j = JTraceAns then 0 else to_uid pack) s) (\<lambda>(pack, s).
       Inr (CExch j pack XWatch, s)))"
| "exch_step e j pack XWatch s = Some (Inr (CExch j pack (XWait (new1 e)), dcn_watch (new1 e) pack s))"
| "exch_step e j pack (XWait a) s =
     (case wait_response a (muid pack) s of
        None \<Rightarrow> None
      | Some r \<Rightarrow> Some (bind_res r (\<lambda>s.
          bind_res (dcn_getresp (muid pack) (junk_pack e) s) (\<lambda>(_, answer, rcode, s).
          exch_done e j pack answer rcode s))))"

subsection \<open>Requests of other users\<close>

text \<open>
  Popping the oldest request of one user into \<open>answer_packet\<close>, which \<open>packet_init\<close> has
  cleared; the status of \<open>packet_deserial\<close> is not looked at.
\<close>

definition pop_request :: "ullong \<Rightarrow> session \<Rightarrow> (packet option \<times> session) res" where
  "pop_request from s =
     (case map_ptr (usr_responses s) from of
        None \<Rightarrow> Inr (None, s)
      | Some (inx, ursp) \<Rightarrow>
          bind_res (pop_block (requests ursp) (Some qblock_init)) (\<lambda>(r, q, blk).
          let s = s\<lparr>usr_responses := (usr_responses s)\<lparr>mvals :=
                (mvals (usr_responses s))[inx := ursp\<lparr>requests := q\<rparr>]\<rparr>\<rparr>
          in if r = 1 then Inr (None, s)
             else bind_res (packet_deserial zero_packet (the blk)) (\<lambda>(_, p). Inr (Some p, s))))"

text \<open>The loop over the users in misc mode.\<close>

fun misc_loop :: "nat list \<Rightarrow> session \<Rightarrow> (packet option \<times> session) res" where
  "misc_loop [] s = Inr (None, s)"
| "misc_loop (i # is) s =
     (case map_key_at (usr_responses s) 0 i of
        (_, from) \<Rightarrow> bind_res (pop_request from s) (\<lambda>(p, s).
          case p of None \<Rightarrow> misc_loop is s | Some p \<Rightarrow> Inr (Some p, s)))"

definition packet_result :: "packet option \<times> session \<Rightarrow> coro \<times> session" where
  "packet_result r = (case r of (None, s) \<Rightarrow> (CDone RNull, s) | (Some p, s) \<Rightarrow> (CDone (RPacket p), s))"

definition grequests_begin :: "ullong \<Rightarrow> bool \<Rightarrow> session \<Rightarrow> coro" where
  "grequests_begin from neg s =
     (if from = 0 then CMisc neg
      else case map_ptr (usr_waiters s) from of
        None \<Rightarrow> CDone RNull
      | Some (_, w) \<Rightarrow> CFromWait from (req_waiter w) neg)"

definition misc_step :: "bool \<Rightarrow> bool \<Rightarrow> session \<Rightarrow> (coro \<times> session) res option" where
  "misc_step neg expired s =
     map_option (\<lambda>r. bind_res r (\<lambda>(ready, w).
         let s = s\<lparr>any_waiter := w\<rparr> in
         if \<not> ready then Inr (CDone RNull, s)
         else bind_res (misc_loop [0..<mlen (usr_responses s)] s) (\<lambda>r. Inr (packet_result r))))
       (waiter_wait_for neg expired (any_waiter s))"

definition from_step :: "ullong \<Rightarrow> addr \<Rightarrow> bool \<Rightarrow> bool \<Rightarrow> session \<Rightarrow> (coro \<times> session) res option" where
  "from_step from a neg expired s =
     (case waiters s a of
        None \<Rightarrow> Some (Inl UseAfterFree)
      | Some w \<Rightarrow> map_option (\<lambda>r. bind_res r (\<lambda>(ready, w).
          let s = s\<lparr>waiters := (waiters s)(a \<mapsto> w)\<rparr> in
          if \<not> ready then Inr (CDone RNull, s)
          else bind_res (pop_request from s) (\<lambda>r. Inr (packet_result r))))
        (waiter_wait_for neg expired w))"

subsection \<open>Traceroute requests\<close>

text \<open>\<open>__async_gtraceroutes\<close>: the status of \<open>trp_data_deserial\<close> is not looked at.\<close>

definition gtraceroutes_step :: "trp_data \<Rightarrow> session \<Rightarrow> (coro \<times> session) res option" where
  "gtraceroutes_step trp0 s =
     map_option (\<lambda>r. bind_res r (\<lambda>w.
         let s = s\<lparr>trr_waiter := w\<rparr> in
         bind_res (pop_block (trr_requests s) (Some qblock_init)) (\<lambda>(r, q, tdata).
         let s = s\<lparr>trr_requests := q\<rparr> in
         if r = 1 then Inr (CDone RNull, s)
         else bind_res (trp_data_deserial trp0 (the tdata)) (\<lambda>(_, t). Inr (CDone (RTrp t), s)))))
       (waiter_wait (trr_waiter s))"

subsection \<open>One step of any coroutine\<close>

fun coro_step :: "env \<Rightarrow> coro \<Rightarrow> session \<Rightarrow> (coro \<times> session) res option" where
  "coro_step e (CReq pack) s = Some (Inr (async_req_begin (new1 e) (new2 e) pack s))"
| "coro_step e (CExch j pack x) s = exch_step e j pack x s"
| "coro_step e (CUser pack a) s =
     (case waiters s a of
        None \<Rightarrow> Some (Inl UseAfterFree)
      | Some w \<Rightarrow> map_option (\<lambda>r. bind_res r (\<lambda>w.
          async_req_take pack (s\<lparr>waiters := (waiters s)(a \<mapsto> w)\<rparr>))) (waiter_wait w))"
| "coro_step e (CFrom from neg) s = Some (Inr (grequests_begin from neg s, s))"
| "coro_step e (CFromWait from a neg) s = from_step from a neg (time_up e) s"
| "coro_step e (CMisc neg) s = misc_step neg (time_up e) s"
| "coro_step e CTrr s = gtraceroutes_step (junk_trp e) s"
| "coro_step e (CTraceAns who) s =
     Some (bind_res (create_traceroute (pad_bytes e) \<lparr>is_response = True, success = True, req_uid = who\<rparr>
         (cli_uid s)) (\<lambda>pack. Inr (CExch JTraceAns pack XPost, s)))"
| "coro_step e (CDone r) s = None"

subsection \<open>What a step leaves alone\<close>

text \<open>
  \<open>stable s F s'\<close>: from \<open>s\<close> to \<open>s'\<close> no live waiter outside \<open>F\<close> was freed or set, and
  the two registries of waiters gained at most entries for fresh waiters.
\<close>

definition stable :: "session \<Rightarrow> addr set \<Rightarrow> session \<Rightarrow> bool" where
  "stable s F s' \<longleftrightarrow> (\<forall>a w. waiters s a = Some w \<longrightarrow> wt_live w \<longrightarrow> a \<notin> F \<longrightarrow>
          (\<exists>w'. waiters s' a = Some w' \<and> wt_live w' \<and> (is_ready w' \<longrightarrow> is_ready w)))
     \<and> (\<forall>m a. map_get (cnd_responses s') m = Some a \<longrightarrow>
          map_get (cnd_responses s) m = Some a \<or> waiters s a = None)
     \<and> (\<forall>u w. map_get (usr_waiters s) u = Some w \<longrightarrow> map_get (usr_waiters s') u = Some w)
     \<and> (\<forall>u w. map_get (usr_waiters s') u = Some w \<longrightarrow> map_get (usr_waiters s) u = Some w
          \<or> (waiters s (req_waiter w) = None \<and> waiters s (resp_waiter w) = None))
     \<and> readq s' = readq s \<and> cli_uid s' = cli_uid s"

lemma stable_same:
  "waiters s' = waiters s \<Longrightarrow> cnd_responses s' = cnd_responses s \<Longrightarrow> usr_waiters s' = usr_waiters s
   \<Longrightarrow> readq s' = readq s \<Longrightarrow> cli_uid s' = cli_uid s \<Longrightarrow> stable s F s'"
  by (simp add: stable_def waiter_live_def)

lemma stable_live: "stable s F s' \<Longrightarrow> waiter_live s a \<Longrightarrow> a \<notin> F \<Longrightarrow> waiter_live s' a"
  unfolding stable_def waiter_live_def by blast

lemma stable_set:
  "waiters s a = Some v \<Longrightarrow> wt_live w \<Longrightarrow> (is_ready w \<Longrightarrow> is_ready v)
   \<Longrightarrow> stable s F (s\<lparr>waiters := (waiters s)(a \<mapsto> w)\<rparr>)"
  by (auto simp: stable_def)

lemma stable_trans:
  assumes 1: "stable s F s'" and 2: "stable s' F s''" and old: "\<And>a. waiters s' a = None \<Longrightarrow> waiters s a = None"
  shows "stable s F s''"
  unfolding stable_def
proof (intro conjI allI impI)
  show "\<exists>w'. waiters s'' a = Some w' \<and> wt_live w' \<and> (is_ready w' \<longrightarrow> is_ready w)"
    if "waiters s a = Some w" "wt_live w" "a \<notin> F" for a w
    using that 1 2 unfolding stable_def by metis
  show "map_get (cnd_responses s) m = Some a \<or> waiters s a = None"
    if "map_get (cnd_responses s'') m = Some a" for m a
    using that 1 2 old unfolding stable_def by metis
  show "map_get (usr_waiters s'') u = Some w" if "map_get (usr_waiters s) u = Some w" for u w
    using that 1 2 by (simp add: stable_def)
  show "map_get (usr_waiters s) u = Some w \<or> waiters s (req_waiter w) = None \<and> waiters s (resp_waiter w) = None"
    if "map_get (usr_waiters s'') u = Some w" for u w
    using that 1 2 old unfolding stable_def by metis
  show "readq s'' = readq s" "cli_uid s'' = cli_uid s"
    using 1 2 by (simp_all add: stable_def)
qed

text \<open>Which waiter a coroutine that has released its processor waits for, and what it relies on.\<close>

fun waits_on :: "coro \<Rightarrow> addr option" where
  "waits_on (CExch j pack (XWait a)) = Some a"
| "waits_on _ = None"

fun coro_ok :: "session \<Rightarrow> coro \<Rightarrow> bool" where
  "coro_ok s (CReq pack) \<longleftrightarrow> packet_wf pack"
| "coro_ok s (CExch j pack (XWait a)) \<longleftrightarrow> packet_wf pack \<and> waiter_live s a \<and> sole_user s a (muid pack)"
| "coro_ok s (CExch j pack x) \<longleftrightarrow> packet_wf pack"
| "coro_ok s (CUser pack a) \<longleftrightarrow> (\<exists>u w. map_get (usr_waiters s) u = Some w \<and> resp_waiter w = a)"
| "coro_ok s (CFromWait from a neg) \<longleftrightarrow> (\<exists>u w. map_get (usr_waiters s) u = Some w \<and> req_waiter w = a)"
| "coro_ok s _ \<longleftrightarrow> True"

lemma coro_ok_stable:
  assumes st: "stable s F s'" and k: "coro_ok s k" and F: "\<And>a. waits_on k = Some a \<Longrightarrow> a \<notin> F"
  shows "coro_ok s' k"
proof (cases "waits_on k")
  case None
  then show ?thesis
    using st k by (cases "(s, k)" rule: coro_ok.cases) (auto simp: stable_def; blast)+
next
  case (Some a)
  then obtain j pack where k': "k = CExch j pack (XWait a)"
    by (cases k rule: waits_on.cases) auto
  then have ok: "packet_wf pack" "waiter_live s a" "sole_user s a (muid pack)" and na: "a \<notin> F"
    using k F by auto
  then have "waiters s a \<noteq> None" by (auto simp: waiter_live_def)
  moreover have "waiter_live s' a" by (rule stable_live [OF st ok(2) na])
  ultimately have "sole_user s' a (muid pack)"
    using st ok(3) unfolding sole_user_def stable_def by metis
  with ok k' \<open>waiter_live s' a\<close> show ?thesis by simp
qed

text \<open>
  What the outside provides for a step: fresh addresses, and six bytes of padding.  Nothing is assumed
  of what uninitialised locals hold.
\<close>

definition env_ok :: "session \<Rightarrow> env \<Rightarrow> bool" where
  "env_ok s e \<longleftrightarrow> waiters s (new1 e) = None \<and> waiters s (new2 e) = None \<and> new1 e \<noteq> new2 e
     \<and> length (pad_bytes e) = 6"

text \<open>
  Where the contents of an uninitialised local matter: \<open>__async_traceroute\<close> does not look at the status of
  \<open>dcn_getresp\<close>.  If its wait is over and its answer is gone (another call with the same number has
  taken it), the size of the uninitialised \<open>answer\<close> decides whether its data pointer is followed.
  (\<open>packet_free\<close> hands the same pointer to \<open>alc_free\<close>, for which it is an address that is not tracked.)
\<close>

definition reads_junk :: "env \<Rightarrow> coro \<Rightarrow> session \<Rightarrow> bool" where
  "reads_junk e k s \<longleftrightarrow> (\<exists>pack a. k = CExch JTrace pack (XWait a) \<and> awake s a
     \<and> map_get (responses s) (muid pack) = None \<and> dsize (pdata (junk_pack e)) = trp_offset)"

subsection \<open>Waiting for a user\<close>

text \<open>Taking the reply: it leaves the mailbox and is the coroutine's result.\<close>

definition take_reply :: "ullong \<Rightarrow> ullong \<Rightarrow> mailbox \<Rightarrow> mailbox" where
  "take_reply u c mb = mb\<lparr>mb_replies := (mb_replies mb)(u := (mb_replies mb u)(c := None))\<rparr>"

definition reply_result :: "packet option \<Rightarrow> result" where
  "reply_result r = (case r of None \<Rightarrow> RNull | Some p \<Rightarrow> RPacket (stored_packet p))"

lemma unlock_ur_simps [simp]:
  "waiters (unlock_ur s) = waiters s" "cnd_responses (unlock_ur s) = cnd_responses s"
  "usr_waiters (unlock_ur s) = usr_waiters s" "readq (unlock_ur s) = readq s"
  "usr_responses (unlock_ur s) = usr_responses s" "responses (unlock_ur s) = responses s"
  "writeq (unlock_ur s) = writeq s" "cli_uid (unlock_ur s) = cli_uid s"
  "usr_responses_mtx (unlock_ur s) = mtx_unlock (usr_responses_mtx s)"
  "stray_unlocks (unlock_ur s) = stray_unlocks s + (if usr_responses_mtx s = Mtx 0 then 1 else 0)"
  "trr_requests (unlock_ur s) = trr_requests s" "last_c_muids (unlock_ur s) = last_c_muids s"
  "any_waiter (unlock_ur s) = any_waiter s" "trr_waiter (unlock_ur s) = trr_waiter s"
  "last_muid (unlock_ur s) = last_muid s"
  by (simp_all add: unlock_ur_def)

text \<open>The invariant, the mutex apart.\<close>

definition sess_ok_in :: "session \<Rightarrow> bool" where
  "sess_ok_in s \<longleftrightarrow> sess_ok (s\<lparr>usr_responses_mtx := Mtx 0\<rparr>)
     \<and> (usr_responses_mtx s = Mtx 0 \<or> usr_responses_mtx s = Mtx 1)"

lemma sess_ok_unlock: "sess_ok_in s \<Longrightarrow> sess_ok (unlock_ur s)"
  by (auto simp: sess_ok_in_def sess_ok_def waiter_live_def)

lemma sess_ok_in_I: "sess_ok s \<Longrightarrow> sess_ok_in s" "sess_ok s \<Longrightarrow> sess_ok_in (lock_ur s)"
  by (auto simp: sess_ok_in_def sess_ok_def waiter_live_def lock_ur_def)

lemma take_ok:
  assumes ok: "sess_ok_in s"
  obtains s' where
    "async_req_take pack s = Inr (CDone (reply_result (user_replies s (to_uid pack) (cmuid pack))), s')"
    "sess_ok s'" "stable s {} s'" "mailbox s' = take_reply (to_uid pack) (cmuid pack) (mailbox s)"
    "stray_unlocks s' = stray_unlocks s + (if usr_responses_mtx s = Mtx 0 then 1 else 0)"
proof -
  have ok0: "sess_ok (unlock_ur s)" by (rule sess_ok_unlock [OF ok])
  have m: "map_ok (usr_responses s)" using ok by (simp add: sess_ok_in_def sess_ok_def)
  let ?u = "to_uid pack" and ?c = "cmuid pack"
  have st: "stable s {} (unlock_ur s)" by (rule stable_same) simp_all
  show thesis
  proof (cases "user_replies s ?u ?c")
    case None
    have "async_req_take pack s = Inr (CDone RNull, unlock_ur s)"
    proof (cases "map_get (usr_responses s) ?u")
      case none: None
      then show ?thesis using map_ptr_None [OF m, of ?u] by (simp add: async_req_take_def)
    next
      case (Some r)
      then have "map_ok (cm_responses r)"
        using ok by (simp add: sess_ok_in_def sess_ok_def usr_resp_ok_def)
      then have "map_ptr (cm_responses r) ?c = None"
        using None Some by (simp add: user_replies_def map_ptr_None)
      then show ?thesis
        by (rule_tac map_ptr_Some [OF m Some]) (simp add: async_req_take_def)
    qed
    moreover have "mailbox (unlock_ur s) = take_reply ?u ?c (mailbox s)"
      using None by (auto simp: mailbox_def take_reply_def user_requests_def user_replies_def fun_eq_iff)
    ultimately show thesis
      using None ok0 st by (intro that [of "unlock_ur s"]) (simp_all add: reply_result_def)
  next
    case (Some p)
    then obtain r where r: "map_get (usr_responses s) ?u = Some r" "map_get (cm_responses r) ?c = Some p"
      by (auto simp: user_replies_def split: option.splits)
    have rok: "usr_resp_ok r" using ok r(1) by (simp add: sess_ok_in_def sess_ok_def)
    then have cm: "map_ok (cm_responses r)" and wf: "packet_wf p"
      using r(2) by (auto simp: usr_resp_ok_def)
    obtain i where i: "map_ptr (usr_responses s) ?u = Some (i, r)"
      "\<forall>w. (usr_responses s)\<lparr>mvals := (mvals (usr_responses s))[i := w]\<rparr> = map_put ?u w (usr_responses s)"
      by (rule map_ptr_Some [OF m r(1)])
    obtain j where j: "map_ptr (cm_responses r) ?c = Some (j, p)"
      using map_ptr_Some [OF cm r(2)] by metis
    let ?r = "r\<lparr>cm_responses := map_del ?c (cm_responses r)\<rparr>"
    let ?s = "s\<lparr>usr_responses := map_put ?u ?r (usr_responses s)\<rparr>"
    have "async_req_take pack s = Inr (CDone (RPacket (stored_packet p)), unlock_ur ?s)"
      using i j wf copy_packet_ok [of p]
      by (simp add: async_req_take_def packet_wf_def stored_packet_def)
    moreover have "usr_resp_ok ?r" using rok by (auto simp: usr_resp_ok_def map_get_del)
    then have "sess_ok_in ?s"
      using ok m by (auto simp: sess_ok_in_def sess_ok_def map_get_put waiter_live_def)
    then have "sess_ok (unlock_ur ?s)" by (rule sess_ok_unlock)
    moreover have "stable s {} (unlock_ur ?s)" by (rule stable_same) simp_all
    moreover have "mailbox (unlock_ur ?s) = take_reply ?u ?c (mailbox s)"
      using r m cm
      by (auto simp: mailbox_def take_reply_def user_requests_def user_replies_def map_get_put map_get_del fun_eq_iff)
    ultimately show thesis
      using Some by (intro that [of "unlock_ur ?s"]) (simp_all add: reply_result_def)
  qed
qed

lemma unlock_lock_same: "sess_ok s \<Longrightarrow> unlock_ur (lock_ur s) = s"
  by (cases s) (simp add: sess_ok_def lock_ur_def unlock_ur_def)

text \<open>Some response of the user is there already.\<close>

definition has_reply :: "session \<Rightarrow> ullong \<Rightarrow> bool" where
  "has_reply s u \<longleftrightarrow> (\<exists>c. user_replies s u c \<noteq> None)"

lemma has_reply_code:
  assumes "sess_ok s"
  shows "(case map_ptr (usr_responses s) u of
       None \<Rightarrow> False | Some (_, ursp) \<Rightarrow> \<not> map_empty (cm_responses ursp)) \<longleftrightarrow> has_reply s u"
proof -
  have m: "map_ok (usr_responses s)" using assms by (simp add: sess_ok_def)
  show ?thesis
  proof (cases "map_ptr (usr_responses s) u")
    case None
    then have "map_get (usr_responses s) u = None" using map_ptr_None [OF m] by simp
    with None show ?thesis by (simp add: has_reply_def user_replies_def)
  next
    case (Some ir)
    obtain i r where ir: "ir = (i, r)" by (cases ir)
    then have r: "map_get (usr_responses s) u = Some r" using map_ptr_get [OF m] Some by simp
    then have "map_ok (cm_responses r)" using assms by (simp add: sess_ok_def usr_resp_ok_def)
    then show ?thesis using Some ir r by (simp add: has_reply_def user_replies_def map_empty_iff)
  qed
qed

text \<open>What \<open>__async_req\<close> does once the server has acknowledged the request.\<close>

lemma acked_cases:
  assumes ok: "sess_ok s"
  shows "sig_like pack \<or> is_response_pack pack \<Longrightarrow> async_req_acked pack s = Inr (CDone RNull, s)"
    and "\<not> (sig_like pack \<or> is_response_pack pack) \<Longrightarrow> has_reply s (to_uid pack) \<Longrightarrow>
      async_req_acked pack s = async_req_take pack (lock_ur s)"
    and "\<not> (sig_like pack \<or> is_response_pack pack) \<Longrightarrow> \<not> has_reply s (to_uid pack) \<Longrightarrow>
      map_get (usr_waiters s) (to_uid pack) = Some w \<Longrightarrow>
      async_req_acked pack s = Inr (CUser pack (resp_waiter w), s)"
    and "\<not> (sig_like pack \<or> is_response_pack pack) \<Longrightarrow> \<not> has_reply s (to_uid pack) \<Longrightarrow>
      map_get (usr_waiters s) (to_uid pack) = None \<Longrightarrow>
      async_req_acked pack s = async_req_take pack s"
proof -
  have mw: "map_ok (usr_waiters s)" using ok by (simp add: sess_ok_def)
  have l: "usr_responses (lock_ur s) = usr_responses s" by (simp add: lock_ur_def)
  note eqs = async_req_acked_def Let_def l has_reply_code [OF ok] unlock_lock_same [OF ok]
  show "sig_like pack \<or> is_response_pack pack \<Longrightarrow> async_req_acked pack s = Inr (CDone RNull, s)"
    by (simp add: async_req_acked_def)
  show "\<not> (sig_like pack \<or> is_response_pack pack) \<Longrightarrow> has_reply s (to_uid pack) \<Longrightarrow>
      async_req_acked pack s = async_req_take pack (lock_ur s)"
    by (simp add: eqs)
  show "async_req_acked pack s = Inr (CUser pack (resp_waiter w), s)"
    if "\<not> (sig_like pack \<or> is_response_pack pack)" "\<not> has_reply s (to_uid pack)"
      "map_get (usr_waiters s) (to_uid pack) = Some w"
    by (rule map_ptr_Some [OF mw that(3)]) (use that in \<open>simp add: eqs\<close>)
  show "\<not> (sig_like pack \<or> is_response_pack pack) \<Longrightarrow> \<not> has_reply s (to_uid pack) \<Longrightarrow>
      map_get (usr_waiters s) (to_uid pack) = None \<Longrightarrow>
      async_req_acked pack s = async_req_take pack s"
    using map_ptr_NoneI [OF mw, of "to_uid pack"] by (simp add: eqs)
qed

text \<open>\<open>goes_on s r\<close>: the step \<open>r\<close> from \<open>s\<close> does not fault and keeps what others rely on.\<close>

definition goes_on :: "session \<Rightarrow> addr set \<Rightarrow> (coro \<times> session) res \<Rightarrow> bool" where
  "goes_on s F r \<longleftrightarrow> (\<exists>k' s'. r = Inr (k', s') \<and> sess_ok s' \<and> stable s F s' \<and> coro_ok s' k'
     \<and> (\<forall>a. waits_on k' = Some a \<longrightarrow> waiters s a = None))"

lemma goes_onI:
  "r = Inr (k', s') \<Longrightarrow> sess_ok s' \<Longrightarrow> stable s F s' \<Longrightarrow> coro_ok s' k' \<Longrightarrow> waits_on k' = None
   \<Longrightarrow> goes_on s F r"
  by (simp add: goes_on_def)

lemma stable_refl [simp]: "stable s F s"
  by (simp add: stable_def)

lemma stable_mono: "stable s F s' \<Longrightarrow> F \<subseteq> G \<Longrightarrow> stable s G s'"
  by (auto simp: stable_def)

lemma take_goes_on:
  assumes "sess_ok s"
  shows "goes_on s F (async_req_take pack s)" and "goes_on s F (async_req_take pack (lock_ur s))"
proof -
  obtain s1 where "async_req_take pack s = Inr (CDone (reply_result (user_replies s (to_uid pack) (cmuid pack))), s1)"
    "sess_ok s1" "stable s {} s1"
    by (rule take_ok [OF sess_ok_in_I(1) [OF assms]])
  then show "goes_on s F (async_req_take pack s)"
    by (intro goes_onI) (auto intro: stable_mono)
  obtain s2 where s2: "async_req_take pack (lock_ur s)
      = Inr (CDone (reply_result (user_replies (lock_ur s) (to_uid pack) (cmuid pack))), s2)"
    "sess_ok s2" "stable (lock_ur s) {} s2"
    by (rule take_ok [OF sess_ok_in_I(2) [OF assms]])
  have "stable s F s2" using s2(3) by (auto simp: stable_def waiter_live_def lock_ur_def)
  with s2 show "goes_on s F (async_req_take pack (lock_ur s))"
    by (intro goes_onI) auto
qed

lemma acked_goes_on:
  assumes ok: "sess_ok s" and p: "packet_wf pack"
  shows "goes_on s F (async_req_acked pack s)"
proof -
  consider (plain) "sig_like pack \<or> is_response_pack pack"
    | (there) "\<not> (sig_like pack \<or> is_response_pack pack)" "has_reply s (to_uid pack)"
    | (none) "\<not> (sig_like pack \<or> is_response_pack pack)" "\<not> has_reply s (to_uid pack)"
      "map_get (usr_waiters s) (to_uid pack) = None"
    | (wait) w where "\<not> (sig_like pack \<or> is_response_pack pack)" "\<not> has_reply s (to_uid pack)"
      "map_get (usr_waiters s) (to_uid pack) = Some w"
    by (cases "map_get (usr_waiters s) (to_uid pack)") blast+
  then show ?thesis
  proof cases
    case plain
    show ?thesis by (rule goes_onI [OF acked_cases(1) [OF ok plain]]) (simp_all add: ok)
  next
    case there
    then show ?thesis using acked_cases(2) [OF ok there] take_goes_on(2) [OF ok] by simp
  next
    case none
    then show ?thesis using acked_cases(4) [OF ok none] take_goes_on(1) [OF ok] by simp
  next
    case wait
    show ?thesis
      by (rule goes_onI [OF acked_cases(3) [OF ok wait]]) (use ok wait(3) in auto)
  qed
qed

lemma trp_deserial_ok: "qb_wf d \<Longrightarrow> dsize d = trp_offset \<Longrightarrow> \<exists>t'. trp_data_deserial t d = Inr (True, t')"
  using memcpy_from_wf [of d trp_offset] by (simp add: trp_data_deserial_def)

lemma trp_deserial_total: "(\<exists>f. trp_data_deserial t d = Inl f) \<or> (\<exists>b t'. trp_data_deserial t d = Inr (b, t'))"
  by (cases "trp_data_deserial t d") auto

lemma trace_done_cases:
  assumes "sess_ok s"
  shows "goes_on s F (trace_done e answer s)
     \<or> (dsize (pdata answer) = trp_offset \<and> (\<exists>f. trace_done e answer s = Inl f))"
  using assms trp_deserial_total [of "junk_trp e" "pdata answer"]
  by (auto simp: trace_done_def intro: goes_onI)

lemma exch_done_goes_on:
  assumes ok: "sess_ok s" and p: "packet_wf pack"
    and a: "j = JTrace \<Longrightarrow> dsize (pdata answer) = trp_offset \<Longrightarrow> qb_wf (pdata answer)"
  shows "goes_on s F (exch_done e j pack answer rcode s)"
proof (cases j)
  case JReq
  then show ?thesis
    using acked_goes_on [OF ok p] ok p
    by (auto simp: exch_done_defs intro: goes_onI)
next
  case JPing
  then show ?thesis using ok p by (auto simp: exch_done_defs intro: goes_onI)
next
  case JTrace
  show ?thesis
  proof (cases "dsize (pdata answer) = trp_offset")
    case True
    then obtain t where "trp_data_deserial (junk_trp e) (pdata answer) = Inr (True, t)"
      using trp_deserial_ok [OF a] JTrace by blast
    then have "exch_done e j pack answer rcode s = Inr (CDone (RTrp t), s)"
      using True JTrace by (simp add: exch_done_defs)
    then show ?thesis by (rule goes_onI) (simp_all add: ok)
  qed (use JTrace ok in \<open>auto simp: exch_done_defs intro: goes_onI\<close>)
next
  case JTraceAns
  then show ?thesis using ok by (auto simp: exch_done_defs intro: goes_onI)
qed

lemma goes_on_via:
  assumes "goes_on s' F r" and "stable s F s'" and "\<And>a. waiters s' a = None \<Longrightarrow> waiters s a = None"
  shows "goes_on s F r"
proof -
  obtain k t where r: "r = Inr (k, t)" "sess_ok t" "stable s' F t" "coro_ok t k"
    "\<forall>a. waits_on k = Some a \<longrightarrow> waiters s' a = None"
    using assms(1) by (auto simp: goes_on_def)
  then show ?thesis
    using stable_trans [OF assms(2) r(3) assms(3)] assms(3) by (auto simp: goes_on_def)
qed

text \<open>An exchange: what each of its steps does.\<close>

lemma post_goes_on:
  assumes ok: "sess_ok s" and p: "packet_wf pack"
  shows "\<exists>r. exch_step e j pack XPost s = Some r \<and> goes_on s F r"
proof -
  obtain q where q: "dcn_post pack (if j = JTraceAns then 0 else to_uid pack) s
        = Inr (addressed s (if j = JTraceAns then 0 else to_uid pack) pack, s\<lparr>writeq := q\<rparr>)"
    "sess_ok (s\<lparr>writeq := q\<rparr>)"
    by (rule dcn_post_ok [OF ok p])
  have "stable s F (s\<lparr>writeq := q\<rparr>)" by (rule stable_same) simp_all
  with q p show ?thesis by (auto intro!: goes_onI)
qed

lemma watch_goes_on:
  assumes ok: "sess_ok s" and p: "packet_wf pack" and e: "env_ok s e"
  shows "\<exists>r. exch_step e j pack XWatch s = Some r \<and> goes_on s F r"
proof -
  let ?s = "dcn_watch (new1 e) pack s"
  note w = dcn_watch_ok [OF ok, of "new1 e" pack]
  have fresh: "waiters s (new1 e) = None" using e by (simp add: env_ok_def)
  have mem: "map_get (cnd_responses s) m \<noteq> Some (new1 e)"
    and usr: "map_get (usr_waiters s) u = Some v \<Longrightarrow> req_waiter v \<noteq> new1 e \<and> resp_waiter v \<noteq> new1 e" for m u v
    using sess_ok_cnd [OF ok] sess_ok_usr [OF ok] fresh by (force simp: waiter_live_def)+
  have same: "usr_waiters ?s = usr_waiters s" "readq ?s = readq s" "cli_uid ?s = cli_uid s"
    by (simp_all add: dcn_watch_def)
  have st: "stable s F ?s"
    using w(2,3) fresh by (auto simp: stable_def waiter_live_def same split: if_splits)
  have sole: "sole_user ?s (new1 e) (muid pack)"
    using w(2) mem usr by (auto simp: sole_user_def same split: if_splits)
  have "coro_ok ?s (CExch j pack (XWait (new1 e)))"
    using p sole w(3) by (simp add: waiter_live_def)
  with w(1) st fresh show ?thesis by (simp add: goes_on_def)
qed

lemma await_goes_on:
  assumes ok: "sess_ok s" and k: "coro_ok s (CExch j pack (XWait a))" and e: "env_ok s e"
  shows "exch_step e j pack (XWait a) s = None
     \<or> (\<exists>r. exch_step e j pack (XWait a) s = Some r \<and> (goes_on s {a} r
          \<or> reads_junk e (CExch j pack (XWait a)) s \<and> (\<exists>f. r = Inl f)))"
proof (cases "awake s a")
  case False
  then obtain w where "waiters s a = Some w" "wt_live w" "\<not> is_ready w"
    using k by (auto simp: waiter_live_def awake_def)
  then show ?thesis by (simp add: wait_response_blocked)
next
  case True
  have p: "packet_wf pack" and sole: "sole_user s a (muid pack)" using k by simp_all
  obtain s' where s': "wait_response a (muid pack) s = Some (Inr s')" "sess_ok s'"
    "s' = s\<lparr>waiters := (waiters s)(a \<mapsto> \<lparr>is_ready = False, wt_live = False\<rparr>),
            cnd_responses := map_del (muid pack) (cnd_responses s)\<rparr>"
    by (rule wait_response_ready [OF ok True sole])
  have m: "map_ok (cnd_responses s)" and mr: "map_ok (responses s')"
    using ok s'(2) by (simp_all add: sess_ok_def)
  have st: "stable s {a} s'"
    using m by (auto simp: stable_def waiter_live_def s'(3) map_get_del split: if_splits)
  have via: "goes_on s {a} r" if "goes_on s' {a} r" for r
    by (rule goes_on_via [OF that st]) (simp add: s'(3) split: if_splits)
  show ?thesis
  proof (cases "map_get (responses s') (muid pack)")
    case None
    let ?r = "exch_done e j pack (junk_pack e) UNDEFINED_ERROR s'"
    have r: "exch_step e j pack (XWait a) s = Some ?r"
      using None mr s'(1) by (simp add: dcn_getresp_missing)
    have now: "goes_on s' {a} ?r \<or> (j = JTrace \<and> dsize (pdata (junk_pack e)) = trp_offset \<and> (\<exists>f. ?r = Inl f))"
    proof (cases "j = JTrace")
      case True
      then show ?thesis
        using trace_done_cases [OF s'(2), of "{a}" e "junk_pack e"] by (simp add: exch_done_def)
    next
      case False
      then show ?thesis by (intro disjI1 exch_done_goes_on [OF s'(2) p]) simp
    qed
    have "map_get (responses s) (muid pack) = None" using None s'(3) by simp
    then show ?thesis using now r via True by (auto simp: reads_junk_def)
  next
    case (Some q)
    let ?t = "s'\<lparr>responses := map_del (muid pack) (responses s')\<rparr>"
    note gr = dcn_getresp_found(1) [OF s'(2) Some, of "junk_pack e"] dcn_getresp_found(2) [OF s'(2) Some]
    have wf: "packet_wf q" using s'(2) Some by (simp add: sess_ok_def msg_ok_def)
    have "goes_on ?t {a} (exch_done e j pack ((stored_packet q)\<lparr>cmuid := cmuid (junk_pack e)\<rparr>)
        (answer_code q) ?t)"
      by (rule exch_done_goes_on [OF gr(2) p]) (simp add: stored_packet_def)
    then have "goes_on s' {a} (exch_done e j pack ((stored_packet q)\<lparr>cmuid := cmuid (junk_pack e)\<rparr>)
        (answer_code q) ?t)"
      by (rule goes_on_via) (simp_all add: stable_same)
    with via s'(1) gr(1) show ?thesis by simp
  qed
qed

subsection \<open>Taking requests\<close>

text \<open>Popping the oldest request of \<open>u\<close> off the mailbox.\<close>

definition drop_request :: "ullong \<Rightarrow> mailbox \<Rightarrow> mailbox" where
  "drop_request u mb = mb\<lparr>mb_requests := (mb_requests mb)(u := tl (mb_requests mb u))\<rparr>"

lemma pop_request_ok:
  assumes ok: "sess_ok s"
  obtains s' where "sess_ok s'" "stable s F s'" "mailbox s' = drop_request u (mailbox s)"
    "waiters s' = waiters s" "mkeys (usr_responses s') = mkeys (usr_responses s)"
    "user_requests s u = [] \<Longrightarrow> pop_request u s = Inr (None, s')"
    "\<And>q fs. user_requests s u = packet_bytes q # fs \<Longrightarrow> packet_wf q \<Longrightarrow>
       pop_request u s = Inr (Some (packet_norm q), s')"
proof -
  have m: "map_ok (usr_responses s)" using ok by (simp add: sess_ok_def)
  show thesis
  proof (cases "map_get (usr_responses s) u")
    case None
    then have "pop_request u s = Inr (None, s)" using map_ptr_NoneI [OF m] by (simp add: pop_request_def)
    moreover have "mailbox s = drop_request u (mailbox s)"
      using None by (simp add: drop_request_def mailbox_def user_requests_def fun_eq_iff)
    ultimately show thesis using that [of s] None ok by (simp add: user_requests_def)
  next
    case (Some r)
    then have rok: "usr_resp_ok r" using ok by (simp add: sess_ok_def)
    then have q: "queue_inv (requests r)" by (simp add: usr_resp_ok_def)
    obtain i where i: "map_ptr (usr_responses s) u = Some (i, r)"
      "\<forall>w. (usr_responses s)\<lparr>mvals := (mvals (usr_responses s))[i := w]\<rparr> = map_put u w (usr_responses s)"
      by (rule map_ptr_Some [OF m Some])
    have keys: "mkeys (map_put u w (usr_responses s)) = mkeys (usr_responses s)" for w
      using i(2) by (metis cmap.select_convs(1) cmap.surjective cmap.update_convs(2))
    have mb: "mailbox (s\<lparr>usr_responses := map_put u (r\<lparr>requests := q'\<rparr>) (usr_responses s)\<rparr>)
        = drop_request u (mailbox s)" if "contents q' = tl (contents (requests r))" for q'
      using that Some m
      by (auto simp: mailbox_def drop_request_def user_requests_def user_replies_def map_get_put fun_eq_iff)
    have sok: "sess_ok (s\<lparr>usr_responses := map_put u (r\<lparr>requests := q'\<rparr>) (usr_responses s)\<rparr>)"
      if "queue_inv q'" "holds_packets (contents q')" for q'
      using that ok m rok by (simp add: sess_ok_def map_get_put waiter_live_def usr_resp_ok_def)
    show thesis
    proof (cases "contents (requests r)")
      case Nil
      then have z: "bsize (requests r) = 0" using queue_inv_bsize [OF q] by simp
      let ?s = "s\<lparr>usr_responses := map_put u (r\<lparr>requests := requests r\<rparr>) (usr_responses s)\<rparr>"
      have "pop_request u s = Inr (None, ?s)"
        using i pop_block_empty [OF z] by (simp add: pop_request_def)
      moreover have "sess_ok ?s" by (rule sok) (use q rok in \<open>simp_all add: usr_resp_ok_def\<close>)
      moreover have "mailbox ?s = drop_request u (mailbox s)" by (rule mb) (simp add: Nil)
      ultimately show thesis
        using Nil Some keys by (intro that [of ?s]) (simp_all add: stable_same user_requests_def)
    next
      case (Cons f fs)
      then have nn: "contents (requests r) \<noteq> []" by simp
      note pop = pop_block_step [OF q nn]
      let ?s = "s\<lparr>usr_responses := map_put u (r\<lparr>requests := dequeue (requests r)\<rparr>) (usr_responses s)\<rparr>"
      have "sess_ok ?s"
        by (rule sok) (use pop rok Cons in \<open>simp_all add: usr_resp_ok_def holds_packets_def\<close>)
      moreover have "mailbox ?s = drop_request u (mailbox s)" by (rule mb) (simp add: pop)
      moreover have "pop_request u s = Inr (Some (packet_norm p), ?s)"
        if "user_requests s u = packet_bytes p # gs" "packet_wf p" for p gs
      proof -
        have "f = packet_bytes p" using that(1) Cons Some by (simp add: user_requests_def)
        moreover have "packet_deserial zero_packet (mk_block (packet_bytes p)) = Inr (True, packet_norm p)"
          by (rule packet_deserial_bytes) (simp_all add: that(2))
        ultimately show ?thesis
          using i pop(1) [of "Some qblock_init"] Cons by (simp add: pop_request_def)
      qed
      ultimately show thesis
        using Cons Some keys by (intro that [of ?s]) (simp_all add: stable_same user_requests_def)
    qed
  qed
qed

lemma user_requests_packets:
  assumes "sess_ok s" and "user_requests s u = f # fs"
  obtains q where "packet_wf q" "f = packet_bytes q"
proof -
  obtain r where r: "map_get (usr_responses s) u = Some r" "contents (requests r) = f # fs"
    using assms(2) by (auto simp: user_requests_def split: option.splits)
  then have "usr_resp_ok r" using assms(1) by (simp add: sess_ok_def)
  then have "holds_packets (f # fs)" using r(2) by (simp add: usr_resp_ok_def)
  then show thesis using that by (auto simp: holds_packets_def)
qed

lemma pop_request_total:
  assumes ok: "sess_ok s"
  obtains p s' where "pop_request u s = Inr (p, s')" "sess_ok s'" "stable s F s'" "waiters s' = waiters s"
    "mkeys (usr_responses s') = mkeys (usr_responses s)"
proof -
  obtain s' where s': "sess_ok s'" "stable s F s'" "mailbox s' = drop_request u (mailbox s)"
    "waiters s' = waiters s" "mkeys (usr_responses s') = mkeys (usr_responses s)"
    "user_requests s u = [] \<Longrightarrow> pop_request u s = Inr (None, s')"
    "\<And>q fs. user_requests s u = packet_bytes q # fs \<Longrightarrow> packet_wf q \<Longrightarrow>
       pop_request u s = Inr (Some (packet_norm q), s')"
    using pop_request_ok [OF ok, where F = F and u = u] by blast
  show thesis
  proof (cases "user_requests s u")
    case Nil
    then show thesis using that s' by blast
  next
    case (Cons f fs)
    then obtain q where "packet_wf q" "f = packet_bytes q" by (rule user_requests_packets [OF ok])
    then show thesis using that s' Cons by blast
  qed
qed

text \<open>
  The loop in misc mode returns the oldest request of the first user, in the order in which they
  first wrote, that has one; it drops nothing else.
\<close>

fun first_with :: "(ullong \<Rightarrow> byte list list) \<Rightarrow> ullong list \<Rightarrow> ullong option" where
  "first_with reqs [] = None"
| "first_with reqs (u # us) = (if reqs u = [] then first_with reqs us else Some u)"

lemma first_with_None: "first_with reqs us = None \<longleftrightarrow> (\<forall>u \<in> set us. reqs u = [])"
  by (induction us) auto

lemma first_with_Some: "first_with reqs us = Some u \<Longrightarrow> u \<in> set us \<and> reqs u \<noteq> []"
  by (induction us) (auto split: if_splits)

lemma misc_loop_ok:
  assumes "sess_ok s" and "\<forall>i \<in> set is. i < mlen (usr_responses s)"
  defines "us \<equiv> map (\<lambda>i. mkeys (usr_responses s) ! i) is"
  shows "\<exists>p s'. misc_loop is s = Inr (p, s') \<and> sess_ok s' \<and> stable s F s' \<and> waiters s' = waiters s
     \<and> (first_with (user_requests s) us = None \<longrightarrow> p = None \<and> mailbox s' = mailbox s)
     \<and> (\<forall>u q fs. first_with (user_requests s) us = Some u \<longrightarrow> user_requests s u = packet_bytes q # fs
          \<longrightarrow> packet_wf q \<longrightarrow> p = Some (packet_norm q) \<and> mailbox s' = drop_request u (mailbox s))"
  using assms(1,2) unfolding us_def
proof (induction "is" arbitrary: s)
  case Nil
  then show ?case by simp
next
  case (Cons i "is")
  let ?u = "mkeys (usr_responses s) ! i"
  have key: "map_key_at (usr_responses s) 0 i = (0, ?u)"
    using Cons.prems(2) by (simp add: map_key_at_def)
  obtain t where t: "sess_ok t" "stable s F t" "mailbox t = drop_request ?u (mailbox s)"
    "waiters t = waiters s" "mkeys (usr_responses t) = mkeys (usr_responses s)"
    "user_requests s ?u = [] \<Longrightarrow> pop_request ?u s = Inr (None, t)"
    "\<And>q fs. user_requests s ?u = packet_bytes q # fs \<Longrightarrow> packet_wf q \<Longrightarrow>
       pop_request ?u s = Inr (Some (packet_norm q), t)"
    using pop_request_ok [OF Cons.prems(1), where F = F and u = ?u] by blast
  show ?case
  proof (cases "user_requests s ?u")
    case Nil
    have mb: "mailbox t = mailbox s"
      using t(3) Nil by (cases "mailbox s") (auto simp: drop_request_def mailbox_def)
    then have ur: "user_requests t = user_requests s" by (simp add: mailbox_def)
    have len: "mlen (usr_responses t) = mlen (usr_responses s)"
      using t(1,5) Cons.prems(1) by (simp add: sess_ok_def map_ok_def)
    have lim: "\<forall>i \<in> set is. i < mlen (usr_responses t)" using Cons.prems(2) len by simp
    obtain p s' where s': "misc_loop is t = Inr (p, s')" "sess_ok s'" "stable t F s'"
      "waiters s' = waiters t"
      "first_with (user_requests t) (map (\<lambda>i. mkeys (usr_responses t) ! i) is) = None
         \<longrightarrow> p = None \<and> mailbox s' = mailbox t"
      "\<forall>u q fs. first_with (user_requests t) (map (\<lambda>i. mkeys (usr_responses t) ! i) is) = Some u
         \<longrightarrow> user_requests t u = packet_bytes q # fs
         \<longrightarrow> packet_wf q \<longrightarrow> p = Some (packet_norm q) \<and> mailbox s' = drop_request u (mailbox t)"
      using Cons.IH [OF t(1) lim] by (elim exE conjE) (rule that)
    have "stable s F s'" by (rule stable_trans [OF t(2) s'(3)]) (simp add: t(4))
    moreover have "misc_loop (i # is) s = misc_loop is t" by (simp add: key t(6) [OF Nil])
    ultimately show ?thesis using s' Nil mb ur t(4,5) by auto
  next
    case (Cons f fs)
    then obtain q where q: "packet_wf q" "f = packet_bytes q"
      by (rule user_requests_packets [OF \<open>sess_ok s\<close>])
    then have pop: "pop_request ?u s = Inr (Some (packet_norm q), t)" using t(7) Cons by simp
    have inj: "packet_norm q' = packet_norm q" if "packet_bytes q' = packet_bytes q" "packet_wf q'" for q'
    proof -
      have "packet_deserial zero_packet (mk_block (packet_bytes q)) = Inr (True, packet_norm q)"
        and "packet_deserial zero_packet (mk_block (packet_bytes q)) = Inr (True, packet_norm q')"
        by (rule packet_deserial_bytes; simp add: q that)+
      then show ?thesis by simp
    qed
    have fw: "first_with (user_requests s) (map (\<lambda>i. mkeys (usr_responses s) ! i) (i # is)) = Some ?u"
      using Cons by simp
    show ?thesis
    proof (intro exI conjI allI impI)
      show "misc_loop (i # is) s = Inr (Some (packet_norm q), t)" by (simp add: key pop)
      show "sess_ok t" "stable s F t" "waiters t = waiters s" by (rule t)+
    next
      fix u q' gs
      assume "first_with (user_requests s) (map (\<lambda>i. mkeys (usr_responses s) ! i) (i # is)) = Some u"
        and u: "user_requests s u = packet_bytes q' # gs" "packet_wf q'"
      then have "u = ?u" using fw by simp
      then show "Some (packet_norm q) = Some (packet_norm q')" "mailbox t = drop_request u (mailbox s)"
        using u Cons q inj [of q'] t(3) by simp_all
    qed (simp_all add: Cons)
  qed
qed

subsection \<open>Every step keeps the invariant\<close>

lemma begin_goes_on:
  assumes ok: "sess_ok s" and p: "packet_wf pack" and e: "env_ok s e"
  shows "goes_on s F (Inr (async_req_begin (new1 e) (new2 e) pack s))"
proof -
  let ?a = "new1 e" and ?b = "new2 e"
  have fresh: "waiters s ?a = None" "waiters s ?b = None" using e by (simp_all add: env_ok_def)
  have mw: "map_ok (usr_waiters s)" using ok by (simp add: sess_ok_def)
  let ?s = "s\<lparr>waiters := (waiters s)(?a \<mapsto> waiter_init, ?b \<mapsto> waiter_init),
      usr_waiters := map_put (to_uid pack) \<lparr>req_waiter = ?a, resp_waiter = ?b\<rparr> (usr_waiters s)\<rparr>"
  show ?thesis
  proof (cases "\<not> is_response_pack pack \<and> \<not> sig_like pack \<and> \<not> map_in (usr_waiters s) (to_uid pack)")
    case True
    then have new: "map_get (usr_waiters s) (to_uid pack) = None"
      using map_in_iff [OF mw] by simp
    have live: "waiter_live ?s c" if "waiter_live s c" for c using that by (auto simp: waiter_live_def)
    have "waiter_live ?s ?a" "waiter_live ?s ?b" by (simp_all add: waiter_live_def)
    then have "sess_ok ?s"
      using ok live mw by (simp add: sess_ok_def map_get_put)
    moreover have "stable s F ?s"
      using live new fresh mw by (auto simp: stable_def map_get_put)
    moreover have eq: "async_req_begin ?a ?b pack s = (CExch JReq pack XPost, ?s)"
      using True by (simp add: async_req_begin_def)
    ultimately show ?thesis using p unfolding eq by (intro goes_onI [OF refl]) simp_all
  next
    case False
    then have eq: "async_req_begin ?a ?b pack s = (CExch JReq pack XPost, s)"
      by (auto simp: async_req_begin_def)
    show ?thesis using p ok unfolding eq by (intro goes_onI [OF refl]) simp_all
  qed
qed

text \<open>Waiting, on a live waiter.\<close>

lemma waiter_wait_live:
  assumes "wt_live w"
  shows "waiter_wait w = None \<or> (\<exists>w'. waiter_wait w = Some (Inr w') \<and> wt_live w' \<and> \<not> is_ready w')"
  using assms by (simp add: waiter_wait_def)

lemma waiter_wait_for_live:
  assumes "wt_live w"
  shows "waiter_wait_for neg x w = None \<or> (\<exists>r w'. waiter_wait_for neg x w = Some (Inr (r, w'))
     \<and> wt_live w' \<and> (is_ready w' \<longrightarrow> is_ready w))"
  using assms by (auto simp: waiter_wait_for_def waiter_wait_def)

lemma user_goes_on:
  assumes ok: "sess_ok s" and k: "coro_ok s (CUser pack a)"
  shows "coro_step e (CUser pack a) s = None \<or> (\<exists>r. coro_step e (CUser pack a) s = Some r \<and> goes_on s F r)"
proof -
  obtain w where w: "waiters s a = Some w" "wt_live w"
    using k sess_ok_usr [OF ok] by (auto simp: waiter_live_def)
  show ?thesis
  proof (cases "waiter_wait w")
    case None
    then show ?thesis using w by simp
  next
    case (Some r)
    then obtain w' where w': "waiter_wait w = Some (Inr w')" "wt_live w'" "\<not> is_ready w'"
      using waiter_wait_live [OF w(2)] by auto
    let ?s = "s\<lparr>waiters := (waiters s)(a \<mapsto> w')\<rparr>"
    have "goes_on s F (async_req_take pack ?s)"
      by (rule goes_on_via [OF take_goes_on(1) stable_set [OF w(1) w'(2)]])
        (use ok w' sess_ok_waiter in \<open>auto split: if_splits\<close>)
    then show ?thesis using w w' by simp
  qed
qed

lemma packet_result_goes_on:
  "sess_ok s' \<Longrightarrow> stable s F s' \<Longrightarrow> goes_on s F (Inr (packet_result (p, s')))"
  by (cases p) (auto simp: packet_result_def intro: goes_onI)

lemma from_goes_on:
  assumes ok: "sess_ok s" and k: "coro_ok s (CFromWait from a neg)"
  shows "from_step from a neg x s = None \<or> (\<exists>r. from_step from a neg x s = Some r \<and> goes_on s F r)"
proof -
  obtain w where w: "waiters s a = Some w" "wt_live w"
    using k sess_ok_usr [OF ok] by (auto simp: waiter_live_def)
  show ?thesis
  proof (cases "waiter_wait_for neg x w")
    case None
    then show ?thesis using w by (simp add: from_step_def)
  next
    case (Some r)
    then obtain rdy w' where w': "waiter_wait_for neg x w = Some (Inr (rdy, w'))" "wt_live w'"
      "is_ready w' \<longrightarrow> is_ready w"
      using waiter_wait_for_live [OF w(2), of neg x] by auto
    let ?s = "s\<lparr>waiters := (waiters s)(a \<mapsto> w')\<rparr>"
    have s: "sess_ok ?s" "stable s F ?s" using ok w' by (simp_all add: sess_ok_waiter stable_set [OF w(1)])
    obtain p t where t: "pop_request from ?s = Inr (p, t)" "sess_ok t" "stable ?s F t" "waiters t = waiters ?s"
      by (rule pop_request_total [OF s(1)])
    have "stable s F t" by (rule stable_trans [OF s(2) t(3)]) (simp split: if_splits)
    then have "goes_on s F (Inr (packet_result (p, t)))" by (rule packet_result_goes_on [OF t(2)])
    moreover have "goes_on s F (Inr (CDone RNull, ?s))" by (rule goes_onI [OF refl s]) simp_all
    ultimately show ?thesis using w w' t(1) by (cases rdy) (simp_all add: from_step_def)
  qed
qed

lemma misc_goes_on:
  assumes ok: "sess_ok s"
  shows "misc_step neg x s = None \<or> (\<exists>r. misc_step neg x s = Some r \<and> goes_on s F r)"
proof (cases "waiter_wait_for neg x (any_waiter s)")
  case None
  then show ?thesis by (simp add: misc_step_def)
next
  case (Some r)
  have "wt_live (any_waiter s)" using ok by (simp add: sess_ok_def)
  then obtain rdy w' where w': "waiter_wait_for neg x (any_waiter s) = Some (Inr (rdy, w'))" "wt_live w'"
    using waiter_wait_for_live [of "any_waiter s" neg x] Some by auto
  let ?s = "s\<lparr>any_waiter := w'\<rparr>"
  have s: "sess_ok ?s" "stable s F ?s"
    using ok w' by (simp_all add: sess_ok_def waiter_live_def stable_same)
  obtain p t where t: "misc_loop [0..<mlen (usr_responses ?s)] ?s = Inr (p, t)" "sess_ok t" "stable ?s F t"
    using misc_loop_ok [OF s(1), of "[0..<mlen (usr_responses ?s)]" F] by auto
  have "stable s F t" by (rule stable_trans [OF s(2) t(3)]) simp
  then have "goes_on s F (Inr (packet_result (p, t)))" by (rule packet_result_goes_on [OF t(2)])
  moreover have "goes_on s F (Inr (CDone RNull, ?s))" by (rule goes_onI [OF refl s]) simp_all
  ultimately show ?thesis using w'(1) t(1) by (cases rdy) (simp_all add: misc_step_def)
qed

lemma gtraceroutes_goes_on:
  assumes ok: "sess_ok s"
  shows "gtraceroutes_step trp0 s = None \<or> (\<exists>r. gtraceroutes_step trp0 s = Some r \<and> goes_on s F r)"
proof (cases "waiter_wait (trr_waiter s)")
  case None
  then show ?thesis by (simp add: gtraceroutes_step_def)
next
  case (Some r)
  have "wt_live (trr_waiter s)" using ok by (simp add: sess_ok_def)
  then obtain w' where w': "waiter_wait (trr_waiter s) = Some (Inr w')" "wt_live w'"
    using waiter_wait_live [of "trr_waiter s"] Some by auto
  have q: "queue_inv (trr_requests s)" using ok by (simp add: sess_ok_def)
  have fr: "sess_ok (s\<lparr>trr_waiter := w', trr_requests := q'\<rparr>)"
    "stable s F (s\<lparr>trr_waiter := w', trr_requests := q'\<rparr>)" if "queue_inv q'" for q'
    using ok w' that by (simp_all add: sess_ok_def waiter_live_def stable_same)
  show ?thesis
  proof (cases "contents (trr_requests s) = []")
    case True
    then have "bsize (trr_requests s) = 0" using queue_inv_bsize [OF q] by simp
    then have "gtraceroutes_step trp0 s
        = Some (Inr (CDone RNull, s\<lparr>trr_waiter := w', trr_requests := trr_requests s\<rparr>))"
      using w'(1) pop_block_empty by (simp add: gtraceroutes_step_def)
    then show ?thesis using fr [OF q] by (auto intro: goes_onI)
  next
    case False
    note pop = pop_block_step [OF q False]
    let ?b = "mk_block (hd (contents (trr_requests s)))"
    let ?t = "s\<lparr>trr_waiter := w', trr_requests := dequeue (trr_requests s)\<rparr>"
    obtain b d where "trp_data_deserial trp0 ?b = Inr (b, d)"
      using trp_deserial_ok [of ?b trp0] by (cases "dsize ?b = trp_offset") (auto simp: trp_data_deserial_def)
    then have "gtraceroutes_step trp0 s = Some (Inr (CDone (RTrp d), ?t))"
      using w'(1) pop(1) [of "Some qblock_init"] by (simp add: gtraceroutes_step_def)
    then show ?thesis using fr [OF pop(2)] by (auto intro: goes_onI)
  qed
qed

lemma trace_packet:
  assumes "length pad = 6"
  obtains p where "create_traceroute pad t from = Inr p" "packet_wf p" "dsize (pdata p) = trp_offset"
    "to_uid p = 0" "packtype p = pt_code TRACEROUTE" "from_os p = False"
proof -
  let ?bs = "[bool_byte (is_response t), bool_byte (success t)] @ pad @ le_bytes 8 (req_uid t)"
  have len: "length ?bs = trp_offset" using assms by (simp add: trp_offset_def)
  have wf: "qb_wf (trp_data_serial pad t)" and bs: "qb_bytes (trp_data_serial pad t) = ?bs"
    using len by (simp_all add: trp_data_serial_def qb_wf_def)
  let ?p = "\<lparr>packtype = pt_code TRACEROUTE, from_os = False, from_uid = from, to_uid = 0,
      trav_fuid = 0, trav_tuid = 0, muid = 0, cmuid = 0, pdata = mk_block ?bs\<rparr>"
  have "create_traceroute pad t from = Inr ?p"
    unfolding create_traceroute_def packet_init_def Let_def
    using qblock_dup_wf [OF wf] unfolding bs by simp
  then show thesis
    by (rule that) (use len in \<open>simp_all add: packet_wf_def trp_offset_def\<close>)
qed

lemma coro_step_goes_on:
  assumes ok: "sess_ok s" and k: "coro_ok s k" and e: "env_ok s e" and no: "waits_on k = None"
  shows "coro_step e k s = None \<or> (\<exists>r. coro_step e k s = Some r \<and> goes_on s {} r)"
proof (cases k)
  case (CReq p)
  then show ?thesis using begin_goes_on [OF ok _ e] k by simp
next
  case (CExch j p x)
  then show ?thesis
    using post_goes_on [OF ok] watch_goes_on [OF ok _ e] k no by (cases x) simp_all
next
  case (CUser p a)
  then show ?thesis using user_goes_on [OF ok, of p a e] k by simp
next
  case (CFrom u neg)
  have "coro_ok s (grequests_begin u neg s) \<and> waits_on (grequests_begin u neg s) = None"
  proof -
    have mw: "map_ok (usr_waiters s)" using ok by (simp add: sess_ok_def)
    show ?thesis
      using map_ptr_get [OF mw, of u]
      by (cases "map_ptr (usr_waiters s) u") (auto simp: grequests_begin_def; blast)+
  qed
  then show ?thesis using CFrom ok by (auto intro: goes_onI)
next
  case (CFromWait u a neg)
  then show ?thesis using from_goes_on [OF ok] k by simp
next
  case (CMisc neg)
  then show ?thesis using misc_goes_on [OF ok] by simp
next
  case CTrr
  then show ?thesis using gtraceroutes_goes_on [OF ok] by simp
next
  case (CTraceAns who)
  have "length (pad_bytes e) = 6" using e by (simp add: env_ok_def)
  then obtain p where "create_traceroute (pad_bytes e)
      \<lparr>is_response = True, success = True, req_uid = who\<rparr> (cli_uid s) = Inr p" "packet_wf p"
    by (rule trace_packet)
  then show ?thesis using CTraceAns ok by (auto intro: goes_onI)
qed simp

theorem coro_step_ok:
  assumes ok: "sess_ok s" and k: "coro_ok s k" and e: "env_ok s e"
  shows "coro_step e k s = None
     \<or> (\<exists>r. coro_step e k s = Some r \<and> (goes_on s (set_option (waits_on k)) r
          \<or> reads_junk e k s \<and> (\<exists>f. r = Inl f)))"
proof (cases "waits_on k")
  case None
  then show ?thesis using coro_step_goes_on [OF ok k e] by auto
next
  case (Some a)
  then obtain j p where j: "k = CExch j p (XWait a)" by (cases k rule: waits_on.cases) auto
  then have "coro_step e k s = exch_step e j p (XWait a) s" by simp
  then show ?thesis using await_goes_on [OF ok _ e, of j p a] k Some unfolding j by auto
qed

end
