(* ===== verification/ClientProps.thy ===== *)
theory ClientProps
  imports ClientCalls
begin

text \<open>
  What the calls of the client promise, one call at a time: what an exchange with the server
  ends in, which answer of another user a request returns, in which order requests are handed
  out, and what is left when a session ends.
\<close>

subsection \<open>Exchanges with the server\<close>

text \<open>The end of an exchange whose answer \<open>p\<close> is there: the answer leaves the mailbox.\<close>

definition drop_answer :: "ullong \<Rightarrow> mailbox \<Rightarrow> mailbox" where
  "drop_answer m mb = mb\<lparr>mb_answers := (mb_answers mb)(m := None)\<rparr>"

lemma exch_answered:
  assumes ok: "sess_ok s" and a: "awake s a" and sole: "sole_user s a (muid pack)"
    and p: "map_get (responses s) (muid pack) = Some p"
  obtains s' where "exch_step e j pack (XWait a) s
      = Some (exch_done e j pack ((stored_packet p)\<lparr>cmuid := cmuid (junk_pack e)\<rparr>) (answer_code p) s')"
    "sess_ok s'" "mailbox s' = drop_answer (muid pack) (mailbox s)" "usr_waiters s' = usr_waiters s"
    "stray_unlocks s' = stray_unlocks s" "waiters s' = (waiters s)(a \<mapsto> \<lparr>is_ready = False, wt_live = False\<rparr>)"
proof -
  obtain t where t: "wait_response a (muid pack) s = Some (Inr t)" "sess_ok t"
    "t = s\<lparr>waiters := (waiters s)(a \<mapsto> \<lparr>is_ready = False, wt_live = False\<rparr>),
           cnd_responses := map_del (muid pack) (cnd_responses s)\<rparr>"
    by (rule wait_response_ready [OF ok a sole])
  have p': "map_get (responses t) (muid pack) = Some p" using p t(3) by simp
  note gr = dcn_getresp_found(1) [OF t(2) p', of "junk_pack e"] dcn_getresp_found(2) [OF t(2) p']
  have m: "map_ok (responses s)" using ok by (simp add: sess_ok_def)
  show thesis
  proof (rule that)
    show "exch_step e j pack (XWait a) s = Some (exch_done e j pack
        ((stored_packet p)\<lparr>cmuid := cmuid (junk_pack e)\<rparr>) (answer_code p)
        (t\<lparr>responses := map_del (muid pack) (responses t)\<rparr>))"
      using t(1) gr(1) by simp
    show "sess_ok (t\<lparr>responses := map_del (muid pack) (responses t)\<rparr>)" by (rule gr(2))
  qed (simp_all add: t(3) m mailbox_def drop_answer_def user_requests_def user_replies_def map_get_del fun_eq_iff)
qed

text \<open>An answered ping: it returns if the server's code is 200 and is sent again on any other
  code; the answer is consumed in either case.\<close>

theorem ping_answered:
  assumes "sess_ok s" and "awake s a" and "sole_user s a (muid pack)"
    and "map_get (responses s) (muid pack) = Some p"
  shows "\<exists>s'. coro_step e (CExch JPing pack (XWait a)) s
     = Some (Inr (if answer_code p = OK_STATUS then CDone RNull else CExch JPing pack XPost, s'))
     \<and> sess_ok s' \<and> mailbox s' = drop_answer (muid pack) (mailbox s)"
  by (rule exch_answered [OF assms, of e JPing]) (simp add: exch_done_defs)

text \<open>An environment with two given fresh addresses.\<close>

definition trp_zero :: trp_data where
  "trp_zero = \<lparr>is_response = False, success = False, req_uid = 0\<rparr>"

definition env_with :: "addr \<Rightarrow> addr \<Rightarrow> env" where
  "env_with a b = \<lparr>junk_pack = zero_packet, junk_trp = trp_zero,
     new1 = a, new2 = b, time_up = False, pad_bytes = replicate 6 0\<rparr>"

text \<open>A session that holds one answer, and the waiter of the request it belongs to.\<close>

definition answered_session :: "32 word \<Rightarrow> session" where
  "answered_session code = (dcn_new_session 7)\<lparr>waiters := [1 \<mapsto> \<lparr>is_ready = True, wt_live = True\<rparr>],
     responses := map_put 3 ((sample_packet 0 7)\<lparr>pdata := mk_block (le_bytes 4 code)\<rparr>) (map_init 8 8)\<rparr>"

lemma answered_session_ok:
  "sess_ok (answered_session code)" "awake (answered_session code) 1"
  "sole_user (answered_session code) 1 m"
  "map_get (responses (answered_session code)) 3
     = Some ((sample_packet 0 7)\<lparr>pdata := mk_block (le_bytes 4 code)\<rparr>)"
  by (auto simp: answered_session_def sess_ok_def dcn_new_session_def usr_resp_size_def map_get_put
      msg_ok_def packet_wf_def awake_def sole_user_def)

lemma answered_session_code:
  "answer_code ((sample_packet 0 7)\<lparr>pdata := mk_block (le_bytes 4 (code :: 32 word))\<rparr>) = resp_code code"
  by (simp add: answer_code_def u32_codec.dec_enc)

theorem ping_answered_witness:
  "\<exists>s'. coro_step (env_with 2 3) (CExch JPing (sample_packet 7 0) (XWait 1)) (answered_session 200)
     = Some (Inr (CDone RNull, s'))"
  using ping_answered [OF answered_session_ok(1,2,3) [of 200], of "sample_packet 7 0" _ "env_with 2 3"]
    answered_session_ok(4) [of 200] answered_session_code [of 200]
  by (auto simp: resp_code.simps)

text \<open>A request to a UID that the server does not know never returns: the answer 101 sends it
  again, with the same packet, as often as it comes.\<close>

theorem unknown_user_retries:
  assumes "sess_ok s" and "awake s a" and "sole_user s a (muid pack)"
    and "map_get (responses s) (muid pack) = Some p" and "answer_code p = NO_SUCH_USER"
  shows "\<exists>s'. coro_step e (CExch JReq pack (XWait a)) s = Some (Inr (CExch JReq pack XPost, s'))
     \<and> sess_ok s' \<and> mailbox s' = drop_answer (muid pack) (mailbox s)"
  by (rule exch_answered [OF assms(1-4), of e JReq]) (simp add: exch_done_defs assms(5))

theorem unknown_user_retries_witness:
  "\<exists>s'. coro_step (env_with 2 3) (CExch JReq (sample_packet 7 9) (XWait 1)) (answered_session 101)
     = Some (Inr (CExch JReq (sample_packet 7 9) XPost, s'))"
  using unknown_user_retries [OF answered_session_ok(1,2,3) [of 101], of "sample_packet 7 9" _ "env_with 2 3"]
    answered_session_ok(4) [of 101] answered_session_code [of 101]
  by (auto simp: resp_code.simps)

text \<open>A traceroute always returns \<open>NULL\<close>: the server answers with a code of four bytes,
  which is not the size of \<open>struct trp_data\<close>.\<close>

theorem traceroute_returns_null:
  assumes "sess_ok s" and "awake s a" and "sole_user s a (muid pack)"
    and "map_get (responses s) (muid pack) = Some p" and "dsize (pdata p) = 4"
  shows "\<exists>s'. coro_step e (CExch JTrace pack (XWait a)) s = Some (Inr (CDone RNull, s')) \<and> sess_ok s'"
proof -
  have wf: "qb_wf (pdata p)"
    using assms(1,4) by (auto simp: sess_ok_def msg_ok_def packet_wf_def)
  then have "dsize (pdata (stored_packet p)) = 4"
    using assms(5) qb_wf_dsize [OF wf] by (simp add: stored_packet_def)
  then show ?thesis
    by (rule_tac exch_answered [OF assms(1-4), of e JTrace]) (simp add: exch_done_defs trp_offset_def)
qed

theorem traceroute_returns_null_witness:
  "\<exists>s'. coro_step (env_with 2 3) (CExch JTrace (sample_packet 7 0) (XWait 1)) (answered_session 101)
     = Some (Inr (CDone RNull, s'))"
  using traceroute_returns_null [OF answered_session_ok(1,2,3) [of 101], of "sample_packet 7 0" _ "env_with 2 3"]
    answered_session_ok(4) [of 101]
  by auto

subsection \<open>The reply of the other user\<close>

text \<open>C28: A woken request takes the reply that is filed under its user and \<open>cmuid\<close>, if there is
  one, and nothing else; on its way it unlocks a mutex that it does not hold.\<close>

theorem reply_delivered:
  assumes ok: "sess_ok s" and w: "awake s a"
  shows "\<exists>s'. coro_step e (CUser pack a) s
      = Some (Inr (CDone (reply_result (user_replies s (to_uid pack) (cmuid pack))), s'))
    \<and> sess_ok s' \<and> mailbox s' = take_reply (to_uid pack) (cmuid pack) (mailbox s)
    \<and> stray_unlocks s' = stray_unlocks s + 1"
proof -
  obtain v where v: "waiters s a = Some v" "wt_live v" "is_ready v" using w by (auto simp: awake_def)
  let ?s = "s\<lparr>waiters := (waiters s)(a \<mapsto> v\<lparr>is_ready := False\<rparr>)\<rparr>"
  have ok': "sess_ok ?s" by (rule sess_ok_waiter [OF ok]) (simp add: v)
  have same: "user_replies ?s = user_replies s" "mailbox ?s = mailbox s"
    by (simp_all add: user_replies_def user_requests_def mailbox_def fun_eq_iff)
  have "usr_responses_mtx s = Mtx 0" using ok by (simp add: sess_ok_def)
  moreover obtain s' where "async_req_take pack ?s
      = Inr (CDone (reply_result (user_replies ?s (to_uid pack) (cmuid pack))), s')"
    "sess_ok s'" "mailbox s' = take_reply (to_uid pack) (cmuid pack) (mailbox ?s)"
    "stray_unlocks s' = stray_unlocks ?s + (if usr_responses_mtx ?s = Mtx 0 then 1 else 0)"
    by (rule take_ok [OF sess_ok_in_I(1) [OF ok']])
  ultimately show ?thesis using v same by (simp add: waiter_wait_def)
qed

text \<open>A session with one reply of user 9 under \<open>cmuid\<close> \<open>c\<close>, and an answer of the server.\<close>

definition replied_session :: "ullong \<Rightarrow> session" where
  "replied_session c = (answered_session 200)\<lparr>usr_responses := map_put 9
     \<lparr>requests = queue_init, cm_responses = map_put c ((sample_packet 9 7)\<lparr>cmuid := c\<rparr>) (map_init 8 8)\<rparr>
     (map_init 8 88)\<rparr>"

lemma replied_session_ok:
  "sess_ok (replied_session c)" "awake (replied_session c) 1" "sole_user (replied_session c) 1 m"
  "map_get (responses (replied_session c)) 3
     = Some ((sample_packet 0 7)\<lparr>pdata := mk_block (le_bytes 4 (200 :: 32 word))\<rparr>)"
  "user_replies (replied_session c) 9 = [c \<mapsto> (sample_packet 9 7)\<lparr>cmuid := c\<rparr>]"
  using answered_session_ok [of 200]
  by (auto simp: replied_session_def sess_ok_def map_get_put usr_resp_ok_def awake_def sole_user_def
      holds_packets_def packet_wf_def waiter_live_def user_replies_def fun_eq_iff
      simp del: sample_packet_simps(3))

theorem reply_delivered_witness:
  "\<exists>s'. coro_step (env_with 2 3) (CUser (sample_packet 7 9) 1) (replied_session 1)
     = Some (Inr (CDone (RPacket (stored_packet ((sample_packet 9 7)\<lparr>cmuid := 1\<rparr>))), s'))"
  using reply_delivered [OF replied_session_ok(1,2) [of 1], of "env_with 2 3" "sample_packet 7 9"]
  by (auto simp: replied_session_ok(5) reply_result_def)

text \<open>An acknowledged request does not wait when any response of its user lies unclaimed: if that
  response belongs to another request, the call returns \<open>NULL\<close> at once, although its own reply may
  still come.\<close>

theorem foreign_reply_ends_wait:
  assumes ok: "sess_ok s" and a: "awake s a" and sole: "sole_user s a (muid pack)"
    and p: "map_get (responses s) (muid pack) = Some p" and code: "answer_code p = OK_STATUS"
    and plain: "\<not> sig_like pack" "\<not> is_response_pack pack"
    and other: "has_reply s (to_uid pack)" and mine: "user_replies s (to_uid pack) (cmuid pack) = None"
  shows "\<exists>s'. coro_step e (CExch JReq pack (XWait a)) s = Some (Inr (CDone RNull, s')) \<and> sess_ok s'
     \<and> mb_replies (mailbox s') = mb_replies (mailbox s)"
proof -
  obtain s1 where s1: "exch_step e JReq pack (XWait a) s
      = Some (exch_done e JReq pack ((stored_packet p)\<lparr>cmuid := cmuid (junk_pack e)\<rparr>) (answer_code p) s1)"
    "sess_ok s1" "mailbox s1 = drop_answer (muid pack) (mailbox s)"
    by (rule exch_answered [OF ok a sole p])
  have ur: "user_replies s1 = user_replies s"
    using s1(3) by (simp add: mailbox_def drop_answer_def)
  have "async_req_acked pack s1 = async_req_take pack (lock_ur s1)"
    by (rule acked_cases(2) [OF s1(2)]) (use plain other ur in \<open>simp_all add: has_reply_def\<close>)
  moreover obtain s2 where s2: "async_req_take pack (lock_ur s1)
      = Inr (CDone (reply_result (user_replies (lock_ur s1) (to_uid pack) (cmuid pack))), s2)" "sess_ok s2"
    "mailbox s2 = take_reply (to_uid pack) (cmuid pack) (mailbox (lock_ur s1))"
    by (rule take_ok [OF sess_ok_in_I(2) [OF s1(2)]])
  moreover have l: "user_replies (lock_ur s1) = user_replies s"
    using ur by (simp add: lock_ur_def user_replies_def fun_eq_iff)
  moreover have "mb_replies (mailbox s2) = mb_replies (mailbox s)"
    using s2(3) l mine by (auto simp: take_reply_def mailbox_def fun_eq_iff)
  ultimately show ?thesis using s1(1) code mine by (auto simp: exch_done_defs reply_result_def)
qed

theorem foreign_reply_ends_wait_witness:
  "\<exists>s'. coro_step (env_with 2 3) (CExch JReq (sample_packet 7 9) (XWait 1)) (replied_session 5)
     = Some (Inr (CDone RNull, s'))"
proof -
  have "has_reply (replied_session 5) 9"
    unfolding has_reply_def by (rule exI [of _ 5]) (simp add: replied_session_ok(5))
  then show ?thesis
    using foreign_reply_ends_wait [OF replied_session_ok(1,2,3) [of 5], of "sample_packet 7 9" _ "env_with 2 3"]
      replied_session_ok(4,5) [of 5] answered_session_code [of 200]
    by (auto simp: resp_code.simps sig_like_def is_response_pack_def)
qed

subsection \<open>Taking requests\<close>

lemma pop_request_any: "pop_request u s = Inr (p, s') \<Longrightarrow> any_waiter s' = any_waiter s"
  by (auto simp: pop_request_def bind_res_Inr_iff Let_def split: option.splits if_splits)

lemma misc_loop_any: "misc_loop is s = Inr (p, s') \<Longrightarrow> any_waiter s' = any_waiter s"
proof (induction "is" s arbitrary: p s' rule: misc_loop.induct)
  case (2 i "is" s)
  then show ?case
    by (auto simp: bind_res_Inr_iff split: option.splits prod.splits dest!: pop_request_any)
qed simp

text \<open>Requests from anybody are handed out by the user who wrote first, and each user's in order of
  arrival; but one call consumes the wake-up of all: a second call sleeps until another request
  arrives, whatever is still queued.\<close>

theorem misc_request_order:
  assumes ok: "sess_ok s" and w: "is_ready (any_waiter s)"
    and u: "first_with (user_requests s) (mkeys (usr_responses s)) = Some u"
    and q: "user_requests s u = packet_bytes q # fs" "packet_wf q"
  shows "\<exists>s'. coro_step e (CMisc neg) s = Some (Inr (CDone (RPacket (packet_norm q)), s')) \<and> sess_ok s'
     \<and> mailbox s' = drop_request u (mailbox s) \<and> coro_step e' (CMisc True) s' = None"
proof -
  let ?w = "(any_waiter s)\<lparr>is_ready := False\<rparr>"
  let ?s = "s\<lparr>any_waiter := ?w\<rparr>"
  have live: "wt_live (any_waiter s)" using ok by (simp add: sess_ok_def)
  have ok': "sess_ok ?s" using ok by (simp add: sess_ok_def waiter_live_def)
  have same: "user_requests ?s = user_requests s" "mailbox ?s = mailbox s"
    by (simp_all add: user_requests_def user_replies_def mailbox_def fun_eq_iff)
  have len: "length (mkeys (usr_responses s)) = mlen (usr_responses s)"
    using ok by (simp add: sess_ok_def map_ok_def)
  then have keys: "map (\<lambda>i. mkeys (usr_responses s) ! i) [0..<mlen (usr_responses s)] = mkeys (usr_responses s)"
    using nth_map_upt_id [of "mkeys (usr_responses s)"] by simp
  obtain p s' where s': "misc_loop [0..<mlen (usr_responses s)] ?s = Inr (p, s')" "sess_ok s'"
    "\<forall>u q fs. first_with (user_requests s) (mkeys (usr_responses s)) = Some u \<longrightarrow> user_requests s u = packet_bytes q # fs
          \<longrightarrow> packet_wf q \<longrightarrow> p = Some (packet_norm q) \<and> mailbox s' = drop_request u (mailbox s)"
    using misc_loop_ok [OF ok', of "[0..<mlen (usr_responses s)]" "{}"] same keys by auto
  have p: "p = Some (packet_norm q)" "mailbox s' = drop_request u (mailbox s)" using s'(3) u q by blast+
  have "any_waiter s' = ?w" using misc_loop_any [OF s'(1)] by simp
  then have "coro_step e' (CMisc True) s' = None"
    using live by (simp add: misc_step_def waiter_wait_for_def waiter_wait_def)
  moreover have "coro_step e (CMisc neg) s = Some (Inr (CDone (RPacket (packet_norm q)), s'))"
    using s'(1) p w live
    by (simp add: misc_step_def waiter_wait_for_def waiter_wait_def packet_result_def)
  ultimately show ?thesis using s'(2) p(2) by blast
qed

text \<open>Users 9 and 4 have sent a request each, in this order.\<close>

definition from_user :: "ullong \<Rightarrow> usr_resp" where
  "from_user u = usr_resp_init\<lparr>requests := enqueue queue_init (mk_block (packet_bytes (sample_packet u 7)))\<rparr>"

definition asked_session :: session where
  "asked_session = (dcn_new_session 7)\<lparr>any_waiter := \<lparr>is_ready = True, wt_live = True\<rparr>,
     usr_responses := map_put 4 (from_user 4) (map_put 9 (from_user 9) (map_init 8 88))\<rparr>"

lemma from_user_ok: "usr_resp_ok (from_user u)" "contents (requests (from_user u)) = [packet_bytes (sample_packet u 7)]"
proof -
  have "qb_wf (mk_block (packet_bytes (sample_packet u 7)))" and "queue_inv queue_init" by simp_all
  note st = push_block_step(2,3) [OF this(2,1)]
  show c: "contents (requests (from_user u)) = [packet_bytes (sample_packet u 7)]"
    using st(2) by (simp add: from_user_def)
  show "usr_resp_ok (from_user u)"
    using st(1) c by (auto simp: usr_resp_ok_def from_user_def usr_resp_init_def holds_packets_def
        intro!: exI [of _ "sample_packet u 7"])
qed

lemma asked_session_ok:
  "sess_ok asked_session" "is_ready (any_waiter asked_session)"
  "user_requests asked_session 9 = [packet_bytes (sample_packet 9 7)]"
  "mkeys (usr_responses asked_session) = [9, 4]"
proof -
  let ?m = "map_put 4 (from_user 4) (map_put 9 (from_user 9) (map_init 8 88)) :: (ullong, usr_resp) cmap"
  have m: "map_ok ?m" and get: "map_get ?m u = (if u = 4 then Some (from_user 4) else if u = 9 then Some (from_user 9) else None)" for u
    by (simp_all add: map_get_put)
  have eq: "asked_session = (dcn_new_session 7)\<lparr>any_waiter := \<lparr>is_ready = True, wt_live = True\<rparr>, usr_responses := ?m\<rparr>"
    by (simp add: asked_session_def)
  have "sess_ok (dcn_new_session 7)" by simp
  then show "sess_ok asked_session"
    unfolding eq by (simp add: sess_ok_def waiter_live_def m get from_user_ok)
  show "is_ready (any_waiter asked_session)" by (simp add: eq)
  show "user_requests asked_session 9 = [packet_bytes (sample_packet 9 7)]"
    by (simp add: eq user_requests_def get from_user_ok)
  show "mkeys (usr_responses asked_session) = [9, 4]"
    by (simp add: asked_session_def map_put_eq map_init_def find_from.simps map_ok_def)
qed

theorem misc_request_order_witness:
  "\<exists>s'. coro_step (env_with 2 3) (CMisc True) asked_session
     = Some (Inr (CDone (RPacket (packet_norm (sample_packet 9 7))), s'))"
  using misc_request_order [OF asked_session_ok(1,2) _ asked_session_ok(3)] asked_session_ok(3,4)
  by (simp del: coro_step.simps) blast

subsection \<open>Traceroute requests\<close>

text \<open>A traceroute request that arrives is queued as its 8-byte UID and taken out as a 16-byte
  record, so that \<open>async_gtraceroutes\<close> returns the indeterminate record it has just allocated,
  whatever the request said.\<close>

theorem gtraceroutes_returns_junk:
  assumes ok: "sess_ok s" and e: "contents (trr_requests s) = []"
    and p: "to_uid p = cli_uid s" "\<not> from_os p" "packtype p = pt_code TRACEROUTE"
    and t: "trp_data_deserial trp0 (pdata p) = Inr (b, t)" "\<not> is_response t"
  shows "\<exists>s1 s2. dispatch_message trp0 p s = Inr s1 \<and> sess_ok s1
     \<and> coro_step e' CTrr s1 = Some (Inr (CDone (RTrp (junk_trp e')), s2)) \<and> sess_ok s2"
proof -
  let ?b = "mk_block (le_bytes 8 (req_uid t))"
  let ?w = "(trr_waiter s)\<lparr>is_ready := True\<rparr>"
  have q: "queue_inv (trr_requests s)" and lw: "wt_live (trr_waiter s)" using ok by (simp_all add: sess_ok_def)
  have wf: "qb_wf ?b" by simp
  note st = push_block_step [OF q wf]
  have "le_bytes 8 (req_uid t) \<noteq> []" using length_le_bytes [of 8 "req_uid t"] by force
  then have "?b = \<lparr>data = Buf (le_bytes 8 (req_uid t)), dsize = 8\<rparr>" by (simp add: mk_block_def)
  then have push: "push_block True (trr_requests s) \<lparr>data = Buf (le_bytes 8 (req_uid t)), dsize = 8\<rparr>
      = Inr (0, enqueue (trr_requests s) ?b)"
    using st(1) by simp
  let ?s1 = "s\<lparr>trr_requests := enqueue (trr_requests s) ?b, trr_waiter := ?w\<rparr>"
  have d: "dispatch_message trp0 p s = Inr ?s1"
    using p t push lw by (simp add: dispatch_message_def waiter_simps qblock_init_def)
  have c: "contents (enqueue (trr_requests s) ?b) = [le_bytes 8 (req_uid t)]" using st(3) e by simp
  then have ne: "contents (enqueue (trr_requests s) ?b) \<noteq> []" by simp
  note pop = pop_block_step [OF st(2) ne]
  let ?s2 = "?s1\<lparr>trr_waiter := ?w\<lparr>is_ready := False\<rparr>, trr_requests := dequeue (enqueue (trr_requests s) ?b)\<rparr>"
  have "coro_step e' CTrr ?s1 = Some (Inr (CDone (RTrp (junk_trp e')), ?s2))"
    using pop(1) [of "Some qblock_init"] c lw
    by (simp add: gtraceroutes_step_def waiter_wait_def trp_data_deserial_def trp_offset_def)
  moreover have "sess_ok ?s1" "sess_ok ?s2" using ok st(2) pop(2) lw by (simp_all add: sess_ok_def waiter_live_def)
  ultimately show ?thesis using d by blast
qed

text \<open>A traceroute request for user 42.\<close>

definition trace_request :: packet where
  "trace_request = (sample_packet 0 7)\<lparr>packtype := pt_code TRACEROUTE,
     pdata := trp_data_serial (replicate 6 0) \<lparr>is_response = False, success = False, req_uid = 42\<rparr>\<rparr>"

lemma new_trace:
  "contents (trr_requests (dcn_new_session u)) = []" "cli_uid (dcn_new_session u) = u"
  by (simp_all add: dcn_new_session_def)

lemma trace_request_to:
  "to_uid trace_request = 7" "\<not> from_os trace_request" "packtype trace_request = pt_code TRACEROUTE"
  by (simp_all add: trace_request_def)

theorem gtraceroutes_returns_junk_witness:
  "\<exists>s1 s2. dispatch_message \<lparr>is_response = True, success = True, req_uid = 0\<rparr> trace_request (dcn_new_session 7) = Inr s1
     \<and> coro_step (env_with 1 2) CTrr s1 = Some (Inr (CDone (RTrp (junk_trp (env_with 1 2))), s2))"
proof -
  have "trp_data_deserial \<lparr>is_response = True, success = True, req_uid = 0\<rparr> (pdata trace_request)
      = Inr (True, \<lparr>is_response = False, success = False, req_uid = 42\<rparr>)"
    unfolding trace_request_def by (simp add: trp_round_trip)
  from gtraceroutes_returns_junk [OF sess_ok_new new_trace(1) _ _ _ this, of 7 "env_with 1 2"]
  show ?thesis by (auto simp: trace_request_to new_trace(2) simp del: coro_step.simps)
qed

subsection \<open>Numbering requests per user\<close>

text \<open>The numbers that \<open>last_c_muids\<close> holds: they are never written after the first request.\<close>

definition cmuids_zero :: "session \<Rightarrow> bool" where
  "cmuids_zero s \<longleftrightarrow> map_ok (last_c_muids s) \<and> (\<forall>u c. map_get (last_c_muids s) u = Some c \<longrightarrow> c = 0)"

lemma cmuids_zero_new [simp]: "cmuids_zero (dcn_new_session uid)"
  by (simp add: cmuids_zero_def dcn_new_session_def)

lemma request_cases:
  assumes z: "cmuids_zero s" and r: "request pack to trv ptype s = (p, k, s')"
  shows "cmuids_zero s'"
    and "k = None \<longleftrightarrow> to \<noteq> 0 \<and> map_get (last_c_muids s) to = None \<and> ptype = pt_code RESPONSE"
    and "k \<noteq> None \<Longrightarrow> k = Some (CReq p)
      \<and> cmuid p = (if to \<noteq> 0 \<and> map_get (last_c_muids s) to \<noteq> None \<and> ptype \<noteq> pt_code RESPONSE then 1 else 0)
      \<and> packtype p = ptype \<and> to_uid p = to"
proof -
  have m: "map_ok (last_c_muids s)" using z by (simp add: cmuids_zero_def)
  have "cmuids_zero s' \<and> (k = None \<longleftrightarrow> to \<noteq> 0 \<and> map_get (last_c_muids s) to = None \<and> ptype = pt_code RESPONSE)
      \<and> (k \<noteq> None \<longrightarrow> k = Some (CReq p)
      \<and> cmuid p = (if to \<noteq> 0 \<and> map_get (last_c_muids s) to \<noteq> None \<and> ptype \<noteq> pt_code RESPONSE then 1 else 0)
      \<and> packtype p = ptype \<and> to_uid p = to)"
  proof (cases "map_get (last_c_muids s) to")
    case None
    then show ?thesis
      using z m r map_ptr_NoneI [OF m None]
      by (auto simp: request_def Let_def cmuids_zero_def map_get_put split: if_splits)
  next
    case (Some c)
    then have c: "c = 0" using z by (simp add: cmuids_zero_def)
    obtain i where i: "map_ptr (last_c_muids s) to = Some (i, c)" by (rule map_ptr_Some [OF m Some])
    then show ?thesis using z r c Some by (auto simp: request_def Let_def split: if_splits)
  qed
  then show "cmuids_zero s'"
    and "k = None \<longleftrightarrow> to \<noteq> 0 \<and> map_get (last_c_muids s) to = None \<and> ptype = pt_code RESPONSE"
    and "k \<noteq> None \<Longrightarrow> k = Some (CReq p)
      \<and> cmuid p = (if to \<noteq> 0 \<and> map_get (last_c_muids s) to \<noteq> None \<and> ptype \<noteq> pt_code RESPONSE then 1 else 0)
      \<and> packtype p = ptype \<and> to_uid p = to"
    by blast+
qed

subsection \<open>The end of a session\<close>

definition waiter_free_at :: "addr \<Rightarrow> session \<Rightarrow> session res" where
  "waiter_free_at a s =
     (case waiters s a of
        None \<Rightarrow> Inl UseAfterFree
      | Some w \<Rightarrow> bind_res (waiter_free w) (\<lambda>w. Inr (s\<lparr>waiters := (waiters s)(a \<mapsto> w)\<rparr>)))"

text \<open>The two loops of \<open>dcn_end_session\<close>, over the users heard of and over the users asked.\<close>

fun end_responses :: "nat list \<Rightarrow> session \<Rightarrow> session" where
  "end_responses [] s = s"
| "end_responses (i # is) s =
     (case map_key_at (usr_responses s) 0 i of
        (r, key) \<Rightarrow>
          if r \<noteq> 0 then end_responses is s
          else (case map_ptr (usr_responses s) key of
            None \<Rightarrow> end_responses is s
          | Some (inx, val) \<Rightarrow> end_responses is (s\<lparr>usr_responses := (usr_responses s)
              \<lparr>mvals := (mvals (usr_responses s))[inx :=
                 \<lparr>requests = queue_free (requests val), cm_responses = map_free (cm_responses val)\<rparr>]\<rparr>\<rparr>)))"

fun end_waiters :: "nat list \<Rightarrow> session \<Rightarrow> session res" where
  "end_waiters [] s = Inr s"
| "end_waiters (i # is) s =
     (case map_key_at (usr_waiters s) 0 i of
        (r, key) \<Rightarrow>
          if r \<noteq> 0 then end_waiters is s
          else (case map_ptr (usr_waiters s) key of
            None \<Rightarrow> end_waiters is s
          | Some (_, val) \<Rightarrow>
              bind_res (waiter_free_at (req_waiter val) s) (\<lambda>s.
              bind_res (waiter_free_at (resp_waiter val) s) (\<lambda>s.
              end_waiters is (s\<lparr>waiters := (waiters s)(req_waiter val := None, resp_waiter val := None)\<rparr>)))))"

definition dcn_end_session :: "session \<Rightarrow> session res" where
  "dcn_end_session s =
     (let s = s\<lparr>last_muid := 1, cli_uid := 0, writeq := queue_free (writeq s), readq := queue_free (readq s),
                cnd_responses := map_free (cnd_responses s), responses := map_free (responses s),
                last_c_muids := map_free (last_c_muids s)\<rparr>;
          s = end_responses [0..<mlen (usr_responses s)] s;
          s = s\<lparr>usr_responses := map_free (usr_responses s)\<rparr>
      in bind_res (end_waiters [0..<mlen (usr_waiters s)] s) (\<lambda>s.
         let s = s\<lparr>usr_waiters := map_free (usr_waiters s)\<rparr> in
         bind_res (waiter_free (any_waiter s)) (\<lambda>w.
         Inr (s\<lparr>any_waiter := w, usr_responses_mtx := MtxDestroyed, usr_waiters_mtx := MtxDestroyed\<rparr>))))"

lemma map_get_free [simp]: "map_get (map_free m) k = None"
  by (simp add: map_get_def map_at_def map_free_def find_from.simps)

text \<open>The addresses of all waiters of users.\<close>

definition user_waiters :: "usr_waiter list \<Rightarrow> addr list" where
  "user_waiters ws = concat (map (\<lambda>w. [req_waiter w, resp_waiter w]) ws)"

lemma user_waiters_simps [simp]:
  "user_waiters [] = []" "user_waiters (w # ws) = req_waiter w # resp_waiter w # user_waiters ws"
  by (simp_all add: user_waiters_def)

lemma end_responses_keeps:
  "\<exists>m. end_responses is s = s\<lparr>usr_responses := m\<rparr>"
proof (induction "is" arbitrary: s)
  case Nil
  have "s = s\<lparr>usr_responses := usr_responses s\<rparr>" by simp
  then show ?case by (metis end_responses.simps(1))
next
  case (Cons i "is")
  obtain r key where k: "map_key_at (usr_responses s) 0 i = (r, key)" by (cases "map_key_at (usr_responses s) 0 i")
  have "\<exists>m. end_responses is (s\<lparr>usr_responses := n\<rparr>) = s\<lparr>usr_responses := m\<rparr>" for n
    using Cons.IH [of "s\<lparr>usr_responses := n\<rparr>"] by auto
  then show ?case
    using Cons.IH [of s] k by (auto split: option.splits)
qed

text \<open>The loop over the waiters, on those of its indices.\<close>

lemma end_waiters_frees:
  assumes m: "map_ok (usr_waiters s)" and lim: "\<forall>i \<in> set is. i < mlen (usr_waiters s)"
    and live: "\<forall>a \<in> set (user_waiters (map (\<lambda>i. mvals (usr_waiters s) ! i) is)). waiter_live s a"
    and dist: "distinct (user_waiters (map (\<lambda>i. mvals (usr_waiters s) ! i) is))"
  shows "end_waiters is s = Inr (s\<lparr>waiters := (\<lambda>a.
     if a \<in> set (user_waiters (map (\<lambda>i. mvals (usr_waiters s) ! i) is)) then None else waiters s a)\<rparr>)"
  using assms
proof (induction "is" arbitrary: s)
  case Nil
  then show ?case by simp
next
  case (Cons i "is")
  let ?v = "mvals (usr_waiters s) ! i" and ?k = "mkeys (usr_waiters s) ! i"
  have key: "map_key_at (usr_waiters s) 0 i = (0, ?k)" using Cons.prems(2) by (simp add: map_key_at_def)
  have get: "map_get (usr_waiters s) ?k = Some ?v"
    using Cons.prems(1,2) map_get_Some_iff [OF Cons.prems(1)] by auto
  obtain j where j: "map_ptr (usr_waiters s) ?k = Some (j, ?v)"
    by (rule map_ptr_Some [OF Cons.prems(1) get])
  obtain w1 w2 where w: "waiters s (req_waiter ?v) = Some w1" "wt_live w1"
    "waiters s (resp_waiter ?v) = Some w2" "wt_live w2" and ne: "req_waiter ?v \<noteq> resp_waiter ?v"
    using Cons.prems(3,4) by (auto simp: waiter_live_def)
  let ?t = "s\<lparr>waiters := (waiters s)(req_waiter ?v := None, resp_waiter ?v := None)\<rparr>"
  have step: "end_waiters (i # is) s = end_waiters is ?t"
    using key j w ne by (simp add: waiter_free_at_def waiter_simps fun_upd_twist)
  have "end_waiters is ?t = Inr (?t\<lparr>waiters := (\<lambda>a.
     if a \<in> set (user_waiters (map (\<lambda>i. mvals (usr_waiters ?t) ! i) is)) then None else waiters ?t a)\<rparr>)"
    by (rule Cons.IH) (use Cons.prems in \<open>auto simp: waiter_live_def\<close>)
  then show ?case
    unfolding step by (auto simp: fun_eq_iff intro!: arg_cong [where f = "\<lambda>w. s\<lparr>waiters := w\<rparr>"])
qed

text \<open>Ending a session frees its queues, its maps and the waiters of its users, and nothing else: the
  traceroute queue, map and waiter stay allocated, and so does the waiter of every request that has
  not been answered, whose call sleeps on.\<close>

theorem end_session_frees:
  assumes ok: "sess_ok s" and dist: "distinct (user_waiters (mvals (usr_waiters s)))"
  shows "\<exists>s'. dcn_end_session s = Inr s'
     \<and> (\<forall>a. waiters s' a = (if a \<in> set (user_waiters (mvals (usr_waiters s))) then None else waiters s a))
     \<and> readq s' = queue_free (readq s) \<and> writeq s' = queue_free (writeq s)
     \<and> map_get (cnd_responses s') = Map.empty \<and> \<not> wt_live (any_waiter s')
     \<and> trr_requests s' = trr_requests s \<and> trr_responses s' = trr_responses s \<and> trr_waiter s' = trr_waiter s"
proof -
  let ?s = "s\<lparr>last_muid := 1, cli_uid := 0, writeq := queue_free (writeq s), readq := queue_free (readq s),
                cnd_responses := map_free (cnd_responses s), responses := map_free (responses s),
                last_c_muids := map_free (last_c_muids s)\<rparr>"
  obtain m where m: "end_responses [0..<mlen (usr_responses ?s)] ?s = ?s\<lparr>usr_responses := m\<rparr>"
    using end_responses_keeps by metis
  let ?t = "?s\<lparr>usr_responses := map_free m\<rparr>"
  have wo: "map_ok (usr_waiters ?t)" and aw: "wt_live (any_waiter s)" using ok by (simp_all add: sess_ok_def)
  have vs: "map (\<lambda>i. mvals (usr_waiters ?t) ! i) [0..<mlen (usr_waiters ?t)] = mvals (usr_waiters s)"
    using wo nth_map_upt_id [of "mvals (usr_waiters s)"] by (simp add: map_ok_def)
  have live: "waiter_live ?t a" if a: "a \<in> set (user_waiters (mvals (usr_waiters s)))" for a
  proof -
    obtain w where "w \<in> set (mvals (usr_waiters s))" "a = req_waiter w \<or> a = resp_waiter w"
      using a by (auto simp: user_waiters_def)
    then obtain i where w: "i < mlen (usr_waiters s)" "w = mvals (usr_waiters s) ! i" "a = req_waiter w \<or> a = resp_waiter w"
      using wo by (auto simp: in_set_conv_nth map_ok_def)
    then have "map_get (usr_waiters s) (mkeys (usr_waiters s) ! i) = Some w"
      using map_get_Some_iff [of "usr_waiters s"] wo by auto
    then show ?thesis using sess_ok_usr [OF ok] w(3) by (auto simp: waiter_live_def)
  qed
  have wt: "waiters ?t = waiters s" by simp
  let ?ws = "\<lambda>a. if a \<in> set (user_waiters (mvals (usr_waiters s))) then None else waiters s a"
  have "end_waiters [0..<mlen (usr_waiters ?t)] ?t = Inr (?t\<lparr>waiters := ?ws\<rparr>)"
    using end_waiters_frees [OF wo, of "[0..<mlen (usr_waiters ?t)]"] live dist unfolding vs wt by simp
  then have "dcn_end_session s = Inr (?t\<lparr>waiters := ?ws, usr_waiters := map_free (usr_waiters s),
      any_waiter := (any_waiter s)\<lparr>wt_live := False\<rparr>, usr_responses_mtx := MtxDestroyed, usr_waiters_mtx := MtxDestroyed\<rparr>)"
    using m aw by (simp add: dcn_end_session_def Let_def waiter_simps)
  then show ?thesis by (simp add: fun_eq_iff)
qed

text \<open>A session with a waiting request, the waiters of the user it went to, and nothing else.\<close>

definition waiting_session :: session where
  "waiting_session = (dcn_new_session 7)\<lparr>waiters := [1 \<mapsto> waiter_init, 2 \<mapsto> waiter_init, 3 \<mapsto> waiter_init],
     usr_waiters := map_put 9 \<lparr>req_waiter = 1, resp_waiter = 2\<rparr> (map_init 8 16),
     cnd_responses := map_put 1 3 (map_init 8 8)\<rparr>"

lemma waiting_session_ok:
  "sess_ok waiting_session" "mvals (usr_waiters waiting_session) = [\<lparr>req_waiter = 1, resp_waiter = 2\<rparr>]"
  "waiters waiting_session = [1 \<mapsto> waiter_init, 2 \<mapsto> waiter_init, 3 \<mapsto> waiter_init]"
proof -
  let ?m = "map_put 9 \<lparr>req_waiter = 1, resp_waiter = 2\<rparr> (map_init 8 16) :: (ullong, usr_waiter) cmap"
  have "sess_ok (dcn_new_session 7)" by simp
  then show "sess_ok waiting_session"
    unfolding waiting_session_def by (simp add: sess_ok_def waiter_live_def map_get_put)
  show "mvals (usr_waiters waiting_session) = [\<lparr>req_waiter = 1, resp_waiter = 2\<rparr>]"
    by (simp add: waiting_session_def map_put_eq map_init_def find_from.simps map_ok_def)
  show "waiters waiting_session = [1 \<mapsto> waiter_init, 2 \<mapsto> waiter_init, 3 \<mapsto> waiter_init]"
    by (simp add: waiting_session_def)
qed

theorem end_session_frees_witness:
  "\<exists>s'. dcn_end_session waiting_session = Inr s' \<and> waiters s' 1 = None \<and> waiters s' 2 = None
     \<and> waiters s' 3 = Some waiter_init"
  using end_session_frees [OF waiting_session_ok(1)] by (auto simp: waiting_session_ok(2,3))

subsection \<open>Well-formedness\<close>



end
