(* ===== verification/ClientSystem.thy ===== *)
theory ClientSystem
  imports ClientProps
begin

text \<open>
  A running client: the thread of \<open>run_client\<close>, the handlers of received packets and any
  number of calls, interleaved at the points where they block (and inside \<open>dcn_request\<close>, see
  theory ClientCalls).  The reachable states are those of a client whose server sends
  well-formed packets; what a client suffers from a server that does not is not considered here.
\<close>

record csys =
  cl :: cloop
  ses :: session
  cor :: "nat \<rightharpoonup> coro"

definition csys_init :: "csys \<Rightarrow> bool" where
  "csys_init st \<longleftrightarrow> (\<exists>uid. st = \<lparr>cl = cloop_init, ses = dcn_new_session uid, cor = Map.empty\<rparr>)"

text \<open>
  What can have arrived so far from a well-behaved server: the beginning of a stream of packets
  that it may send.
\<close>

definition good_prefix :: "byte list \<Rightarrow> bool" where
  "good_prefix bs \<longleftrightarrow> (\<exists>ps more. (\<forall>p \<in> set ps. msg_ok p) \<and> bs @ more = concat (map packet_bytes ps))"

definition good_poll :: "csys \<Rightarrow> poll_ev \<Rightarrow> bool" where
  "good_poll st ev \<longleftrightarrow> (case cfull_read (pl_reads ev) [] of
       None \<Rightarrow> \<not> (0 < pl_ret ev \<and> pl_in ev)
     | Some (r, bs, rest) \<Rightarrow> good_prefix (qb_bytes (acc_append (pl_aok ev) (acc (cl st)) bs)))"

text \<open>The coroutines that the calls of the library start.\<close>

inductive starts :: "session \<Rightarrow> coro \<Rightarrow> session \<Rightarrow> bool" where
  start_request: "packet_wf pack \<Longrightarrow> request pack to trv ptype s = (p, Some k, s') \<Longrightarrow> starts s k s'"
| start_ping: "ping s = Inr k \<Longrightarrow> starts s k s"
| start_grequests: "starts s (async_grequests from) s"
| start_misc: "starts s (async_misc_grequests neg) s"
| start_traceroute: "length pad = 6 \<Longrightarrow> traceroute pad uid s = Inr k \<Longrightarrow> starts s k s"
| start_gtraceroutes: "starts s async_gtraceroutes s"
| start_traceroute_ans: "starts s (traceroute_ans who) s"

definition with_queues :: "session \<Rightarrow> queue \<times> queue \<Rightarrow> session" where
  "with_queues s q = s\<lparr>readq := fst q, writeq := snd q\<rparr>"

definition loop_state :: "csys \<Rightarrow> cl_state" where
  "loop_state st = (cl st, readq (ses st), writeq (ses st))"

inductive cstep :: "csys \<Rightarrow> csys \<Rightarrow> bool" where
  c_poll: "is_active (cl st) \<Longrightarrow> good_poll st ev \<Longrightarrow> on_poll ev (loop_state st) = Some (Inr (c, q)) \<Longrightarrow>
     cstep st (st\<lparr>cl := c, ses := with_queues (ses st) q\<rparr>)"
| c_message: "handlers (cl st) = Suc n \<Longrightarrow> dcn_on_message trp0 (ses st) = Inr s \<Longrightarrow>
     cstep st (st\<lparr>cl := (cl st)\<lparr>handlers := n\<rparr>, ses := s\<rparr>)"
| c_start: "cor st i = None \<Longrightarrow> starts (ses st) k s \<Longrightarrow>
     cstep st (st\<lparr>ses := s, cor := (cor st)(i \<mapsto> k)\<rparr>)"
| c_move: "cor st i = Some k \<Longrightarrow> env_ok (ses st) e \<Longrightarrow> coro_step e k (ses st) = Some (Inr (k', s)) \<Longrightarrow>
     cstep st (st\<lparr>ses := s, cor := (cor st)(i \<mapsto> k')\<rparr>)"

subsection \<open>What a well-behaved server sends\<close>

lemma next_frame_partial:
  assumes p: "packet_wf p" and bs: "bs @ ys = packet_bytes p" and ys: "ys \<noteq> []"
  shows "next_frame bs = None"
proof (rule ccontr)
  assume "next_frame bs \<noteq> None"
  then obtain f r where fr: "next_frame bs = Some (f, r)" by auto
  have "next_frame (bs @ ys) = Some (f, r @ ys)" by (rule pk.next_extend [OF fr])
  moreover have "next_frame (packet_bytes p @ []) = Some (packet_bytes p, [])"
    by (rule next_frame_packet [OF p])
  ultimately have "r @ ys = []" using bs by simp
  with ys show False by simp
qed

text \<open>The loop cuts such a stream into its packets and keeps the beginning of the next one.\<close>

lemma good_prefix_frames:
  assumes "good_prefix bs"
  obtains ps t where "frames bs = Some (map packet_bytes ps, t)" "\<forall>p \<in> set ps. msg_ok p" "good_prefix t"
proof -
  obtain qs more where q: "\<forall>p \<in> set qs. msg_ok p" "bs @ more = concat (map packet_bytes qs)"
    using assms by (auto simp: good_prefix_def)
  have "\<exists>ps t. frames bs = Some (map packet_bytes ps, t) \<and> (\<forall>p \<in> set ps. msg_ok p) \<and> good_prefix t"
    using q
  proof (induction qs arbitrary: bs)
    case Nil
    then have "frames bs = Some ([], [])" by (simp add: pk.drain_stuck next_frame_def)
    then show ?case by (intro exI [of _ "[]"] exI [of _ "[]"]) (auto simp: good_prefix_def intro: exI [of _ "[]"])
  next
    case (Cons q qs)
    have wf: "packet_wf q" using Cons.prems(1) by (simp add: msg_ok_def)
    have eq: "bs @ more = packet_bytes q @ concat (map packet_bytes qs)" using Cons.prems(2) by simp
    show ?case
    proof (cases "length bs < length (packet_bytes q)")
      case True
      then obtain ys where ys: "bs @ ys = packet_bytes q"
        using eq by (auto simp: append_eq_append_conv2)
      then have "ys \<noteq> []" using True by auto
      then have "frames bs = Some ([], bs)" by (simp add: pk.drain_stuck next_frame_partial [OF wf ys])
      moreover have "good_prefix bs"
        unfolding good_prefix_def using Cons.prems by blast
      ultimately show ?thesis by (intro exI [of _ "[]"] exI [of _ bs]) simp
    next
      case False
      let ?n = "length (packet_bytes q)"
      have "take ?n (bs @ more) = packet_bytes q" by (simp add: eq)
      then have "bs = packet_bytes q @ drop ?n bs" using False by (metis append_take_drop_id not_less take_all_iff take_append append_Nil2 diff_is_0_eq take0)
      then obtain cs where bs: "bs = packet_bytes q @ cs" ..
      then have cs: "bs = packet_bytes q @ cs" "cs @ more = concat (map packet_bytes qs)" using eq by simp_all
      obtain ps t where ps: "frames cs = Some (map packet_bytes ps, t)" "\<forall>p \<in> set ps. msg_ok p" "good_prefix t"
        using Cons.IH [OF _ cs(2)] Cons.prems(1) by auto
      have "frames bs = Some (map packet_bytes (q # ps), t)"
        using pk.drain_step [OF next_frame_packet [OF wf, of cs]] cs(1) ps(1) by simp
      moreover have "\<forall>p \<in> set (q # ps). msg_ok p" using Cons.prems(1) ps(2) by simp
      ultimately show ?thesis using ps(3) by blast
    qed
  qed
  with that show thesis by blast
qed

subsection \<open>Invariant\<close>

definition queued :: "session \<Rightarrow> byte list list" where
  "queued s = contents (readq s)"

definition from_server :: "byte list list \<Rightarrow> bool" where
  "from_server fs \<longleftrightarrow> (\<exists>ps. fs = map packet_bytes ps \<and> (\<forall>p \<in> set ps. msg_ok p))"

text \<open>
  Every queued packet has a handler, every coroutine finds the waiter it waits for alive, and no
  two exchanges share one.
\<close>

definition csys_inv :: "csys \<Rightarrow> bool" where
  "csys_inv st \<longleftrightarrow> cl_inv (loop_state st) \<and> sess_ok (ses st) \<and> from_server (queued (ses st))
     \<and> good_prefix (qb_bytes (acc (cl st))) \<and> handlers (cl st) = length (queued (ses st))
     \<and> (\<forall>i k. cor st i = Some k \<longrightarrow> coro_ok (ses st) k)
     \<and> (\<forall>i j k l a. cor st i = Some k \<longrightarrow> cor st j = Some l \<longrightarrow> waits_on k = Some a
          \<longrightarrow> waits_on l = Some a \<longrightarrow> i = j)"

lemma from_server_append: "from_server fs \<Longrightarrow> from_server gs \<Longrightarrow> from_server (fs @ gs)"
  unfolding from_server_def by (metis map_append UnE set_append)

lemma from_server_Nil [simp]: "from_server []"
  by (simp add: from_server_def)

lemma from_serverE:
  assumes "from_server fs" and "fs \<noteq> []"
  obtains p gs where "fs = packet_bytes p # gs" "msg_ok p" "from_server gs"
proof -
  obtain ps where ps: "fs = map packet_bytes ps" "\<forall>p \<in> set ps. msg_ok p"
    using assms(1) by (auto simp: from_server_def)
  then obtain p qs where "ps = p # qs" using assms(2) by (cases ps) auto
  with ps show thesis by (intro that [of p "map packet_bytes qs"]) (auto simp: from_server_def)
qed

lemma csys_inv_init: "csys_init st \<Longrightarrow> csys_inv st"
  by (auto simp: csys_init_def csys_inv_def loop_state_def queued_def cloop_init_def cl_inv_def
      dcn_new_session_def good_prefix_def sess_ok_new [unfolded dcn_new_session_def] intro: exI [of _ "[]"])

lemma sess_ok_queues:
  "sess_ok s \<Longrightarrow> queue_inv (fst q) \<Longrightarrow> queue_inv (snd q) \<Longrightarrow> sess_ok (with_queues s q)"
  by (simp add: sess_ok_def with_queues_def waiter_live_def)

lemma with_queues_simps [simp]:
  "readq (with_queues s q) = fst q" "writeq (with_queues s q) = snd q"
  "waiters (with_queues s q) = waiters s" "cnd_responses (with_queues s q) = cnd_responses s"
  "usr_waiters (with_queues s q) = usr_waiters s" "responses (with_queues s q) = responses s"
  "mailbox (with_queues s q) = mailbox s" "cli_uid (with_queues s q) = cli_uid s"
  by (simp_all add: with_queues_def mailbox_def user_requests_def user_replies_def fun_eq_iff)

lemma coro_ok_same:
  "waiters s' = waiters s \<Longrightarrow> cnd_responses s' = cnd_responses s \<Longrightarrow> usr_waiters s' = usr_waiters s
   \<Longrightarrow> coro_ok s' k \<longleftrightarrow> coro_ok s k"
  by (cases "(s, k)" rule: coro_ok.cases) (simp_all add: waiter_live_def sole_user_def)

lemma coro_ok_queues [simp]: "coro_ok (with_queues s q) k \<longleftrightarrow> coro_ok s k"
  by (rule coro_ok_same) simp_all

text \<open>A readable poll.\<close>

lemma poll_ok:
  assumes inv: "csys_inv st" and gp: "good_poll st ev"
  obtains c q where "on_poll ev (loop_state st) = Some (Inr (c, q))"
    "csys_inv (st\<lparr>cl := c, ses := with_queues (ses st) q\<rparr>)"
proof -
  let ?c = "cl st" and ?qr = "readq (ses st)" and ?qw = "writeq (ses st)"
  have cli: "cl_inv (?c, ?qr, ?qw)" and sok: "sess_ok (ses st)"
    using inv by (simp_all add: csys_inv_def loop_state_def)
  have keep: "csys_inv (st\<lparr>cl := c, ses := with_queues (ses st) q\<rparr>)"
    if "cl_inv (c, q)" "from_server (contents (fst q))" "good_prefix (qb_bytes (acc c))"
      "handlers c = length (contents (fst q))" for c q
    using that inv sess_ok_queues [OF sok, of q]
    by (simp add: csys_inv_def loop_state_def queued_def cl_inv_def split_beta)
  have stay: "csys_inv (st\<lparr>cl := c, ses := with_queues (ses st) (?qr, ?qw)\<rparr>)"
    if "acc c = acc ?c" "handlers c = handlers ?c" "alr_wr c = alr_wr ?c" for c
    by (rule keep) (use that inv in \<open>simp_all add: csys_inv_def loop_state_def cl_inv_def queued_def\<close>)
  show thesis
  proof (cases "pl_ret ev = -1 \<or> pl_ret ev \<le> 0 \<or> \<not> pl_in ev")
    case True
    have w: "\<exists>c qw. cl_writable ev (?c, ?qr, ?qw) = Inr (c, ?qr, qw) \<and> cl_inv (c, ?qr, qw)
        \<and> acc c = acc ?c \<and> handlers c = handlers ?c"
    proof (cases "contents ?qw")
      case Nil
      then show ?thesis using cl_writable_idle [OF cli] cli by blast
    next
      case (Cons x xs)
      then show ?thesis
        using cl_writable_wrote [OF cli Cons] cl_writable_stuck [OF cli, of ev] cli
        by (cases "pl_write ev") fastforce+
    qed
    show thesis
    proof (cases "0 < pl_ret ev \<and> pl_out ev")
      case out: True
      obtain c qw where c: "cl_writable ev (?c, ?qr, ?qw) = Inr (c, ?qr, qw)" "cl_inv (c, ?qr, qw)"
        "acc c = acc ?c" "handlers c = handlers ?c"
        using w by blast
      have "on_poll ev (loop_state st) = Some (Inr (c, ?qr, qw))"
        using out True c(1) by (simp add: on_poll_def loop_state_def)
      then show thesis
        by (rule that) (rule keep; use c inv in \<open>simp add: csys_inv_def queued_def\<close>)
    next
      case quiet: False
      have "\<exists>c. on_poll ev (loop_state st) = Some (Inr (c, ?qr, ?qw)) \<and> acc c = acc ?c
          \<and> handlers c = handlers ?c \<and> alr_wr c = alr_wr ?c"
        using quiet True by (auto simp: on_poll_def loop_state_def)
      then show thesis using that stay by blast
    qed
  next
    case False
    then have ev: "0 < pl_ret ev" "pl_in ev" by simp_all
    then obtain r bs rest where rd: "cfull_read (pl_reads ev) [] = Some (r, bs, rest)"
      and gpre: "good_prefix (qb_bytes (acc_append (pl_aok ev) (acc ?c) bs))"
      using gp by (auto simp: good_poll_def split: option.splits)
    show thesis
    proof (cases "r = 2")
      case True
      then have "on_poll ev (loop_state st) = Some (Inr (?c\<lparr>is_active := False\<rparr>, ?qr, ?qw))"
        using ev rd by (simp add: on_poll_def loop_state_def cl_readable_def)
      then show thesis by (rule that) (rule stay; simp)
    next
      case r: False
      obtain ps t where fr: "frames (qb_bytes (acc_append (pl_aok ev) (acc ?c) bs)) = Some (map packet_bytes ps, t)"
        and ps: "\<forall>p \<in> set ps. msg_ok p" "good_prefix t"
        by (rule good_prefix_frames [OF gpre])
      obtain a q where a: "cl_readable ev (?c, ?qr, ?qw) = Some (Inr (?c\<lparr>acc := a,
          handlers := handlers ?c + length (map packet_bytes ps)\<rparr>, q, ?qw))"
        "qb_bytes a = t" "contents q = contents ?qr @ map packet_bytes ps"
        "cl_inv (?c\<lparr>acc := a, handlers := handlers ?c + length (map packet_bytes ps)\<rparr>, q, ?qw)"
        by (rule cl_readable_frames [OF cli rd r fr])
      have "from_server (map packet_bytes ps)" using ps(1) by (auto simp: from_server_def)
      then have fs: "from_server (contents q)"
        using inv a(3) by (simp add: csys_inv_def queued_def from_server_append)
      have "on_poll ev (loop_state st) = Some (Inr (?c\<lparr>acc := a,
          handlers := handlers ?c + length (map packet_bytes ps)\<rparr>, q, ?qw))"
        using ev a(1) by (simp add: on_poll_def loop_state_def)
      then show thesis
        by (rule that) (rule keep; use a ps fs inv in \<open>simp add: csys_inv_def queued_def\<close>)
    qed
  qed
qed

text \<open>The handler of the oldest received packet.\<close>

lemma only_woke_live:
  assumes ow: "only_woke s wk s'" and live: "\<And>a. wk = Some a \<Longrightarrow> waiter_live s a"
  shows "waiters s' a = None \<longleftrightarrow> waiters s a = None" and "waiter_live s a \<Longrightarrow> waiter_live s' a"
  using ow live [of a] by (cases "wk = Some a"; auto simp: only_woke_def awake_def waiter_live_def)+

lemma woken_live: "sess_ok s \<Longrightarrow> woken_by p s = Some a \<Longrightarrow> waiter_live s a"
  using sess_ok_cnd [of s] sess_ok_usr [of s] by (auto simp: woken_by_def split: if_splits)

lemma message_stable:
  assumes ok: "sess_ok s" and ow: "only_woke s (woken_by p s) s'" and kp: "kept s s'"
  shows "coro_ok s k \<Longrightarrow> coro_ok s' k"
proof -
  have live: "waiter_live s' a" if "waiter_live s a" for a
    by (rule only_woke_live(2) [OF ow woken_live [OF ok] that])
  show "coro_ok s k \<Longrightarrow> coro_ok s' k"
    using live kp by (cases "(s, k)" rule: coro_ok.cases) (auto simp: kept_def sole_user_def)
qed

lemma message_ok:
  assumes inv: "csys_inv st" and h: "handlers (cl st) = Suc n"
  obtains p fs s where "queued (ses st) = packet_bytes p # fs" "msg_ok p"
    "dcn_on_message trp0 (ses st) = Inr s" "queued s = fs"
    "mailbox s = receive (cli_uid (ses st)) p (mailbox (ses st))"
    "only_woke (ses st) (woken_by p (ses st)) s" "kept (ses st) s" "any_waiter s = any_set_by p (ses st)"
    "csys_inv (st\<lparr>cl := (cl st)\<lparr>handlers := n\<rparr>, ses := s\<rparr>)"
proof -
  have ok: "sess_ok (ses st)" and fs: "from_server (queued (ses st))"
    and len: "length (queued (ses st)) = Suc n"
    using inv h by (simp_all add: csys_inv_def)
  then have "queued (ses st) \<noteq> []" by auto
  then obtain p gs where p: "queued (ses st) = packet_bytes p # gs" "msg_ok p" "from_server gs"
    by (rule from_serverE [OF fs])
  have c: "contents (readq (ses st)) = packet_bytes p # gs" using p(1) by (simp add: queued_def)
  obtain s where s: "dcn_on_message trp0 (ses st) = Inr s" "sess_ok s" "kept (ses st) s"
    "contents (readq s) = gs" "mailbox s = receive (cli_uid (ses st)) p (mailbox (ses st))"
    "only_woke (ses st) (woken_by p (ses st)) s" "any_waiter s = any_set_by p (ses st)"
    by (rule on_message_ok [OF ok c p(2), of trp0])
  have cl: "cl_inv (loop_state (st\<lparr>cl := (cl st)\<lparr>handlers := n\<rparr>, ses := s\<rparr>))"
    using inv s(2) by (simp add: csys_inv_def loop_state_def cl_inv_def sess_ok_def)
  have "csys_inv (st\<lparr>cl := (cl st)\<lparr>handlers := n\<rparr>, ses := s\<rparr>)"
    using inv cl s(2,4) p(1,3) h message_stable [OF ok s(6,3)]
    by (simp add: csys_inv_def queued_def)
  with p s show thesis by (intro that [of p gs s]) (simp_all add: queued_def)
qed

text \<open>New calls.\<close>

lemma request_ok:
  assumes "request pack to trv ptype s = (p, Some k, s')" and "packet_wf pack" and "map_ok (last_c_muids s)"
  shows "k = CReq p \<and> packet_wf p \<and> (\<exists>m. map_ok m \<and> s' = s\<lparr>last_c_muids := m\<rparr>)"
proof -
  have same: "s = s\<lparr>last_c_muids := last_c_muids s\<rparr>" by simp
  show ?thesis
    using assms same
    by (auto simp: request_def Let_def packet_wf_def split: if_splits option.splits
        intro: exI [of _ "last_c_muids s"] exI [of _ "map_put to 0 (last_c_muids s)"])
qed

lemma sess_ok_cmuids: "sess_ok s \<Longrightarrow> map_ok m \<Longrightarrow> sess_ok (s\<lparr>last_c_muids := m\<rparr>)"
  by (simp add: sess_ok_def waiter_live_def)

lemma starts_ok:
  assumes "starts s k s'" and ok: "sess_ok s"
  shows "sess_ok s' \<and> stable s {} s' \<and> coro_ok s' k \<and> waits_on k = None"
  using assms(1)
proof (cases rule: starts.cases)
  case (start_request pack to trv ptype p)
  have "map_ok (last_c_muids s)" using ok by (simp add: sess_ok_def)
  from request_ok [OF start_request(2,1) this] obtain m where
    "k = CReq p" "packet_wf p" "map_ok m" "s' = s\<lparr>last_c_muids := m\<rparr>" by blast
  then show ?thesis using sess_ok_cmuids [OF ok] by (simp add: stable_same)
next
  case start_ping
  then show ?thesis using ok by (auto simp: ping_def packet_init_def packet_wf_def qblock_init_def qb_wf_def)
next
  case (start_traceroute pad uid)
  obtain p where p: "create_traceroute pad \<lparr>is_response = False, success = False, req_uid = uid\<rparr> (cli_uid s) = Inr p"
    "packet_wf p"
    by (rule trace_packet [OF start_traceroute(2)])
  then have "k = CExch JTrace (stored_packet p) XPost"
    using start_traceroute copy_packet_ok [of p]
    by (simp add: traceroute_def stored_packet_def packet_wf_def)
  then show ?thesis using ok start_traceroute(1) p(2) by simp
qed (simp_all add: ok async_grequests_def async_misc_grequests_def async_gtraceroutes_def traceroute_ans_def)

text \<open>A coroutine's step, seen from the others.\<close>

lemma coro_update_inv:
  assumes inv: "csys_inv st" and ok: "sess_ok s" and st: "stable (ses st) F s"
    and k: "coro_ok s k" "\<And>a. waits_on k = Some a \<Longrightarrow> waiters (ses st) a = None"
    and F: "\<And>a. a \<in> F \<Longrightarrow> \<exists>l. cor st i = Some l \<and> waits_on l = Some a"
  shows "csys_inv (st\<lparr>ses := s, cor := (cor st)(i \<mapsto> k)\<rparr>)"
proof -
  have sole: "i' = j'" if "cor st i' = Some k'" "cor st j' = Some l'" "waits_on k' = Some a" "waits_on l' = Some a"
    for i' j' k' l' a
    using inv that unfolding csys_inv_def by blast
  have old: "coro_ok (ses st) l" if "cor st j = Some l" for j l
    using inv that by (simp add: csys_inv_def)
  have others: "coro_ok s l" if "cor st j = Some l" "j \<noteq> i" for j l
  proof (rule coro_ok_stable [OF st old [OF that(1)]])
    fix a
    assume "waits_on l = Some a"
    with F sole that show "a \<notin> F" by blast
  qed
  have fresh: "waits_on l \<noteq> Some a" if "cor st j = Some l" "waiters (ses st) a = None" for j l a
    using old [OF that(1)] that(2) by (cases l rule: waits_on.cases) (auto simp: waiter_live_def)
  have pairs: "i' = j'" if "((cor st)(i \<mapsto> k)) i' = Some k'" "((cor st)(i \<mapsto> k)) j' = Some l'"
    "waits_on k' = Some a" "waits_on l' = Some a" for i' j' k' l' a
  proof (cases "i' = i"; cases "j' = i")
    assume "i' \<noteq> i" "j' \<noteq> i"
    then show ?thesis using sole [OF _ _ that(3,4)] that(1,2) by simp
  next
    assume "i' = i" and j: "j' \<noteq> i"
    then have "k' = k" using that(1) by simp
    then show ?thesis using fresh [OF _ k(2)] that(2-4) j by auto
  next
    assume j: "i' \<noteq> i" and "j' = i"
    then have "l' = k" using that(2) by simp
    then show ?thesis using fresh [OF _ k(2)] that j by auto
  qed simp
  have rq: "readq s = readq (ses st)" using st by (simp add: stable_def)
  have sel: "ses (st\<lparr>ses := s, cor := (cor st)(i \<mapsto> k)\<rparr>) = s" "cl (st\<lparr>ses := s, cor := (cor st)(i \<mapsto> k)\<rparr>) = cl st"
    "cor (st\<lparr>ses := s, cor := (cor st)(i \<mapsto> k)\<rparr>) = (cor st)(i \<mapsto> k)"
    by simp_all
  have "cl_inv (loop_state (st\<lparr>ses := s, cor := (cor st)(i \<mapsto> k)\<rparr>))"
    using inv ok rq by (simp add: csys_inv_def loop_state_def cl_inv_def sess_ok_def)
  moreover have "\<forall>j l. ((cor st)(i \<mapsto> k)) j = Some l \<longrightarrow> coro_ok s l"
    using others k(1) by auto
  moreover have "from_server (queued s)" "handlers (cl st) = length (queued s)"
    "good_prefix (qb_bytes (acc (cl st)))"
    using inv rq by (simp_all add: csys_inv_def queued_def)
  moreover have "\<forall>i' j' k' l' a. ((cor st)(i \<mapsto> k)) i' = Some k' \<longrightarrow> ((cor st)(i \<mapsto> k)) j' = Some l'
      \<longrightarrow> waits_on k' = Some a \<longrightarrow> waits_on l' = Some a \<longrightarrow> i' = j'"
    using pairs by blast
  ultimately show ?thesis
    using ok unfolding csys_inv_def sel by (intro conjI)
qed

lemma move_ok:
  assumes inv: "csys_inv st" and i: "cor st i = Some k" and e: "env_ok (ses st) e"
  shows "coro_step e k (ses st) = None \<or> (\<exists>k' s. coro_step e k (ses st) = Some (Inr (k', s))
     \<and> csys_inv (st\<lparr>ses := s, cor := (cor st)(i \<mapsto> k')\<rparr>))
     \<or> reads_junk e k (ses st) \<and> (\<exists>f. coro_step e k (ses st) = Some (Inl f))"
proof -
  have ok: "sess_ok (ses st)" and k: "coro_ok (ses st) k" using inv i by (simp_all add: csys_inv_def)
  show ?thesis
  proof (cases "coro_step e k (ses st)")
    case (Some r)
    then consider (on) "goes_on (ses st) (set_option (waits_on k)) r" | f where "reads_junk e k (ses st)" "r = Inl f"
      using coro_step_ok [OF ok k e] by auto
    then show ?thesis
    proof cases
    case on
    then obtain k' s where r: "r = Inr (k', s)" "sess_ok s" "stable (ses st) (set_option (waits_on k)) s"
      "coro_ok s k'" "\<forall>a. waits_on k' = Some a \<longrightarrow> waiters (ses st) a = None"
      by (auto simp: goes_on_def)
    have "csys_inv (st\<lparr>ses := s, cor := (cor st)(i \<mapsto> k')\<rparr>)"
      by (rule coro_update_inv [OF inv r(2,3,4)]) (use r(5) i in auto)
    with Some r(1) show ?thesis by blast
    qed (use Some in blast)
  qed simp
qed

lemma cstep_inv: "csys_inv st \<Longrightarrow> cstep st st' \<Longrightarrow> csys_inv st'"
proof (erule cstep.cases; hypsubst)
  show "csys_inv (st\<lparr>cl := c, ses := with_queues (ses st) q\<rparr>)"
    if "csys_inv st" "good_poll st ev" "on_poll ev (loop_state st) = Some (Inr (c, q))" for st ev c q
    using poll_ok [OF that(1,2)] that(3) by force
  show "csys_inv (st\<lparr>cl := (cl st)\<lparr>handlers := n\<rparr>, ses := s\<rparr>)"
    if "csys_inv st" "handlers (cl st) = Suc n" "dcn_on_message trp0 (ses st) = Inr s" for st n trp0 s
    using message_ok [OF that(1,2), of trp0] that(3) by force
  show "csys_inv (st\<lparr>ses := s, cor := (cor st)(i \<mapsto> k)\<rparr>)"
    if "csys_inv st" "starts (ses st) k s" for st i k s
    using starts_ok [OF that(2)] that(1)
    by (intro coro_update_inv [OF that(1), where F = "{}"]) (auto simp: csys_inv_def)
  show "csys_inv (st\<lparr>ses := s, cor := (cor st)(i \<mapsto> k')\<rparr>)"
    if "csys_inv st" "cor st i = Some k" "env_ok (ses st) e" "coro_step e k (ses st) = Some (Inr (k', s))"
    for st i k e k' s
    using move_ok [OF that(1-3)] that(4) by auto
qed

interpretation cs: invariant_of csys_init cstep csys_inv
  by unfold_locales (fact csys_inv_init, fact cstep_inv)

subsection \<open>Exchanges that never end\<close>

text \<open>Coroutine \<open>i\<close> waits for an answer on a waiter that is not set.\<close>

definition asleep :: "csys \<Rightarrow> nat \<Rightarrow> addr \<Rightarrow> bool" where
  "asleep st i a \<longleftrightarrow> (\<exists>j p. cor st i = Some (CExch j p (XWait a)))
     \<and> (\<exists>w. waiters (ses st) a = Some w \<and> wt_live w \<and> \<not> is_ready w)"

definition oldest_wakes :: "csys \<Rightarrow> addr \<Rightarrow> bool" where
  "oldest_wakes st a \<longleftrightarrow> (\<exists>p fs. queued (ses st) = packet_bytes p # fs \<and> msg_ok p
     \<and> woken_by p (ses st) = Some a)"

lemma asleep_blocked:
  assumes "asleep st i a" and "cor st i = Some k"
  shows "coro_step e k (ses st) = None"
  using assms wait_response_blocked by (auto simp: asleep_def)

text \<open>Only the handler of a packet that carries its number ends the wait.\<close>

lemma asleep_step:
  assumes inv: "csys_inv st" and sl: "asleep st i a" and st: "cstep st st'" and no: "\<not> oldest_wakes st a"
  shows "asleep st' i a \<and> cor st' i = cor st i"
  using st
proof (cases rule: cstep.cases)
  case (c_poll ev c q)
  with sl show ?thesis by (simp add: asleep_def)
next
  case (c_message n trp0 s)
  obtain p fs t where m: "queued (ses st) = packet_bytes p # fs" "msg_ok p"
    "dcn_on_message trp0 (ses st) = Inr t" "queued t = fs"
    "mailbox t = receive (cli_uid (ses st)) p (mailbox (ses st))"
    "only_woke (ses st) (woken_by p (ses st)) t" "kept (ses st) t"
    by (rule message_ok [OF inv c_message(2)])
  have "woken_by p (ses st) \<noteq> Some a" using no m(1,2) by (auto simp: oldest_wakes_def)
  then have "waiters t a = waiters (ses st) a" using m(6) by (simp add: only_woke_def)
  with sl m(3) c_message show ?thesis by (auto simp: asleep_def)
next
  case (c_start i' k s)
  then have "i' \<noteq> i" using sl by (auto simp: asleep_def)
  moreover have "stable (ses st) {} s" using starts_ok [OF c_start(3)] inv by (simp add: csys_inv_def)
  then have "\<exists>w. waiters s a = Some w \<and> wt_live w \<and> \<not> is_ready w"
    using sl unfolding stable_def asleep_def by blast
  ultimately show ?thesis using sl c_start(1) by (simp add: asleep_def)
next
  case (c_move i' k e k' s)
  obtain j p where i: "cor st i = Some (CExch j p (XWait a))" using sl by (auto simp: asleep_def)
  have ne: "i' \<noteq> i"
    using asleep_blocked [OF sl] c_move(2,4) by auto
  have "goes_on (ses st) (set_option (waits_on k)) (Inr (k', s))"
    using coro_step_ok [of "ses st" k e] inv c_move by (auto simp: csys_inv_def)
  then have "stable (ses st) (set_option (waits_on k)) s" by (simp add: goes_on_def)
  moreover have "a \<notin> set_option (waits_on k)"
    using inv c_move(2) i ne unfolding csys_inv_def by force
  ultimately have "\<exists>w. waiters s a = Some w \<and> wt_live w \<and> \<not> is_ready w"
    using sl unfolding stable_def asleep_def by blast
  then show ?thesis using sl c_move(1) ne by (simp add: asleep_def)
qed

lemma asleep_run:
  assumes "csys_inv st" and "asleep st i a" and "is_run cstep st ts"
    and "\<And>t. t \<in> set (st # ts) \<Longrightarrow> \<not> oldest_wakes t a"
  shows "\<forall>t \<in> set ts. cor t i = cor st i \<and> asleep t i a"
  using assms
proof (induction ts arbitrary: st)
  case (Cons u ts)
  have u: "asleep u i a \<and> cor u i = cor st i"
    using asleep_step [OF Cons.prems(1,2)] Cons.prems(3,4) by simp
  have "csys_inv u" using cstep_inv Cons.prems(1,3) by simp
  with Cons.IH [of u] u Cons.prems show ?case by simp
qed simp

text \<open>A waiter that no registry knows is never set.\<close>

definition orphan :: "session \<Rightarrow> addr \<Rightarrow> bool" where
  "orphan s a \<longleftrightarrow> waiters s a \<noteq> None \<and> (\<forall>m. map_get (cnd_responses s) m \<noteq> Some a)
     \<and> (\<forall>u w. map_get (usr_waiters s) u = Some w \<longrightarrow> req_waiter w \<noteq> a \<and> resp_waiter w \<noteq> a)"

lemma orphan_not_woken: "orphan s a \<Longrightarrow> woken_by p s \<noteq> Some a"
  by (auto simp: orphan_def woken_by_def split: if_splits)

lemma orphan_stable:
  assumes "orphan s a" and "stable s F s'" and "waiter_live s a" and "a \<notin> F"
  shows "orphan s' a"
proof -
  have "waiter_live s' a" by (rule stable_live [OF assms(2-4)])
  then have "waiters s' a \<noteq> None" by (auto simp: waiter_live_def)
  with assms(1,2) show ?thesis unfolding orphan_def stable_def by metis
qed

lemma orphan_step:
  assumes inv: "csys_inv st" and sl: "asleep st i a" and orph: "orphan (ses st) a" and st: "cstep st st'"
  shows "orphan (ses st') a"
  using st
proof (cases rule: cstep.cases)
  case (c_poll ev c q)
  with orph show ?thesis by (simp add: orphan_def)
next
  case (c_message n trp0 s)
  obtain p fs t where m: "dcn_on_message trp0 (ses st) = Inr t" "kept (ses st) t"
    "only_woke (ses st) (woken_by p (ses st)) t"
    using message_ok [OF inv c_message(2)] by metis
  have "waiters t a = waiters (ses st) a"
    using m(3) orphan_not_woken [OF orph] by (simp add: only_woke_def)
  with orph m(1,2) c_message show ?thesis by (simp add: orphan_def kept_def)
next
  case (c_start i' k s)
  have "stable (ses st) {} s" using starts_ok [OF c_start(3)] inv by (simp add: csys_inv_def)
  moreover have "waiter_live (ses st) a" using sl by (auto simp: asleep_def waiter_live_def)
  ultimately show ?thesis using orphan_stable [OF orph] c_start(1) by simp
next
  case (c_move i' k e k' s)
  obtain j p where i: "cor st i = Some (CExch j p (XWait a))" using sl by (auto simp: asleep_def)
  have ne: "i' \<noteq> i" using asleep_blocked [OF sl] c_move(2,4) by auto
  have "goes_on (ses st) (set_option (waits_on k)) (Inr (k', s))"
    using coro_step_ok [of "ses st" k e] inv c_move by (auto simp: csys_inv_def)
  then have "stable (ses st) (set_option (waits_on k)) s" by (simp add: goes_on_def)
  moreover have "a \<notin> set_option (waits_on k)"
    using inv c_move(2) i ne unfolding csys_inv_def by force
  moreover have "waiter_live (ses st) a" using sl by (auto simp: asleep_def waiter_live_def)
  ultimately show ?thesis using orphan_stable [OF orph] c_move(1) by simp
qed

lemma orphan_run:
  assumes "csys_inv st" and "asleep st i a" and "orphan (ses st) a" and "is_run cstep st ts"
  shows "\<forall>t \<in> set ts. cor t i = cor st i \<and> asleep t i a"
  using assms
proof (induction ts arbitrary: st)
  case (Cons u ts)
  have no: "\<not> oldest_wakes st a" using orphan_not_woken [OF Cons.prems(3)] by (auto simp: oldest_wakes_def)
  have u: "asleep u i a \<and> cor u i = cor st i"
    using asleep_step [OF Cons.prems(1,2) _ no] Cons.prems(4) by simp
  have "csys_inv u" using cstep_inv Cons.prems(1,4) by simp
  moreover have "orphan (ses u) a" using orphan_step [OF Cons.prems(1-3)] Cons.prems(4) by simp
  ultimately show ?case using Cons.IH [of u] u Cons.prems by simp
qed simp

subsection \<open>Runs\<close>

abbreviation creach :: "csys \<Rightarrow> bool" where
  "creach \<equiv> reach csys_init cstep"

lemma creach_step: "creach s \<Longrightarrow> cstep s t \<Longrightarrow> creach t"
  by (rule reach_step)

definition started :: "ullong \<Rightarrow> csys" where
  "started uid = \<lparr>cl = cloop_init, ses = dcn_new_session uid, cor = Map.empty\<rparr>"

lemma creach_started: "creach (started uid)"
  by (rule reach_init) (auto simp: csys_init_def started_def)

lemma env_with_ok: "waiters s a = None \<Longrightarrow> waiters s b = None \<Longrightarrow> a \<noteq> b \<Longrightarrow> env_ok s (env_with a b)"
  by (simp add: env_ok_def env_with_def zero_packet_def trp_offset_def qblock_init_def)

definition dest_of :: "job \<Rightarrow> packet \<Rightarrow> ullong" where
  "dest_of j p = (if j = JTraceAns then 0 else to_uid p)"

lemma post_move:
  assumes ok: "sess_ok s" and p: "packet_wf p"
  obtains q where "coro_step e (CExch j p XPost) s
      = Some (Inr (CExch j (addressed s (dest_of j p) p) XWatch, s\<lparr>writeq := q\<rparr>))"
    "contents q = contents (writeq s) @ [packet_bytes (addressed s (dest_of j p) p)]"
proof -
  obtain q where q: "dcn_post p (dest_of j p) s = Inr (addressed s (dest_of j p) p, s\<lparr>writeq := q\<rparr>)"
    "contents q = contents (writeq s) @ [packet_bytes (addressed s (dest_of j p) p)]"
    by (rule dcn_post_ok [OF ok p])
  from q(1) have "coro_step e (CExch j p XPost) s
      = Some (Inr (CExch j (addressed s (dest_of j p) p) XWatch, s\<lparr>writeq := q\<rparr>))"
    by (simp add: dest_of_def)
  with q(2) show thesis by (rule that [rotated])
qed

lemma post_step:
  assumes r: "creach st" and i: "cor st i = Some (CExch j p XPost)" and e: "env_ok (ses st) e"
  obtains q where "cstep st (st\<lparr>ses := (ses st)\<lparr>writeq := q\<rparr>,
      cor := (cor st)(i \<mapsto> CExch j (addressed (ses st) (dest_of j p) p) XWatch)\<rparr>)"
    "contents q = contents (writeq (ses st)) @ [packet_bytes (addressed (ses st) (dest_of j p) p)]"
proof -
  have inv: "csys_inv st" by (rule cs.reach_inv [OF r])
  have ok: "sess_ok (ses st)" using inv by (simp add: csys_inv_def)
  have "coro_ok (ses st) (CExch j p XPost)" using inv i unfolding csys_inv_def by blast
  then have p: "packet_wf p" by simp
  show thesis by (rule post_move [OF ok p, of e j]) (rule that [OF c_move [OF i e]])
qed

lemma watch_step:
  assumes i: "cor st i = Some (CExch j p XWatch)" and e: "env_ok (ses st) e"
  shows "cstep st (st\<lparr>ses := dcn_watch (new1 e) p (ses st),
      cor := (cor st)(i \<mapsto> CExch j p (XWait (new1 e)))\<rparr>)"
  by (rule c_move [OF i e]) simp

text \<open>One packet arrives, whole, on an idle connection.\<close>

lemma receive_poll:
  assumes inv: "csys_inv st" and idle: "queued (ses st) = []" "qb_bytes (acc (cl st)) = []" and p: "msg_ok p"
  obtains ev c q where "good_poll st ev" "on_poll ev (loop_state st) = Some (Inr (c, q, writeq (ses st)))"
    "contents q = [packet_bytes p]" "qb_bytes (acc c) = []" "is_active c = is_active (cl st)"
    "handlers c = Suc (handlers (cl st))"
proof -
  have wf: "packet_wf p" using p by (simp add: msg_ok_def)
  let ?ev = "\<lparr>pl_ret = 1, pl_in = True, pl_out = False, pl_reads = [ReadBytes (packet_bytes p) True, ReadAgain],
      pl_aok = True, pl_sok = True, pl_write = WouldBlock\<rparr>"
  have ne: "packet_bytes p \<noteq> []" using length_packet_bytes [OF wf] by auto
  then obtain r rest where rd: "cfull_read (pl_reads ?ev) [] = Some (r, packet_bytes p, rest)" "r \<noteq> 2"
    by (cases "length (packet_bytes p) = MAX_BUFFER_SIZE") auto
  have cli: "cl_inv (cl st, readq (ses st), writeq (ses st))"
    using inv by (simp add: csys_inv_def loop_state_def)
  then have aw: "qb_bytes (acc_append True (acc (cl st)) (packet_bytes p)) = packet_bytes p"
    using idle(2) by (simp add: cl_inv_def)
  have fr: "frames (qb_bytes (acc_append (pl_aok ?ev) (acc (cl st)) (packet_bytes p))) = Some ([packet_bytes p], [])"
    using frames_packets [of "[p]" "[]"] wf aw by (simp add: next_frame_def)
  have gp: "good_poll st ?ev"
    using rd aw p unfolding good_poll_def good_prefix_def
    by (simp del: cfull_read.simps) (intro exI [of _ "[p]"], simp)
  obtain a q where a: "cl_readable ?ev (cl st, readq (ses st), writeq (ses st))
      = Some (Inr ((cl st)\<lparr>acc := a, handlers := handlers (cl st) + length [packet_bytes p]\<rparr>, q, writeq (ses st)))"
    "qb_bytes a = []" "contents q = contents (readq (ses st)) @ [packet_bytes p]"
    by (rule cl_readable_frames [OF cli rd fr])
  have "on_poll ?ev (loop_state st) = Some (Inr ((cl st)\<lparr>acc := a,
      handlers := handlers (cl st) + length [packet_bytes p]\<rparr>, q, writeq (ses st)))"
    using a(1) by (simp add: on_poll_def loop_state_def)
  then show thesis by (rule that [OF gp]) (use a(2,3) idle(1) in \<open>simp_all add: queued_def\<close>)
qed

lemma receive_step:
  assumes r: "creach st" and act: "is_active (cl st)" and idle: "queued (ses st) = []" "qb_bytes (acc (cl st)) = []"
    and p: "msg_ok p"
  obtains st' where "cstep st st'" "queued (ses st') = [packet_bytes p]" "qb_bytes (acc (cl st')) = []"
    "is_active (cl st')" "cor st' = cor st" "\<exists>q. ses st' = with_queues (ses st) (q, writeq (ses st))"
proof -
  obtain ev c q where ev: "good_poll st ev" "on_poll ev (loop_state st) = Some (Inr (c, q, writeq (ses st)))"
    and q: "contents q = [packet_bytes p]" "qb_bytes (acc c) = []" "is_active c = is_active (cl st)"
    by (rule receive_poll [OF cs.reach_inv [OF r] idle p])
  show thesis by (rule that [OF c_poll [OF act ev]]) (use q act in \<open>auto simp: queued_def\<close>)
qed

lemma started_facts:
  "is_active (cl (started uid))" "queued (ses (started uid)) = []" "qb_bytes (acc (cl (started uid))) = []"
  "waiters (ses (started uid)) a = None" "cor (started uid) i = None" "last_muid (ses (started uid)) = 1"
  "cli_uid (ses (started uid)) = uid" "map_get (cnd_responses (ses (started uid))) m = None"
  "map_get (usr_waiters (ses (started uid))) v = None"
  "stray_unlocks (ses (started uid)) = 0"
  by (simp_all add: started_def cloop_init_def queued_def dcn_new_session_def)

text \<open>The answer of the server to a request, as theory DcnServer makes it.\<close>

definition server_answer :: "32 word \<Rightarrow> ullong \<Rightarrow> ullong \<Rightarrow> packet" where
  "server_answer code uid m =
     \<lparr>packtype = pt_code REQUEST, from_os = False, from_uid = 0, to_uid = uid, trav_fuid = 0,
      trav_tuid = 0, muid = m, cmuid = 0, pdata = mk_block (le_bytes 4 code)\<rparr>"

lemma server_answer_ok [simp]: "msg_ok (server_answer c u m)"
  by (simp add: msg_ok_def server_answer_def packet_wf_def)

text \<open>A ping that has just been called.\<close>

definition ping_packet :: "ullong \<Rightarrow> packet" where
  "ping_packet uid = \<lparr>packtype = pt_code PING, from_os = False, from_uid = uid, to_uid = 0,
     trav_fuid = 0, trav_tuid = 0, muid = 0, cmuid = 0, pdata = qblock_init\<rparr>"

lemma ping_starts: "starts s (CExch JPing (ping_packet (cli_uid s)) XPost) s"
  by (rule start_ping) (simp add: ping_def packet_init_def ping_packet_def)



text \<open>A packet that arrives on an idle connection is handled.\<close>

lemma handled_step:
  assumes r: "creach st" and act: "is_active (cl st)" and idle: "queued (ses st) = []" "qb_bytes (acc (cl st)) = []"
    and p: "msg_ok p"
  obtains st' where "creach st'" "is_active (cl st')" "queued (ses st') = []" "qb_bytes (acc (cl st')) = []"
    "cor st' = cor st" "mailbox (ses st') = receive (cli_uid (ses st)) p (mailbox (ses st))"
    "only_woke (ses st) (woken_by p (ses st)) (ses st')" "kept (ses st) (ses st')"
proof -
  obtain st1 where st1: "cstep st st1" "queued (ses st1) = [packet_bytes p]" "qb_bytes (acc (cl st1)) = []"
    "is_active (cl st1)" "cor st1 = cor st" "\<exists>q. ses st1 = with_queues (ses st) (q, writeq (ses st))"
    by (rule receive_step [OF r act idle p])
  obtain x where x: "ses st1 = with_queues (ses st) (x, writeq (ses st))" using st1(6) by blast
  have r1: "creach st1" by (rule creach_step [OF r st1(1)])
  note inv = cs.reach_inv [OF r1]
  have h: "handlers (cl st1) = Suc 0" using inv st1(2) by (simp add: csys_inv_def)
  have ok: "sess_ok (ses st1)" using inv by (simp add: csys_inv_def)
  have c: "contents (readq (ses st1)) = packet_bytes p # []" using st1(2) by (simp add: queued_def)
  obtain s where m: "dcn_on_message trp_zero (ses st1) = Inr s" "kept (ses st1) s" "contents (readq s) = []"
    "mailbox s = receive (cli_uid (ses st1)) p (mailbox (ses st1))" "only_woke (ses st1) (woken_by p (ses st1)) s"
    using on_message_ok [OF ok c p, of trp_zero] by metis
  have same: "cli_uid (ses st1) = cli_uid (ses st)" "mailbox (ses st1) = mailbox (ses st)"
    "woken_by p (ses st1) = woken_by p (ses st)" "waiters (ses st1) = waiters (ses st)"
    by (simp_all add: x with_queues_def mailbox_def user_requests_def user_replies_def woken_by_def fun_eq_iff)
  have k: "kept (ses st) s" using m(2) by (simp add: x with_queues_def kept_def)
  show thesis
    by (rule that [OF creach_step [OF r1 c_message [OF h m(1)]]])
      (use m st1 same k in \<open>simp_all add: queued_def only_woke_def\<close>)
qed



lemma packet_result_stray: "stray_unlocks (snd (packet_result (r, s))) = stray_unlocks s"
  by (cases r) (simp_all add: packet_result_def)






subsection \<open>Properties\<close>



text \<open>C4: Handling the oldest received packet does to the session's mailbox what the specification
  \<open>receive\<close> says (a request joins its sender's requests, a response is filed under its sender and
  \<open>cmuid\<close>, an answer of the server under its \<open>muid\<close>, a packet for another user is
  dropped), wakes exactly the waiter registered for it, sets the waiter for anybody exactly for a
  request of another user, and touches no other session data.\<close>

theorem message_refines_mailbox:
  assumes "creach st" and "handlers (cl st) = Suc n"
  shows "\<exists>p s. msg_ok p \<and> queued (ses st) = packet_bytes p # queued s
     \<and> dcn_on_message trp0 (ses st) = Inr s
     \<and> mailbox s = receive (cli_uid (ses st)) p (mailbox (ses st))
     \<and> only_woke (ses st) (woken_by p (ses st)) s \<and> any_waiter s = any_set_by p (ses st) \<and> kept (ses st) s"
  using message_ok [OF cs.reach_inv [OF assms(1)] assms(2), of trp0] by metis

lemma creach_with_packet:
  obtains st where "creach st" "queued (ses st) = [packet_bytes (server_answer 200 7 1)]"
    "handlers (cl st) = 1" "cor st = Map.empty"
proof -
  obtain st where st: "cstep (started 7) st" "queued (ses st) = [packet_bytes (server_answer 200 7 1)]"
    "cor st = cor (started 7)"
    using receive_step [OF creach_started started_facts(1,2,3) server_answer_ok] by metis
  have r: "creach st" by (rule creach_step [OF creach_started st(1)])
  then have "handlers (cl st) = 1" using cs.reach_inv [OF r] st(2) by (simp add: csys_inv_def)
  with r st show thesis by (intro that [of st]) (simp_all add: started_def)
qed

theorem message_refines_mailbox_witness:
  "\<exists>st p s trp0. creach st \<and> msg_ok p \<and> queued (ses st) = packet_bytes p # queued s
     \<and> dcn_on_message trp0 (ses st) = Inr s
     \<and> mailbox s = receive (cli_uid (ses st)) p (mailbox (ses st))"
proof -
  obtain st where st: "creach st" "handlers (cl st) = Suc 0"
    by (rule creach_with_packet) (simp add: that)
  with message_refines_mailbox [OF st] show ?thesis by blast
qed

text \<open>No received packet is left without a handler: in every reachable state there is exactly
  one scheduled handler for each packet in the read queue.\<close>

theorem client_packet_has_handler:
  assumes "creach st"
  shows "handlers (cl st) = length (contents (readq (ses st)))"
  using cs.reach_inv [OF assms] by (simp add: csys_inv_def queued_def)

theorem client_packet_has_handler_witness:
  "\<exists>st. creach st \<and> contents (readq (ses st)) \<noteq> [] \<and> handlers (cl st) = 1"
proof -
  obtain st where st: "creach st" "queued (ses st) = [packet_bytes (server_answer 200 7 1)]"
    by (rule creach_with_packet) (simp add: that)
  with client_packet_has_handler [OF st(1)] show ?thesis
    by (intro exI [of _ st]) (simp add: queued_def)
qed

text \<open>\<open>hangs st i\<close>: whatever happens next, coroutine \<open>i\<close> stays where it is.\<close>

definition hangs :: "csys \<Rightarrow> nat \<Rightarrow> bool" where
  "hangs st i \<longleftrightarrow> (\<forall>ts. is_run cstep st ts \<longrightarrow> (\<forall>t \<in> set ts. cor t i = cor st i))"

text \<open>The same as long as no further packet arrives.\<close>

definition hangs_in_silence :: "csys \<Rightarrow> nat \<Rightarrow> bool" where
  "hangs_in_silence st i \<longleftrightarrow> (\<forall>ts. is_run cstep st ts \<longrightarrow> (\<forall>t \<in> set (st # ts). queued (ses t) = [])
     \<longrightarrow> (\<forall>t \<in> set ts. cor t i = cor st i))"


lemma watch_asleep:
  assumes i: "cor st i = Some (CExch j p XWatch)" and e: "env_ok (ses st) e"
  defines "st' \<equiv> st\<lparr>ses := dcn_watch (new1 e) p (ses st), cor := (cor st)(i \<mapsto> CExch j p (XWait (new1 e)))\<rparr>"
  shows "cstep st st'" and "asleep st' i (new1 e)"
proof -
  show "cstep st st'" unfolding st'_def by (rule watch_step [OF i e])
  show "asleep st' i (new1 e)" by (simp add: st'_def asleep_def dcn_watch_def)
qed

text \<open>C37: The message number is read before it is advanced: whenever two calls are about to post,
  there is an execution in which both post the same number, the second registration replaces the
  first, and the first call never returns, whatever the server sends.\<close>

theorem muid_race_hangs:
  assumes r: "creach st" and i: "cor st i = Some (CExch j p XPost)" and i': "cor st i' = Some (CExch j' p' XPost)"
    and ne: "i \<noteq> i'" and fresh: "waiters (ses st) a = None" "waiters (ses st) b = None"
      "waiters (ses st) c = None" "distinct [a, b, c]"
  shows "\<exists>st' q q'. creach st' \<and> cor st' i = Some (CExch j q (XWait a))
     \<and> cor st' i' = Some (CExch j' q' (XWait b)) \<and> muid q = muid q' \<and> hangs st' i"
proof -
  let ?m = "last_muid (ses st)"
  let ?q = "addressed (ses st) (dest_of j p) p" and ?q' = "addressed (ses st) (dest_of j' p') p'"
  have e: "env_ok (ses st) (env_with a b)" using fresh by (intro env_with_ok) simp_all
  obtain w1 where s1: "cstep st (st\<lparr>ses := (ses st)\<lparr>writeq := w1\<rparr>, cor := (cor st)(i \<mapsto> CExch j ?q XWatch)\<rparr>)"
    by (rule post_step [OF r i e])
  let ?s1 = "st\<lparr>ses := (ses st)\<lparr>writeq := w1\<rparr>, cor := (cor st)(i \<mapsto> CExch j ?q XWatch)\<rparr>"
  have r1: "creach ?s1" by (rule creach_step [OF r s1])
  have e1: "env_ok (ses ?s1) (env_with a b)" using fresh by (intro env_with_ok) simp_all
  have i1: "cor ?s1 i' = Some (CExch j' p' XPost)" using i' ne by simp
  obtain w2 where s2: "cstep ?s1 (?s1\<lparr>ses := (ses ?s1)\<lparr>writeq := w2\<rparr>,
      cor := (cor ?s1)(i' \<mapsto> CExch j' (addressed (ses ?s1) (dest_of j' p') p') XWatch)\<rparr>)"
    by (rule post_step [OF r1 i1 e1])
  let ?s2 = "?s1\<lparr>ses := (ses ?s1)\<lparr>writeq := w2\<rparr>, cor := (cor ?s1)(i' \<mapsto> CExch j' ?q' XWatch)\<rparr>"
  have "addressed (ses ?s1) (dest_of j' p') p' = ?q'" by (simp add: addressed_def)
  then have r2: "creach ?s2" using creach_step [OF r1 s2] by simp
  have i2: "cor ?s2 i = Some (CExch j ?q XWatch)" using ne by simp
  have e2: "env_ok (ses ?s2) (env_with a c)" using fresh by (intro env_with_ok) simp_all
  let ?s3 = "?s2\<lparr>ses := dcn_watch a ?q (ses ?s2), cor := (cor ?s2)(i \<mapsto> CExch j ?q (XWait a))\<rparr>"
  have new: "new1 (env_with x y) = x" for x y by (simp add: env_with_def)
  have s3: "cstep ?s2 ?s3" and a3: "asleep ?s3 i a" using watch_asleep [OF i2 e2] by (simp_all only: new)
  have r3: "creach ?s3" by (rule creach_step [OF r2 s3])
  have i3: "cor ?s3 i' = Some (CExch j' ?q' XWatch)" using ne by simp
  have e3: "env_ok (ses ?s3) (env_with b c)" using fresh by (intro env_with_ok) (auto simp: dcn_watch_def)
  let ?s4 = "?s3\<lparr>ses := dcn_watch b ?q' (ses ?s3), cor := (cor ?s3)(i' \<mapsto> CExch j' ?q' (XWait b))\<rparr>"
  have s4: "cstep ?s3 ?s4" using watch_asleep(1) [OF i3 e3] by (simp only: new)
  have r4: "creach ?s4" by (rule creach_step [OF r3 s4])
  have a4: "asleep ?s4 i a" using a3 ne fresh by (simp add: asleep_def dcn_watch_def)
  have ok: "sess_ok (ses st)" and ok2: "sess_ok (ses ?s2)" and ok3: "sess_ok (ses ?s3)"
    using cs.reach_inv [OF r] cs.reach_inv [OF r2] cs.reach_inv [OF r3] unfolding csys_inv_def by blast+
  have cnd: "map_get (cnd_responses (ses ?s4)) = (map_get (cnd_responses (ses st)))(?m \<mapsto> b)"
    using dcn_watch_ok(2) [OF ok3, of b ?q'] dcn_watch_ok(2) [OF ok2, of a ?q] by simp
  have "orphan (ses ?s4) a"
    unfolding orphan_def
  proof (intro conjI allI impI)
    show "waiters (ses ?s4) a \<noteq> None" by (simp add: dcn_watch_def)
    show "map_get (cnd_responses (ses ?s4)) m \<noteq> Some a" for m
      using sess_ok_cnd [OF ok, of m a] fresh unfolding cnd by (auto simp: waiter_live_def)
    fix u w
    assume "map_get (usr_waiters (ses ?s4)) u = Some w"
    then have "map_get (usr_waiters (ses st)) u = Some w" by (simp add: dcn_watch_def)
    from sess_ok_usr [OF ok this] show "req_waiter w \<noteq> a" "resp_waiter w \<noteq> a"
      using fresh(1) by (auto simp: waiter_live_def)
  qed
  then have "hangs ?s4 i"
    unfolding hangs_def using orphan_run [OF cs.reach_inv [OF r4] a4] by blast
  with r4 show ?thesis using ne by (intro exI [of _ ?s4] exI [of _ ?q] exI [of _ ?q']) simp
qed

text \<open>Two pings that have just been called.\<close>

definition two_pings :: csys where
  "two_pings = (started 7)\<lparr>cor := [0 \<mapsto> CExch JPing (ping_packet 7) XPost, 1 \<mapsto> CExch JPing (ping_packet 7) XPost]\<rparr>"

lemma creach_two_pings: "creach two_pings"
proof -
  let ?k = "CExch JPing (ping_packet 7) XPost"
  have k: "starts (ses (started 7)) ?k (ses (started 7))"
    using ping_starts [of "ses (started 7)"] by (simp add: started_facts)
  let ?s1 = "(started 7)\<lparr>ses := ses (started 7), cor := (cor (started 7))(0 \<mapsto> ?k)\<rparr>"
  have "cstep (started 7) ?s1" by (rule c_start) (simp_all add: started_facts k)
  then have r1: "creach ?s1" by (rule creach_step [OF creach_started])
  have "cstep ?s1 (?s1\<lparr>ses := ses (started 7), cor := (cor ?s1)(1 \<mapsto> ?k)\<rparr>)"
    by (rule c_start) (use k in \<open>simp_all add: started_facts\<close>)
  from creach_step [OF r1 this] show ?thesis
    by (simp add: two_pings_def started_def)
qed

theorem muid_race_hangs_witness:
  "\<exists>st q. creach st \<and> cor st 0 = Some (CExch JPing q (XWait 1)) \<and> hangs st 0"
proof -
  have "cor two_pings 0 = Some (CExch JPing (ping_packet 7) XPost)"
    "cor two_pings 1 = Some (CExch JPing (ping_packet 7) XPost)" "(0::nat) \<noteq> 1"
    "waiters (ses two_pings) 1 = None" "waiters (ses two_pings) 2 = None" "waiters (ses two_pings) 3 = None"
    "distinct [1, 2, 3 :: addr]"
    by (simp_all add: two_pings_def started_facts)
  from muid_race_hangs [OF creach_two_pings this] show ?thesis by blast
qed





text \<open>A request is posted before its waiter is registered: there is an execution in which the
  server's answer is handled in between; the answer is in the mailbox, its handler woke nobody, and
  the call sleeps until some later packet happens to carry the same number.\<close>

theorem answer_before_watch:
  shows "\<exists>st q a. creach st \<and> cor st 0 = Some (CExch JPing q (XWait a))
     \<and> mb_answers (mailbox (ses st)) (muid q) = Some (packet_norm (server_answer 200 uid (muid q)))
     \<and> queued (ses st) = [] \<and> hangs_in_silence st 0"
proof -
  let ?p = "ping_packet uid" and ?ans = "server_answer 200 uid 1"
  let ?s0 = "started uid"
  let ?s1 = "?s0\<lparr>ses := ses ?s0, cor := (cor ?s0)(0 \<mapsto> CExch JPing ?p XPost)\<rparr>"
  have "cstep ?s0 ?s1"
    using ping_starts [of "ses ?s0"] by (intro c_start) (simp_all add: started_facts)
  then have r1: "creach ?s1" by (rule creach_step [OF creach_started])
  have i1: "cor ?s1 0 = Some (CExch JPing ?p XPost)" by simp
  have e1: "env_ok (ses ?s1) (env_with 1 2)" by (intro env_with_ok) (simp_all add: started_facts)
  let ?q = "addressed (ses ?s1) (dest_of JPing ?p) ?p"
  obtain w where s2: "cstep ?s1 (?s1\<lparr>ses := (ses ?s1)\<lparr>writeq := w\<rparr>, cor := (cor ?s1)(0 \<mapsto> CExch JPing ?q XWatch)\<rparr>)"
    by (rule post_step [OF r1 i1 e1])
  let ?s2 = "?s1\<lparr>ses := (ses ?s1)\<lparr>writeq := w\<rparr>, cor := (cor ?s1)(0 \<mapsto> CExch JPing ?q XWatch)\<rparr>"
  have r2: "creach ?s2" by (rule creach_step [OF r1 s2])
  have "woken_by ?ans (ses ?s2) = None"
    using started_facts by (simp add: woken_by_def server_answer_def)
  moreover obtain s4 where r4: "creach s4" and s4: "queued (ses s4) = []" "cor s4 = cor ?s2"
    "mailbox (ses s4) = receive (cli_uid (ses ?s2)) ?ans (mailbox (ses ?s2))"
    "only_woke (ses ?s2) (woken_by ?ans (ses ?s2)) (ses s4)"
    by (rule handled_step [OF r2, of ?ans]) (use started_facts in \<open>simp_all add: queued_def\<close>)
  ultimately have w4: "waiters (ses s4) = waiters (ses ?s0)" by (simp add: only_woke_def fun_eq_iff)
  have e4: "env_ok (ses s4) (env_with 1 2)" using w4 started_facts by (intro env_with_ok) simp_all
  have i4: "cor s4 0 = Some (CExch JPing ?q XWatch)" using s4(2) by simp
  let ?s5 = "s4\<lparr>ses := dcn_watch 1 ?q (ses s4), cor := (cor s4)(0 \<mapsto> CExch JPing ?q (XWait 1))\<rparr>"
  have new: "new1 (env_with x y) = x" for x y by (simp add: env_with_def)
  have s5: "cstep s4 ?s5" and a5: "asleep ?s5 0 1" using watch_asleep [OF i4 e4] by (simp_all only: new)
  have r5: "creach ?s5" by (rule creach_step [OF r4 s5])
  have "muid ?q = 1" using started_facts(6) by simp
  moreover have "mailbox (ses ?s5) = mailbox (ses s4)"
    by (simp add: mailbox_def dcn_watch_def user_requests_def user_replies_def fun_eq_iff)
  ultimately have ans: "mb_answers (mailbox (ses ?s5)) (muid ?q) = Some (packet_norm (server_answer 200 uid (muid ?q)))"
    using s4(3) started_facts(7) by (simp add: receive_def server_answer_def)
  have q5: "queued (ses ?s5) = []" using s4(1) by (simp add: queued_def dcn_watch_def)
  have "hangs_in_silence ?s5 0"
    unfolding hangs_in_silence_def
  proof (intro allI impI)
    fix ts
    assume "is_run cstep ?s5 ts" and silent: "\<forall>t \<in> set (?s5 # ts). queued (ses t) = []"
    moreover have "\<not> oldest_wakes t 1" if "t \<in> set (?s5 # ts)" for t
      using silent that by (auto simp: oldest_wakes_def)
    ultimately show "\<forall>t \<in> set ts. cor t 0 = cor ?s5 0"
      using asleep_run [OF cs.reach_inv [OF r5] a5] by blast
  qed
  with r5 ans q5 show ?thesis by (intro exI [of _ ?s5] exI [of _ ?q] exI [of _ 1]) simp
qed

end
