(* ===== verification/ClientPool.thy ===== *)
theory ClientPool
  imports ClientSystem "HOL-Library.Sublist"
begin

text \<open>
  The client of theory ClientSystem on the event loop it is given: a pool of \<open>n\<close> workers that take
  the tasks in the order of \<open>async_create\<close> and keep each until its function returns
  (\<open>__thr_work\<close> of \<open>src/thr-pool.c\<close>, \<open>__loop_worker\<close> of \<open>src/asyncio.c\<close>).  The calls of the library and the
  handlers that \<open>run_client\<close> creates for received packets are tasks of the same pool.  A handler
  does not block, so that its run is one step; a call holds its worker while it waits.
\<close>

datatype ptask = Handler | Call nat

record pclient =
  sys :: csys
  jobs :: "ptask list"      \<comment> \<open>the queue of the pool\<close>
  busy :: "nat list"        \<comment> \<open>the calls that hold a worker\<close>

definition pclient_init :: "pclient \<Rightarrow> bool" where
  "pclient_init st \<longleftrightarrow> csys_init (sys st) \<and> jobs st = [] \<and> busy st = []"

inductive qstep :: "nat \<Rightarrow> pclient \<Rightarrow> pclient \<Rightarrow> bool" for n where
  q_poll: "is_active (cl (sys st)) \<Longrightarrow> good_poll (sys st) ev
     \<Longrightarrow> on_poll ev (loop_state (sys st)) = Some (Inr (c, q)) \<Longrightarrow>
     qstep n st (st\<lparr>sys := (sys st)\<lparr>cl := c, ses := with_queues (ses (sys st)) q\<rparr>,
       jobs := jobs st @ replicate (handlers c - handlers (cl (sys st))) Handler\<rparr>)"
| q_handler: "jobs st = Handler # js \<Longrightarrow> length (busy st) < n \<Longrightarrow> handlers (cl (sys st)) = Suc m
     \<Longrightarrow> dcn_on_message trp0 (ses (sys st)) = Inr s \<Longrightarrow>
     qstep n st (st\<lparr>sys := (sys st)\<lparr>cl := (cl (sys st))\<lparr>handlers := m\<rparr>, ses := s\<rparr>, jobs := js\<rparr>)"
| q_start: "cor (sys st) i = None \<Longrightarrow> starts (ses (sys st)) k s \<Longrightarrow>
     qstep n st (st\<lparr>sys := (sys st)\<lparr>ses := s, cor := (cor (sys st))(i \<mapsto> k)\<rparr>, jobs := jobs st @ [Call i]\<rparr>)"
| q_take: "jobs st = Call i # js \<Longrightarrow> length (busy st) < n \<Longrightarrow>
     qstep n st (st\<lparr>jobs := js, busy := i # busy st\<rparr>)"
| q_move: "i \<in> set (busy st) \<Longrightarrow> cor (sys st) i = Some k \<Longrightarrow> env_ok (ses (sys st)) e
     \<Longrightarrow> coro_step e k (ses (sys st)) = Some (Inr (k', s)) \<Longrightarrow>
     qstep n st (st\<lparr>sys := (sys st)\<lparr>ses := s, cor := (cor (sys st))(i \<mapsto> k')\<rparr>\<rparr>)"
| q_finish: "i \<in> set (busy st) \<Longrightarrow> cor (sys st) i = Some (CDone r) \<Longrightarrow>
     qstep n st (st\<lparr>busy := remove1 i (busy st)\<rparr>)"

subsection \<open>Invariant\<close>

text \<open>What the pool does is something the client without a pool can do.\<close>

lemma qstep_sim: "qstep n st st' \<Longrightarrow> cstep (sys st) (sys st') \<or> sys st' = sys st"
  by (induction rule: qstep.induct) (auto intro: cstep.intros)

definition pclient_inv :: "nat \<Rightarrow> pclient \<Rightarrow> bool" where
  "pclient_inv n st \<longleftrightarrow> csys_inv (sys st) \<and> length (busy st) \<le> n
     \<and> count_list (jobs st) Handler = handlers (cl (sys st))
     \<and> (\<forall>i. Call i \<in> set (jobs st) \<or> i \<in> set (busy st) \<longrightarrow> cor (sys st) i \<noteq> None)"

lemma on_poll_handlers:
  assumes "on_poll ev (c, q) = Some (Inr (c', q'))"
  shows "handlers c \<le> handlers c'"
proof -
  have "handlers c' = handlers c" if "cl_writable ev (c, q) = Inr (c', q')"
    using that by (auto simp: cl_writable_def Let_def split: prod.splits if_splits sum.splits elim!: bind_res_InrE)
  moreover have "handlers c \<le> handlers c'" if "cl_readable ev (c, q) = Some (Inr (c', q'))"
    using that by (auto simp: cl_readable_def split: prod.splits if_splits option.splits sum.splits)
  ultimately show ?thesis using assms by (auto simp: on_poll_def split: if_splits)
qed

lemma count_replicate_self [simp]: "count_list (replicate k x) x = k"
  by (induction k) auto

lemma qstep_inv:
  assumes inv: "pclient_inv n st" and step: "qstep n st st'"
  shows "pclient_inv n st'"
proof -
  have csys: "csys_inv (sys st')"
    using qstep_sim [OF step] cstep_inv inv by (auto simp: pclient_inv_def)
  show ?thesis
    using step
  proof (cases rule: qstep.cases)
    case (q_poll ev c q)
    then show ?thesis
      using inv csys on_poll_handlers [of ev "cl (sys st)" "snd (loop_state (sys st))" c q]
      by (auto simp: pclient_inv_def loop_state_def)
  next
    case (q_finish i r)
    then show ?thesis
      using inv csys set_remove1_subset [of i "busy st"] by (auto simp: pclient_inv_def length_remove1)
  qed (use inv csys in \<open>auto simp: pclient_inv_def\<close>)
qed

interpretation qs: invariant_of pclient_init "qstep n" "pclient_inv n" for n
proof unfold_locales
  show "pclient_inv n s" if "pclient_init s" for s
    using that csys_inv_init [of "sys s"]
    by (auto simp: pclient_init_def pclient_inv_def csys_init_def cloop_init_def)
qed (fact qstep_inv)

abbreviation qreach :: "nat \<Rightarrow> pclient \<Rightarrow> bool" where
  "qreach n \<equiv> reach pclient_init (qstep n)"

lemma qreach_creach: "qreach n st \<Longrightarrow> creach (sys st)"
proof (induction rule: reach.induct)
  case (reach_init st)
  then show ?case by (auto simp: pclient_init_def intro: reach.reach_init)
next
  case (reach_step st st')
  then show ?case using qstep_sim [OF reach_step(2)] creach_step by auto
qed

lemma qreach_step: "qreach n st \<Longrightarrow> qstep n st st' \<Longrightarrow> qreach n st'"
  by (rule reach_step)

subsection \<open>A free worker takes the oldest task\<close>

text \<open>While a worker is free, the oldest task is served; when the oldest task is a handler, it files
  the oldest received packet as the specification \<open>receive\<close> says.\<close>

theorem free_worker_serves:
  assumes r: "qreach n st" and free: "length (busy st) < n" and j: "jobs st = j # js"
  shows "\<exists>st'. qstep n st st' \<and> jobs st' = js \<and> (j = Handler \<longrightarrow> (\<exists>p. msg_ok p
     \<and> queued (ses (sys st)) = packet_bytes p # queued (ses (sys st'))
     \<and> mailbox (ses (sys st')) = receive (cli_uid (ses (sys st))) p (mailbox (ses (sys st)))))"
proof (cases j)
  case Handler
  have inv: "pclient_inv n st" by (rule qs.reach_inv [OF r])
  then obtain m where m: "handlers (cl (sys st)) = Suc m"
    using j Handler by (auto simp: pclient_inv_def intro: that [OF sym])
  have cinv: "csys_inv (sys st)" using inv by (simp add: pclient_inv_def)
  fix trp0
  obtain p s where "queued (ses (sys st)) = packet_bytes p # queued s" "msg_ok p"
    "dcn_on_message trp0 (ses (sys st)) = Inr s"
    "mailbox s = receive (cli_uid (ses (sys st))) p (mailbox (ses (sys st)))"
    using message_ok [OF cinv m, of trp0] by metis
  then show ?thesis using q_handler [of st js n m _ s] j Handler free m by fastforce
next
  case (Call i)
  then show ?thesis using q_take [of st i js n] j free by (intro exI) auto
qed

subsection \<open>No free worker\<close>

lemma starts_mailbox: "starts s k s' \<Longrightarrow> sess_ok s \<Longrightarrow> mailbox s' = mailbox s"
proof (induction rule: starts.induct)
  case (start_request pack to trv ptype s p k s')
  then have "map_ok (last_c_muids s)" by (simp add: sess_ok_def)
  with request_ok [OF start_request(2,1)] show ?case
    by (auto simp: mailbox_def user_requests_def user_replies_def fun_eq_iff)
qed simp_all

text \<open>All workers are held by calls that sleep.\<close>

definition held :: "nat \<Rightarrow> pclient \<Rightarrow> bool" where
  "held n st \<longleftrightarrow> length (busy st) = n \<and> (\<forall>i \<in> set (busy st). \<exists>a. asleep (sys st) i a)"

definition same_work :: "pclient \<Rightarrow> pclient \<Rightarrow> bool" where
  "same_work st st' \<longleftrightarrow> busy st' = busy st \<and> (\<forall>i \<in> set (busy st). cor (sys st') i = cor (sys st) i)
     \<and> mailbox (ses (sys st')) = mailbox (ses (sys st)) \<and> prefix (jobs st) (jobs st')"

lemma held_step:
  assumes inv: "pclient_inv n st" and held: "held n st" and step: "qstep n st st'"
  shows "held n st' \<and> same_work st st'"
  using step
proof (cases rule: qstep.cases)
  case (q_poll ev c q)
  with held show ?thesis by (auto simp: held_def same_work_def asleep_def)
next
  case (q_start i k s)
  have ok: "csys_inv (sys st)" and sok: "sess_ok (ses (sys st))"
    using inv by (simp_all add: pclient_inv_def csys_inv_def)
  have st: "stable (ses (sys st)) {} s" using starts_ok [OF q_start(3) sok] by simp
  have ne: "j \<noteq> i" if "j \<in> set (busy st)" for j
    using that held q_start(2) by (auto simp: held_def asleep_def)
  have "asleep (sys st') j a" if "j \<in> set (busy st)" "asleep (sys st) j a" for j a
    using that(2) ne [OF that(1)] st q_start(1) unfolding asleep_def stable_def by force
  then show ?thesis
    using held ne starts_mailbox [OF q_start(3) sok] q_start(1) unfolding held_def same_work_def by fastforce
next
  case (q_move i k e k' s)
  then obtain a where "asleep (sys st) i a" using held by (auto simp: held_def)
  from asleep_blocked [OF this q_move(3)] q_move(5) show ?thesis by simp
next
  case (q_finish i r)
  then show ?thesis using held by (auto simp: held_def asleep_def)
qed (use held in \<open>simp_all add: held_def\<close>)

lemma held_run:
  "pclient_inv n st \<Longrightarrow> held n st \<Longrightarrow> is_run (qstep n) st ts \<Longrightarrow> t \<in> set ts \<Longrightarrow> same_work st t"
proof (induction ts arbitrary: st)
  case (Cons u ts)
  have u: "held n u" "same_work st u" "pclient_inv n u"
    using held_step [OF Cons.prems(1,2)] qstep_inv [OF Cons.prems(1)] Cons.prems(3) by auto
  show ?case
  proof (cases "t = u")
    case False
    then have "same_work u t" using Cons.IH [OF u(3,1)] Cons.prems(3,4) by simp
    with u(2) show ?thesis by (auto simp: same_work_def intro: prefix_order.trans)
  qed (use u(2) in simp)
qed simp

subsection \<open>Pings alone take all workers\<close>

text \<open>The calls \<open>0..<k\<close> are pings that hold a worker and sleep; there is no other call, and nothing
  has been received.\<close>

definition pinging :: "nat \<Rightarrow> pclient \<Rightarrow> bool" where
  "pinging k st \<longleftrightarrow> busy st = rev [0..<k] \<and> jobs st = []
     \<and> is_active (cl (sys st)) \<and> queued (ses (sys st)) = [] \<and> qb_bytes (acc (cl (sys st))) = []
     \<and> last_muid (ses (sys st)) = of_nat (Suc k)
     \<and> (\<forall>i < k. \<exists>q a. cor (sys st) i = Some (CExch JPing q (XWait a)) \<and> muid q = of_nat (Suc i)
          \<and> asleep (sys st) i a)
     \<and> (\<forall>i \<ge> k. cor (sys st) i = None) \<and> (\<forall>a. k < unat a \<longrightarrow> waiters (ses (sys st)) a = None)"

lemma ping_wf: "packet_wf (ping_packet uid)"
  by (simp add: ping_packet_def packet_wf_def qblock_init_def qb_wf_def)

lemma pinging_Suc:
  assumes r: "qreach n st" and p: "pinging k st" and k: "k < n" "n < 2 ^ 63"
  shows "\<exists>st'. qreach n st' \<and> pinging (Suc k) st'"
proof -
  let ?s = "ses (sys st)" and ?p = "ping_packet (cli_uid (ses (sys st)))"
  have "unat (of_nat (Suc k) :: addr) = Suc k" "unat (of_nat (Suc (Suc k)) :: addr) = Suc (Suc k)"
    using k by (simp_all only: unat_of_nat) simp_all
  then obtain a b :: addr where ua: "unat a = Suc k" and ub: "unat b = Suc (Suc k)" by blast
  let ?e = "env_with a b"
  have fresh: "waiters ?s a = None" "waiters ?s b = None" "a \<noteq> b"
    using p ua ub by (auto simp: pinging_def)
  have new1: "new1 ?e = a" by (simp add: env_with_def)
  have ok: "sess_ok ?s" using qs.reach_inv [OF r] by (simp add: pclient_inv_def csys_inv_def)
  have new: "cor (sys st) k = None" using p by (simp add: pinging_def)
  let ?c1 = "(sys st)\<lparr>ses := ?s, cor := (cor (sys st))(k \<mapsto> CExch JPing ?p XPost)\<rparr>"
  let ?s1 = "st\<lparr>sys := ?c1, jobs := jobs st @ [Call k]\<rparr>"
  have r1: "qreach n ?s1" by (rule qreach_step [OF r q_start [OF new ping_starts]])
  have j1: "jobs ?s1 = Call k # []" "length (busy ?s1) < n" using p k by (simp_all add: pinging_def)
  let ?s2 = "?s1\<lparr>jobs := [], busy := k # busy ?s1\<rparr>"
  have r2: "qreach n ?s2" by (rule qreach_step [OF r1 q_take [OF j1]])
  obtain w where w: "coro_step ?e (CExch JPing ?p XPost) ?s
      = Some (Inr (CExch JPing (addressed ?s (dest_of JPing ?p) ?p) XWatch, ?s\<lparr>writeq := w\<rparr>))"
    by (rule post_move [OF ok ping_wf])
  let ?q = "addressed ?s (dest_of JPing ?p) ?p"
  let ?s3 = "?s2\<lparr>sys := (sys ?s2)\<lparr>ses := ?s\<lparr>writeq := w\<rparr>,
      cor := (cor (sys ?s2))(k \<mapsto> CExch JPing ?q XWatch)\<rparr>\<rparr>"
  have r3: "qreach n ?s3"
    by (rule qreach_step [OF r2 q_move [where e = ?e and k = "CExch JPing ?p XPost"]])
      (use w fresh in \<open>simp_all add: env_with_ok\<close>)
  let ?s4 = "?s3\<lparr>sys := (sys ?s3)\<lparr>ses := dcn_watch a ?q (ses (sys ?s3)),
      cor := (cor (sys ?s3))(k \<mapsto> CExch JPing ?q (XWait a))\<rparr>\<rparr>"
  have r4: "qreach n ?s4"
    by (rule qreach_step [OF r3 q_move [where e = ?e and k = "CExch JPing ?q XWatch"]])
      (use fresh in \<open>simp_all add: env_with_ok new1\<close>)
  have calls: "\<exists>q' a'. cor (sys ?s4) i = Some (CExch JPing q' (XWait a')) \<and> muid q' = of_nat (Suc i)
      \<and> asleep (sys ?s4) i a'" if "i < Suc k" for i
  proof (cases "i = k")
    case True
    then show ?thesis using p by (intro exI [of _ ?q] exI [of _ a]) (simp add: pinging_def asleep_def dcn_watch_def)
  next
    case False
    then have "i < k" using that by simp
    then obtain q' a' where q': "cor (sys st) i = Some (CExch JPing q' (XWait a'))" "muid q' = of_nat (Suc i)"
      "asleep (sys st) i a'"
      using p unfolding pinging_def by blast
    then have "a' \<noteq> a" using fresh(1) by (auto simp: asleep_def)
    with False q' show ?thesis
      by (intro exI [of _ q'] exI [of _ a']) (simp add: asleep_def dcn_watch_def)
  qed
  have "waiters (ses (sys ?s4)) x = None" if "Suc k < unat x" for x
    using p ua that by (auto simp: pinging_def dcn_watch_def)
  moreover have "last_muid (ses (sys ?s4)) = of_nat (Suc (Suc k))"
    using p by (simp add: pinging_def dcn_watch_def)
  ultimately have "pinging (Suc k) ?s4"
    unfolding pinging_def using calls p by (intro conjI) (auto simp: pinging_def queued_def dcn_watch_def)
  with r4 show ?thesis by blast
qed

lemma qreach_started: "qreach n \<lparr>sys = started uid, jobs = [], busy = []\<rparr>"
  by (rule reach_init) (auto simp: pclient_init_def csys_init_def started_def)

lemma pinging_reach: "k \<le> n \<Longrightarrow> n < 2 ^ 63 \<Longrightarrow> \<exists>st. qreach n st \<and> pinging k st"
proof (induction k)
  case 0
  show ?case by (intro exI conjI, rule qreach_started [of n 7]) (auto simp: pinging_def started_facts)
next
  case (Suc k)
  then obtain st where "qreach n st" "pinging k st" by auto
  with pinging_Suc [of n st k] Suc.prems show ?case by auto
qed

text \<open>C38: A client whose loop has \<open>n\<close> workers can be brought to a standstill by \<open>n\<close> pings alone: all
  workers wait for an answer, an answer is filed by a handler that needs a worker, and from then on,
  whatever the server sends and whoever makes further calls, no ping returns and nothing received is
  filed: neither the packet \<open>p\<close> that has arrived, be it an awaited answer, nor any later one.\<close>

theorem pings_starve_handlers:
  assumes n: "n < 2 ^ 63" and p: "msg_ok p"
  shows "\<exists>st. qreach n st \<and> queued (ses (sys st)) = [packet_bytes p] \<and> jobs st = [Handler]
     \<and> (\<forall>i < n. \<exists>q a. cor (sys st) i = Some (CExch JPing q (XWait a)) \<and> muid q = of_nat (Suc i))
     \<and> (\<forall>ts t. is_run (qstep n) st ts \<longrightarrow> t \<in> set ts \<longrightarrow>
          (\<forall>i < n. cor (sys t) i = cor (sys st) i) \<and> mailbox (ses (sys t)) = mailbox (ses (sys st))
          \<and> prefix (jobs st) (jobs t))"
proof -
  obtain st where r: "qreach n st" and st: "pinging n st" using pinging_reach [OF order.refl n] by blast
  then have h: "held n st" and b: "set (busy st) = {..<n}" by (auto simp: held_def pinging_def)
  have inv: "pclient_inv n st" by (rule qs.reach_inv [OF r])
  obtain ev c q where ev: "good_poll (sys st) ev"
    "on_poll ev (loop_state (sys st)) = Some (Inr (c, q, writeq (ses (sys st))))"
    and c: "contents q = [packet_bytes p]" "handlers c = Suc (handlers (cl (sys st)))"
    by (rule receive_poll [of "sys st" p]) (use inv st p in \<open>auto simp: pclient_inv_def pinging_def\<close>)
  let ?st = "st\<lparr>sys := (sys st)\<lparr>cl := c, ses := with_queues (ses (sys st)) (q, writeq (ses (sys st)))\<rparr>,
      jobs := jobs st @ replicate (handlers c - handlers (cl (sys st))) Handler\<rparr>"
  have step: "qstep n st ?st" by (rule q_poll [OF _ ev]) (use st in \<open>simp add: pinging_def\<close>)
  have r': "qreach n ?st" by (rule qreach_step [OF r step])
  have "held n ?st" using held_step [OF inv h step] by blast
  then have "same_work ?st t" if "is_run (qstep n) ?st ts" "t \<in> set ts" for ts t
    by (rule held_run [OF qs.reach_inv [OF r'] _ that])
  then have run: "\<forall>ts t. is_run (qstep n) ?st ts \<longrightarrow> t \<in> set ts \<longrightarrow>
      (\<forall>i < n. cor (sys t) i = cor (sys ?st) i) \<and> mailbox (ses (sys t)) = mailbox (ses (sys ?st))
      \<and> prefix (jobs ?st) (jobs t)"
    using b by (simp add: same_work_def)
  show ?thesis
    by (rule exI [of _ ?st], intro conjI run r') (use st c in \<open>auto simp: pinging_def queued_def\<close>)
qed

text \<open>Three workers, as in \<open>code/client.c\<close>; the answer to the first ping has arrived.\<close>

theorem pings_starve_handlers_witness:
  "\<exists>st q a. qreach 3 st \<and> queued (ses (sys st)) = [packet_bytes (server_answer 200 7 1)]
     \<and> cor (sys st) 0 = Some (CExch JPing q (XWait a)) \<and> muid q = 1
     \<and> (\<forall>ts t. is_run (qstep 3) st ts \<longrightarrow> t \<in> set ts \<longrightarrow> cor (sys t) 0 = cor (sys st) 0)"
proof -
  obtain st where st: "qreach 3 st" "queued (ses (sys st)) = [packet_bytes (server_answer 200 7 1)]"
    and i: "\<forall>i < 3. \<exists>q a. cor (sys st) i = Some (CExch JPing q (XWait a)) \<and> muid q = of_nat (Suc i)"
    and run: "\<forall>ts t. is_run (qstep 3) st ts \<longrightarrow> t \<in> set ts \<longrightarrow> (\<forall>i < 3. cor (sys t) i = cor (sys st) i)"
    using pings_starve_handlers [of 3 "server_answer 200 7 1"] by auto
  have "\<exists>q a. cor (sys st) 0 = Some (CExch JPing q (XWait a)) \<and> muid q = 1" using i by force
  with st run show ?thesis by (metis zero_less_numeral)
qed

text \<open>One worker; a packet has arrived.\<close>

theorem free_worker_serves_witness:
  "\<exists>st st'. qreach 1 st \<and> jobs st = [Handler] \<and> qstep 1 st st' \<and> jobs st' = []
     \<and> queued (ses (sys st)) = [packet_bytes (server_answer 200 7 1)] \<and> queued (ses (sys st')) = []"
proof -
  let ?s = "\<lparr>sys = started 7, jobs = [], busy = []\<rparr>"
  have r: "qreach 1 ?s" by (rule qreach_started)
  have inv: "pclient_inv 1 ?s" by (rule qs.reach_inv [OF r])
  obtain ev c q where ev: "good_poll (sys ?s) ev"
    "on_poll ev (loop_state (sys ?s)) = Some (Inr (c, q, writeq (ses (sys ?s))))"
    and c: "contents q = [packet_bytes (server_answer 200 7 1)]" "handlers c = Suc (handlers (cl (sys ?s)))"
    by (rule receive_poll [of "sys ?s" "server_answer 200 7 1"])
      (use inv in \<open>auto simp: pclient_inv_def started_facts\<close>)
  let ?t = "?s\<lparr>sys := (sys ?s)\<lparr>cl := c, ses := with_queues (ses (sys ?s)) (q, writeq (ses (sys ?s)))\<rparr>,
      jobs := jobs ?s @ replicate (handlers c - handlers (cl (sys ?s))) Handler\<rparr>"
  have rt: "qreach 1 ?t"
    by (rule qreach_step [OF r q_poll [OF _ ev]]) (simp add: started_facts)
  have t: "jobs ?t = Handler # []" "length (busy ?t) < 1"
    "queued (ses (sys ?t)) = [packet_bytes (server_answer 200 7 1)]"
    using c by (simp_all add: queued_def)
  from free_worker_serves [OF rt t(2,1)] obtain st' where
    "qstep 1 ?t st'" "jobs st' = []" "length (queued (ses (sys ?t))) = Suc (length (queued (ses (sys st'))))"
    by (metis length_Cons)
  with rt t show ?thesis by (intro exI [of _ ?t] exI [of _ st']) simp
qed

end
