(* ===== verification/NetServer.thy ===== *)
theory NetServer
  imports Framing
begin

text \<open>
  The epoll server of \<open>code/DCN/src/netw/epldplx-c.c\<close>: the per-connection record, the socket
  helpers, and \<open>run_server\<close> as one handler per event that \<open>epoll_wait\<close> reports.

  What the kernel answers to a system call is data: the answers of the successive \<open>read\<close>
  calls, the answer of a \<open>write\<close>, the descriptor that \<open>accept4\<close> returns, the address of a
  fresh \<open>struct client\<close>.  The state holds the heap of \<open>struct client\<close> objects, the epoll
  interest list, the workers handed to the thread pool, and what has been written to each
  descriptor.
\<close>

record client =
  fd :: int
  read_q :: queue
  write_q :: queue
  alr_written :: nat
  intr_uid :: size_t
  ip :: string
  port :: "16 word"
  cacc :: qblock  \<comment> \<open>\<open>acc\<close>, the stream accumulator\<close>

text \<open>The modes of \<open>change_climod\<close>.\<close>

datatype climod = ModIn | ModOut

record net =
  clients :: "addr \<rightharpoonup> client"
  epoll :: "int \<rightharpoonup> addr \<times> climod"
  tasks :: "addr list"
  sent :: "(int \<times> byte list) list"
  last_uid :: size_t
  is_running :: bool

subsection \<open>Socket helpers\<close>

text \<open>
  \<open>nbep_read\<close>: the status, the bytes collected and the answers not consumed; \<open>None\<close> when it
  would go on reading past the answers given.
\<close>

fun nbep_read :: "read_ans list \<Rightarrow> byte list \<Rightarrow> (int \<times> byte list \<times> read_ans list) option" where
  "nbep_read [] out = None"
| "nbep_read (ReadBytes bs ok # as) out =
     (if \<not> ok then Some (-2, out, as) else nbep_read as (out @ bs))"
| "nbep_read (ReadEof # as) out = Some (-4, out, as)"
| "nbep_read (ReadAgain # as) out = Some (0, out, as)"
| "nbep_read (ReadError # as) out = Some (-3, out, as)"

text \<open>\<open>sfull_write\<close> on a block: the status, the client, and the bytes that went out.\<close>

definition sfull_write :: "write_ans \<Rightarrow> client \<Rightarrow> qblock \<Rightarrow> int \<times> client \<times> byte list" where
  "sfull_write ans cli b =
     (case ans of
        Wrote n \<Rightarrow>
          (if n = 0 then (-2, cli, [])
           else (0, cli\<lparr>alr_written := alr_written cli + n\<rparr>,
                 take n (drop (alr_written cli) (qb_bytes b))))
      | WouldBlock \<Rightarrow> (1, cli, [])
      | WriteError \<Rightarrow> (-1, cli, []))"

text \<open>
  \<open>accept_client\<close>: \<open>conn\<close> is the accepted descriptor with the peer's address, \<open>p\<close> the
  address of the new object, \<open>eok\<close> whether \<open>epoll_ctl\<close> accepts it.
\<close>

definition accept_client ::
  "(int \<times> string \<times> 16 word) option \<Rightarrow> addr \<Rightarrow> bool \<Rightarrow> net \<Rightarrow> int \<times> net" where
  "accept_client conn p eok s =
     (case conn of
        None \<Rightarrow> (-1, s)
      | Some (f, cip, cport) \<Rightarrow>
          (let s = s\<lparr>last_uid := last_uid s + 1\<rparr>;
               cli = \<lparr>fd = f, read_q = queue_init, write_q = queue_init, alr_written = 0,
                      intr_uid = last_uid s, ip = cip, port = cport, cacc = qblock_init\<rparr>
           in if eok then (0, s\<lparr>clients := (clients s)(p \<mapsto> cli),
                                epoll := (epoll s)(f \<mapsto> (p, ModIn))\<rparr>)
              else (-2, s)))"

definition close_client :: "addr \<Rightarrow> net \<Rightarrow> (int \<times> net) res" where
  "close_client p s =
     (if p = 0 then Inl NullAccess
      else case clients s p of
        None \<Rightarrow> Inl UseAfterFree
      | Some cli \<Rightarrow>
          (if epoll s (fd cli) = None then Inr (-1, s)
           else Inr (0, s\<lparr>epoll := (epoll s)(fd cli := None),
                          clients := (clients s)(p := None)\<rparr>)))"

definition change_climod :: "addr \<Rightarrow> climod \<Rightarrow> net \<Rightarrow> (int \<times> net) res" where
  "change_climod p mode s =
     (case clients s p of
        None \<Rightarrow> Inl UseAfterFree
      | Some cli \<Rightarrow>
          (if epoll s (fd cli) = None then Inr (-1, s)
           else Inr (0, s\<lparr>epoll := (epoll s)(fd cli \<mapsto> (p, mode))\<rparr>)))"

definition set_client :: "addr \<Rightarrow> client \<Rightarrow> net \<Rightarrow> net" where
  "set_client p cli s = s\<lparr>clients := (clients s)(p \<mapsto> cli)\<rparr>"

subsection \<open>Events\<close>

text \<open>
  An event: the pointer registered with the descriptor (0 for the listening socket), the flags,
  and the answers of the system calls that its handler makes.  \<open>aok\<close> and \<open>sok\<close> say whether
  the accumulator can be grown and shrunk.
\<close>

record ep_event =
  evptr :: addr
  ev_hup :: bool
  ev_in :: bool
  ev_out :: bool
  ev_conn :: "(int \<times> string \<times> 16 word) option"
  ev_new :: addr
  ev_eok :: bool
  ev_reads :: "read_ans list"
  ev_aok :: bool
  ev_sok :: bool
  ev_write :: write_ans

text \<open>What the loop over the events does next.\<close>

datatype flow = Continue | Break

type_synonym 's loop_state = "net \<times> 's"
type_synonym 's loop_out = "(flow \<times> 's loop_state) res option"

definition drop_client :: "(addr \<Rightarrow> 's \<Rightarrow> 's) \<Rightarrow> addr \<Rightarrow> 's loop_state \<Rightarrow> 's loop_out" where
  "drop_client disconnector p st =
     (case st of (s, h) \<Rightarrow>
        let h = disconnector p h in
        (case close_client p s of
           Inl e \<Rightarrow> Some (Inl e)
         | Inr (_, s) \<Rightarrow> Some (Inr (Continue, s, h))))"

definition on_accept :: "(addr \<Rightarrow> 's \<Rightarrow> 's) \<Rightarrow> ep_event \<Rightarrow> 's loop_state \<Rightarrow> 's loop_out" where
  "on_accept acceptor ev st =
     (case st of (s, h) \<Rightarrow>
        (case accept_client (ev_conn ev) (ev_new ev) (ev_eok ev) s of
           (ret, s) \<Rightarrow> if ret \<noteq> 0 then Some (Inr (Break, s, h))
                      else Some (Inr (Continue, s, acceptor (ev_new ev) h))))"

text \<open>The \<open>EPOLLIN\<close> branch: read, append to the accumulator, cut packets off, schedule.\<close>

definition on_readable ::
  "(addr \<Rightarrow> 's \<Rightarrow> 's) \<Rightarrow> ep_event \<Rightarrow> client \<Rightarrow> 's loop_state \<Rightarrow> 's loop_out" where
  "on_readable disconnector ev cli st =
     (case nbep_read (ev_reads ev) [] of
        None \<Rightarrow> None
      | Some (ret, bs, _) \<Rightarrow>
          (if ret = -3 \<or> ret = -4 then drop_client disconnector (evptr ev) st
           else case extract_packets (ev_sok ev) (acc_append (ev_aok ev) (cacc cli) bs)
                       (read_q cli) 0 of
             None \<Rightarrow> None
           | Some (Inl e) \<Rightarrow> Some (Inl e)
           | Some (Inr (a, q, n)) \<Rightarrow>
               (case st of (s, h) \<Rightarrow>
                  Some (Inr (Continue,
                    (set_client (evptr ev) (cli\<lparr>cacc := a, read_q := q\<rparr>) s)
                      \<lparr>tasks := tasks s @ replicate n (evptr ev)\<rparr>, h)))))"

text \<open>The \<open>EPOLLOUT\<close> branch.\<close>

definition on_writable :: "ep_event \<Rightarrow> client \<Rightarrow> 's loop_state \<Rightarrow> 's loop_out" where
  "on_writable ev cli st =
     (case st of (s, h) \<Rightarrow>
        if queue_empty (write_q cli) then Some (Inr (Continue, s, h))
        else case peek_block (write_q cli) (Some qblock_init) of
          Inl e \<Rightarrow> Some (Inl e)
        | Inr (r, b) \<Rightarrow>
            (if r \<noteq> 0 then Some (Inr (Continue, s, h))
             else case sfull_write (ev_write ev) cli (the b) of (ret, cli, bs) \<Rightarrow>
               if ret \<noteq> 0
               then Some (Inr (Continue, (set_client (evptr ev) cli s), h))
               else case pop_block (write_q cli) None of
                 Inl e \<Rightarrow> Some (Inl e)
               | Inr (pr, q, _) \<Rightarrow>
                   (let s = (set_client (evptr ev) (cli\<lparr>alr_written := 0, write_q := q\<rparr>) s)
                              \<lparr>sent := sent s @ [(fd cli, bs)]\<rparr>
                    in if pr = 2 then
                         (case change_climod (evptr ev) ModIn s of
                            Inl e \<Rightarrow> Some (Inl e)
                          | Inr (cr, s) \<Rightarrow>
                              if cr \<noteq> 0 then Some (Inr (Break, s\<lparr>is_running := False\<rparr>, h))
                              else Some (Inr (Continue, s, h)))
                       else Some (Inr (Continue, s, h)))))"

text \<open>The body of the loop over the events, in the order of the code's tests.\<close>

definition handle_event ::
  "(addr \<Rightarrow> 's \<Rightarrow> 's) \<Rightarrow> (addr \<Rightarrow> 's \<Rightarrow> 's) \<Rightarrow> ep_event \<Rightarrow> 's loop_state \<Rightarrow> 's loop_out" where
  "handle_event acceptor disconnector ev st =
     (if evptr ev = 0 then on_accept acceptor ev st
      else case clients (fst st) (evptr ev) of
        None \<Rightarrow> Some (Inl UseAfterFree)
      | Some cli \<Rightarrow>
          (if ev_hup ev then drop_client disconnector (evptr ev) st
           else if ev_in ev then on_readable disconnector ev cli st
           else if ev_out ev then on_writable ev cli st
           else Some (Inr (Continue, st))))"

text \<open>The events of one \<open>epoll_wait\<close>, and the outer loop over successive waits.\<close>

fun handle_events ::
  "(addr \<Rightarrow> 's \<Rightarrow> 's) \<Rightarrow> (addr \<Rightarrow> 's \<Rightarrow> 's) \<Rightarrow> ep_event list \<Rightarrow> 's loop_state
   \<Rightarrow> 's loop_state res option" where
  "handle_events acceptor disconnector [] st = Some (Inr st)"
| "handle_events acceptor disconnector (ev # evs) st =
     (case handle_event acceptor disconnector ev st of
        None \<Rightarrow> None
      | Some (Inl e) \<Rightarrow> Some (Inl e)
      | Some (Inr (Break, st)) \<Rightarrow> Some (Inr st)
      | Some (Inr (Continue, st)) \<Rightarrow> handle_events acceptor disconnector evs st)"

fun run_server ::
  "(addr \<Rightarrow> 's \<Rightarrow> 's) \<Rightarrow> (addr \<Rightarrow> 's \<Rightarrow> 's) \<Rightarrow> ep_event list list \<Rightarrow> 's loop_state
   \<Rightarrow> 's loop_state res option" where
  "run_server acceptor disconnector [] st = Some (Inr st)"
| "run_server acceptor disconnector (evs # waits) st =
     (if is_running (fst st) then
        (case handle_events acceptor disconnector evs st of
           None \<Rightarrow> None
         | Some (Inl e) \<Rightarrow> Some (Inl e)
         | Some (Inr st) \<Rightarrow> run_server acceptor disconnector waits st)
      else Some (Inr st))"

subsection \<open>Invariant\<close>

text \<open>
  Every connection's queues and accumulator are well-formed, no write is in progress between two
  events, and the epoll interest list and the heap of clients describe the same connections.
\<close>

definition client_ok :: "client \<Rightarrow> bool" where
  "client_ok cli \<longleftrightarrow> queue_inv (read_q cli) \<and> queue_inv (write_q cli) \<and> qb_wf (cacc cli)
     \<and> alr_written cli = 0 \<and> 0 < fd cli"

definition net_inv :: "net \<Rightarrow> bool" where
  "net_inv s \<longleftrightarrow>
     (\<forall>p cli. clients s p = Some cli \<longrightarrow>
        p \<noteq> 0 \<and> client_ok cli \<and> (\<exists>m. epoll s (fd cli) = Some (p, m)))
     \<and> (\<forall>f p m. epoll s f = Some (p, m) \<longrightarrow> p \<noteq> 0 \<longrightarrow>
          (\<exists>cli. clients s p = Some cli \<and> fd cli = f))"

text \<open>
  What the kernel and \<open>malloc\<close> guarantee about an event: a new connection has a fresh positive
  descriptor and a fresh address; any other event is for a pointer of the interest list.
\<close>

definition ev_ok :: "net \<Rightarrow> ep_event \<Rightarrow> bool" where
  "ev_ok s ev \<longleftrightarrow>
     (if evptr ev = 0
      then case ev_conn ev of
             None \<Rightarrow> True
           | Some (f, _) \<Rightarrow> 0 < f \<and> epoll s f = None \<and> ev_new ev \<noteq> 0 \<and> clients s (ev_new ev) = None
      else clients s (evptr ev) \<noteq> None)"

lemma net_inv_client:
  assumes "net_inv s" and "clients s p = Some cli"
  obtains m where "p \<noteq> 0" "client_ok cli" "epoll s (fd cli) = Some (p, m)"
  using assms unfolding net_inv_def by blast

lemma net_inv_fd:
  assumes "net_inv s" and "clients s p = Some c" and "clients s q = Some d" and "fd c = fd d"
  shows "p = q"
  using assms by (metis net_inv_client option.inject prod.inject)

lemma net_inv_frame [wf_intro]:
  "net_inv s \<Longrightarrow> net_inv (s\<lparr>tasks := t\<rparr>)" "net_inv s \<Longrightarrow> net_inv (s\<lparr>sent := u\<rparr>)"
  "net_inv s \<Longrightarrow> net_inv (s\<lparr>is_running := b\<rparr>)" "net_inv s \<Longrightarrow> net_inv (s\<lparr>last_uid := n\<rparr>)"
  by (simp_all add: net_inv_def)

lemma net_invI:
  assumes "\<And>p cli. clients s p = Some cli \<Longrightarrow>
      p \<noteq> 0 \<and> client_ok cli \<and> (\<exists>m. epoll s (fd cli) = Some (p, m))"
    and "\<And>f p m. epoll s f = Some (p, m) \<Longrightarrow> p \<noteq> 0 \<Longrightarrow> \<exists>cli. clients s p = Some cli \<and> fd cli = f"
  shows "net_inv s"
  using assms unfolding net_inv_def by blast

lemma net_inv_registered:
  "net_inv s \<Longrightarrow> epoll s f = Some (p, m) \<Longrightarrow> p \<noteq> 0 \<Longrightarrow> \<exists>cli. clients s p = Some cli \<and> fd cli = f"
  unfolding net_inv_def by blast

lemma net_inv_set_client [wf_intro]:
  assumes inv: "net_inv s" and c: "clients s p = Some c" and d: "client_ok d" "fd d = fd c"
  shows "net_inv (set_client p d s)"
proof (rule net_invI)
  fix q cli
  assume q: "clients (set_client p d s) q = Some cli"
  obtain m where m: "p \<noteq> 0" "epoll s (fd c) = Some (p, m)" by (rule net_inv_client [OF inv c])
  show "q \<noteq> 0 \<and> client_ok cli \<and> (\<exists>m. epoll (set_client p d s) (fd cli) = Some (q, m))"
  proof (cases "q = p")
    case True
    with q d m show ?thesis by (simp add: set_client_def)
  next
    case False
    with q have "clients s q = Some cli" by (simp add: set_client_def)
    from net_inv_client [OF inv this] show ?thesis by (simp add: set_client_def) blast
  qed
next
  fix f q m
  assume "epoll (set_client p d s) f = Some (q, m)" and "q \<noteq> 0"
  then have "epoll s f = Some (q, m)" by (simp add: set_client_def)
  from net_inv_registered [OF inv this \<open>q \<noteq> 0\<close>] obtain cli where
    "clients s q = Some cli" "fd cli = f" by blast
  then show "\<exists>cli. clients (set_client p d s) q = Some cli \<and> fd cli = f"
    using c d by (auto simp: set_client_def)
qed

lemma change_climod_ok:
  assumes inv: "net_inv s" and c: "clients s p = Some c"
  shows "change_climod p mode s = Inr (0, s\<lparr>epoll := (epoll s)(fd c \<mapsto> (p, mode))\<rparr>)"
    and "net_inv (s\<lparr>epoll := (epoll s)(fd c \<mapsto> (p, mode))\<rparr>)"
proof -
  obtain m where "epoll s (fd c) = Some (p, m)" by (rule net_inv_client [OF inv c])
  then show "change_climod p mode s = Inr (0, s\<lparr>epoll := (epoll s)(fd c \<mapsto> (p, mode))\<rparr>)"
    using c by (simp add: change_climod_def)
  show "net_inv (s\<lparr>epoll := (epoll s)(fd c \<mapsto> (p, mode))\<rparr>)"
    unfolding net_inv_def
  proof (intro conjI allI impI)
    fix q cli
    assume "clients (s\<lparr>epoll := (epoll s)(fd c \<mapsto> (p, mode))\<rparr>) q = Some cli"
    then have q: "clients s q = Some cli" by simp
    obtain m where m: "q \<noteq> 0" "client_ok cli" "epoll s (fd cli) = Some (q, m)"
      by (rule net_inv_client [OF inv q])
    then show "q \<noteq> 0" "client_ok cli" by simp_all
    show "\<exists>m. epoll (s\<lparr>epoll := (epoll s)(fd c \<mapsto> (p, mode))\<rparr>) (fd cli) = Some (q, m)"
      using m net_inv_fd [OF inv c q] by auto
  next
    fix f q m
    assume "epoll (s\<lparr>epoll := (epoll s)(fd c \<mapsto> (p, mode))\<rparr>) f = Some (q, m)" and "q \<noteq> 0"
    then show "\<exists>cli. clients (s\<lparr>epoll := (epoll s)(fd c \<mapsto> (p, mode))\<rparr>) q = Some cli \<and> fd cli = f"
      using inv c unfolding net_inv_def by (auto split: if_splits)
  qed
qed

lemma close_client_ok:
  assumes inv: "net_inv s" and c: "clients s p = Some c"
  shows "close_client p s =
      Inr (0, s\<lparr>epoll := (epoll s)(fd c := None), clients := (clients s)(p := None)\<rparr>)"
    and "net_inv (s\<lparr>epoll := (epoll s)(fd c := None), clients := (clients s)(p := None)\<rparr>)"
proof -
  obtain m where m: "epoll s (fd c) = Some (p, m)" "p \<noteq> 0" by (rule net_inv_client [OF inv c])
  then show "close_client p s =
      Inr (0, s\<lparr>epoll := (epoll s)(fd c := None), clients := (clients s)(p := None)\<rparr>)"
    using c by (simp add: close_client_def)
  show "net_inv (s\<lparr>epoll := (epoll s)(fd c := None), clients := (clients s)(p := None)\<rparr>)"
    using inv m c unfolding net_inv_def by (auto split: if_splits) (metis option.inject prod.inject)+
qed

lemma accept_client_ok:
  assumes inv: "net_inv s" and ev: "ev_ok s ev" and l: "evptr ev = 0"
  shows "net_inv (snd (accept_client (ev_conn ev) (ev_new ev) (ev_eok ev) s))"
proof (cases "ev_conn ev")
  case None
  with inv show ?thesis by (simp add: accept_client_def)
next
  case (Some c)
  then obtain f cip cport where c: "ev_conn ev = Some (f, cip, cport)" by (cases c) auto
  have ok: "0 < f" "epoll s f = None" "ev_new ev \<noteq> 0" "clients s (ev_new ev) = None"
    using ev l c by (simp_all add: ev_ok_def)
  have cl: "client_ok \<lparr>fd = f, read_q = queue_init, write_q = queue_init, alr_written = 0,
      intr_uid = u, ip = cip, port = cport, cacc = qblock_init\<rparr>" for u
    using ok(1) by (simp add: client_ok_def)
  show ?thesis
    using inv ok cl unfolding net_inv_def accept_client_def c
    by (auto simp: Let_def split: if_splits) (metis option.distinct(1))+
qed

subsection \<open>The handlers\<close>

text \<open>
  A readable connection whose reads end in \<open>EAGAIN\<close>: the received bytes go behind the
  accumulator's, every complete frame moves to the read queue, and one worker is scheduled for
  each.
\<close>

fun read_bytes :: "read_ans list \<Rightarrow> byte list" where
  "read_bytes [] = []"
| "read_bytes (ReadBytes bs ok # as) = bs @ read_bytes as"
| "read_bytes (_ # as) = []"

definition drained :: "read_ans list \<Rightarrow> bool" where
  "drained as \<longleftrightarrow> (\<exists>bss. as = map (\<lambda>bs. ReadBytes bs True) bss @ [ReadAgain])"

lemma nbep_read_bytes:
  "nbep_read (map (\<lambda>bs. ReadBytes bs True) bss @ as) out = nbep_read as (out @ concat bss)"
  by (induction bss arbitrary: out) simp_all

lemma read_bytes_map: "read_bytes (map (\<lambda>bs. ReadBytes bs True) bss @ [ReadAgain]) = concat bss"
  by (induction bss) simp_all

lemma nbep_read_drained: "drained as \<Longrightarrow> nbep_read as [] = Some (0, read_bytes as, [])"
  by (auto simp: drained_def nbep_read_bytes read_bytes_map)

lemma nbep_read_status:
  "nbep_read as out = Some (r, bs, rest) \<Longrightarrow> r \<in> {0, -2, -3, -4}"
  by (induction as out rule: nbep_read.induct) (auto split: if_splits)

lemma on_readable_extract:
  assumes inv: "net_inv s" and c: "clients s (evptr ev) = Some cli"
    and rd: "nbep_read (ev_reads ev) [] = Some (r, bs, rest)" "r = 0 \<or> r = -2"
    and fr: "frames (qb_bytes (acc_append (ev_aok ev) (cacc cli) bs)) = Some (fs, t)"
  obtains cli' where "on_readable disc ev cli (s, h) =
      Some (Inr (Continue, (set_client (evptr ev) cli' s)
        \<lparr>tasks := tasks s @ replicate (length fs) (evptr ev)\<rparr>, h))"
    "client_ok cli'" "qb_bytes (cacc cli') = t"
    "contents (read_q cli') = contents (read_q cli) @ fs"
    "write_q cli' = write_q cli" "fd cli' = fd cli" "ip cli' = ip cli" "port cli' = port cli"
proof -
  obtain m where ok: "client_ok cli" by (rule net_inv_client [OF inv c])
  then have q: "queue_inv (read_q cli)" and wf: "qb_wf (cacc cli)"
    by (simp_all add: client_ok_def)
  let ?acc = "acc_append (ev_aok ev) (cacc cli) bs"
  obtain a q where ex: "extract_packets (ev_sok ev) ?acc (read_q cli) 0 = Some (Inr (a, q, length fs))"
    and w: "qb_wf a" "qb_bytes a = t" "queue_inv q" "contents q = contents (read_q cli) @ fs"
    using extract_packets_frames [OF fr _ q, of "ev_sok ev" 0] wf by auto
  let ?cli = "cli\<lparr>cacc := a, read_q := q\<rparr>"
  have "on_readable disc ev cli (s, h) = Some (Inr (Continue, (set_client (evptr ev) ?cli s)
        \<lparr>tasks := tasks s @ replicate (length fs) (evptr ev)\<rparr>, h))"
    using rd ex by (auto simp: on_readable_def)
  then show thesis
    using w ok by (intro that [of ?cli]) (simp_all add: client_ok_def)
qed

lemma drop_client_ok:
  assumes inv: "net_inv s" and c: "clients s p = Some cli"
  shows "drop_client disc p (s, h) = Some (Inr (Continue,
      s\<lparr>epoll := (epoll s)(fd cli := None), clients := (clients s)(p := None)\<rparr>, disc p h))"
  using close_client_ok(1) [OF inv c] by (simp add: drop_client_def Let_def)

lemma on_writable_idle:
  assumes "net_inv s" and "clients s (evptr ev) = Some cli" and "contents (write_q cli) = []"
  shows "on_writable ev cli (s, h) = Some (Inr (Continue, s, h))"
proof -
  obtain m where "client_ok cli" by (rule net_inv_client [OF assms(1,2)])
  then show ?thesis
    using assms(3) by (simp add: on_writable_def client_ok_def queue_empty_iff)
qed

lemma client_update_alr [simp]: "cli\<lparr>alr_written := alr_written cli\<rparr> = cli"
  by (cases cli) simp

lemma set_client_same: "clients s p = Some c \<Longrightarrow> set_client p c s = s"
  by (cases s) (auto simp: set_client_def)

text \<open>A write that takes at least one byte counts as the whole block.\<close>

lemma on_writable_wrote:
  assumes inv: "net_inv s" and c: "clients s (evptr ev) = Some cli"
    and ne: "contents (write_q cli) = x # xs" and w: "ev_write ev = Wrote n" "0 < n"
  defines "s' \<equiv> (set_client (evptr ev) (cli\<lparr>write_q := dequeue (write_q cli)\<rparr>) s)
      \<lparr>sent := sent s @ [(fd cli, take n x)]\<rparr>"
  shows "on_writable ev cli (s, h) = Some (Inr (Continue,
      if xs = [] then s'\<lparr>epoll := (epoll s)(fd cli \<mapsto> (evptr ev, ModIn))\<rparr> else s', h))"
    and "net_inv s'"
proof -
  obtain m where ok: "client_ok cli" by (rule net_inv_client [OF inv c])
  then have q: "queue_inv (write_q cli)" and alr: "alr_written cli = 0"
    by (simp_all add: client_ok_def)
  have nn: "contents (write_q cli) \<noteq> []" using ne by simp
  have upd: "cli\<lparr>alr_written := 0, write_q := z\<rparr> = cli\<lparr>write_q := z\<rparr>" for z
    using alr by (cases cli) simp
  have cl: "client_ok (cli\<lparr>write_q := dequeue (write_q cli)\<rparr>)"
    using ok pop_block_step(2) [OF q nn] by (simp add: client_ok_def)
  have inv': "net_inv s'"
    unfolding s'_def using net_inv_set_client [OF inv c cl] by (intro net_inv_frame) simp
  have c': "clients s' (evptr ev) = Some (cli\<lparr>write_q := dequeue (write_q cli)\<rparr>)"
    by (simp add: s'_def set_client_def)
  have e': "epoll s' = epoll s" by (simp add: s'_def set_client_def)
  have pop: "pop_block (write_q cli) None = Inr (if xs = [] then 2 else 0, dequeue (write_q cli), None)"
    using pop_block_step(1) [OF q nn] ne by simp
  have wr: "sfull_write (Wrote n) cli (mk_block x) = (0, cli\<lparr>alr_written := n\<rparr>, take n x)"
    using w(2) alr by (simp add: sfull_write_def)
  note pk = peek_block_step [OF q nn, of "Some qblock_init"]
  note cm = change_climod_ok(1) [OF inv' c', of ModIn]
  have ow: "on_writable ev cli (s, h) =
      (if xs = [] then (case change_climod (evptr ev) ModIn s' of
          Inl e \<Rightarrow> Some (Inl e)
        | Inr (cr, s) \<Rightarrow> if cr \<noteq> 0 then Some (Inr (Break, s\<lparr>is_running := False\<rparr>, h))
                       else Some (Inr (Continue, s, h)))
       else Some (Inr (Continue, s', h)))"
    using q nn w pk pop wr ne
    by (simp add: on_writable_def queue_empty_iff s'_def Let_def upd)
  show "on_writable ev cli (s, h) = Some (Inr (Continue,
      if xs = [] then s'\<lparr>epoll := (epoll s)(fd cli \<mapsto> (evptr ev, ModIn))\<rparr> else s', h))"
    using cm e' by (simp add: ow)
  show "net_inv s'" by (rule inv')
qed

lemma on_writable_refused:
  assumes inv: "net_inv s" and c: "clients s (evptr ev) = Some cli"
    and w: "ev_write ev = WouldBlock \<or> ev_write ev = WriteError \<or> ev_write ev = Wrote 0"
  shows "on_writable ev cli (s, h) = Some (Inr (Continue, s, h))"
proof (cases "contents (write_q cli) = []")
  case True
  then show ?thesis using on_writable_idle [OF inv c] by simp
next
  case False
  obtain m where "client_ok cli" by (rule net_inv_client [OF inv c])
  then have q: "queue_inv (write_q cli)" by (simp add: client_ok_def)
  show ?thesis
    using w False q peek_block_step [OF q False, of "Some qblock_init"]
    by (auto simp: on_writable_def queue_empty_iff sfull_write_def set_client_same [OF c])
qed

text \<open>
  No event faults on a server whose invariant holds, and the invariant holds again after it; the
  handler can only fail to return while it reads or cuts frames off.  \<open>fed s\<close> is the
  bookkeeping between the loop and the pool: at least one worker is scheduled for every packet in
  a read queue.
\<close>

definition inbox :: "net \<Rightarrow> addr \<Rightarrow> byte list list" where
  "inbox s p = (case clients s p of None \<Rightarrow> [] | Some cli \<Rightarrow> contents (read_q cli))"

definition fed :: "net \<Rightarrow> bool" where
  "fed s \<longleftrightarrow> (\<forall>p. length (inbox s p) \<le> count_list (tasks s) p)"

definition keeps :: "net \<Rightarrow> 's loop_out \<Rightarrow> bool" where
  "keeps s out \<longleftrightarrow>
     (case out of
        None \<Rightarrow> True
      | Some (Inl _) \<Rightarrow> False
      | Some (Inr (_, s', _)) \<Rightarrow> net_inv s' \<and> (fed s \<longrightarrow> fed s'))"

lemma keeps_simps [simp]:
  "keeps s None" "\<not> keeps s (Some (Inl e))"
  "keeps s (Some (Inr (fl, s', h))) \<longleftrightarrow> net_inv s' \<and> (fed s \<longrightarrow> fed s')"
  by (simp_all add: keeps_def)

lemma inbox_client: "clients s p = Some c \<Longrightarrow> inbox s p = contents (read_q c)"
  by (simp add: inbox_def)

lemma inbox_upd [simp]:
  "inbox (s\<lparr>tasks := t\<rparr>) = inbox s" "inbox (s\<lparr>sent := u\<rparr>) = inbox s"
  "inbox (s\<lparr>epoll := e\<rparr>) = inbox s" "inbox (s\<lparr>last_uid := n\<rparr>) = inbox s"
  "inbox (s\<lparr>is_running := b\<rparr>) = inbox s"
  by (simp_all add: inbox_def fun_eq_iff)

lemma inbox_set_client: "inbox (set_client p c s) = (inbox s)(p := contents (read_q c))"
  by (simp add: inbox_def set_client_def fun_eq_iff)

lemma tasks_set_client [simp]: "tasks (set_client p c s) = tasks s"
  by (simp add: set_client_def)

lemma epoll_set_client [simp]: "epoll (set_client p c s) = epoll s"
  by (simp add: set_client_def)

lemma fed_closed:
  "fed s \<Longrightarrow> fed (s\<lparr>epoll := e, clients := (clients s)(p := None)\<rparr>)"
  by (auto simp: fed_def inbox_def)

lemma count_list_replicate: "count_list (replicate n x) y = (if x = y then n else 0)"
  by (induction n) auto

lemma fed_received:
  assumes "fed s" and "clients s p = Some c" and "contents (read_q c') = contents (read_q c) @ fs"
  shows "fed ((set_client p c' s)\<lparr>tasks := tasks s @ replicate (length fs) p\<rparr>)"
proof -
  have "length (contents (read_q c)) \<le> count_list (tasks s) p"
    using assms(1,2) by (metis fed_def inbox_client)
  then show ?thesis
    using assms(1,3) by (simp add: fed_def inbox_set_client count_list_replicate trans_le_add1)
qed

lemma on_readable_inv:
  assumes inv: "net_inv s" and c: "clients s (evptr ev) = Some cli"
  shows "keeps s (on_readable disc ev cli (s, h))"
proof (cases "nbep_read (ev_reads ev) []")
  case None
  then show ?thesis by (simp add: on_readable_def)
next
  case (Some o3)
  then obtain r bs rest where rd: "nbep_read (ev_reads ev) [] = Some (r, bs, rest)"
    by (cases o3) auto
  obtain m where ok: "client_ok cli" by (rule net_inv_client [OF inv c])
  then have q: "queue_inv (read_q cli)" and wf: "qb_wf (cacc cli)"
    by (simp_all add: client_ok_def)
  let ?acc = "acc_append (ev_aok ev) (cacc cli) bs"
  consider (drop) "r = -3 \<or> r = -4" | (read) "r = 0 \<or> r = -2"
    using nbep_read_status [OF rd] by blast
  then show ?thesis
  proof cases
    case drop
    then have "on_readable disc ev cli (s, h) = drop_client disc (evptr ev) (s, h)"
      using rd by (auto simp: on_readable_def)
    then show ?thesis
      using drop_client_ok [OF inv c, of disc h] close_client_ok(2) [OF inv c] fed_closed by simp
  next
    case read
    show ?thesis
    proof (cases "frames (qb_bytes ?acc)")
      case None
      have "qb_wf ?acc" using wf by simp
      then have "extract_packets (ev_sok ev) ?acc (read_q cli) 0 = None"
        using extract_packets_returns [of "ev_sok ev" ?acc "read_q cli" 0] q None
        by (cases "extract_packets (ev_sok ev) ?acc (read_q cli) 0") auto
      then show ?thesis using rd read by (auto simp: on_readable_def)
    next
      case (Some ft)
      then obtain fs t where fr: "frames (qb_bytes ?acc) = Some (fs, t)" by (cases ft) auto
      obtain cli' where "on_readable disc ev cli (s, h) =
        Some (Inr (Continue, (set_client (evptr ev) cli' s)
          \<lparr>tasks := tasks s @ replicate (length fs) (evptr ev)\<rparr>, h))"
        "client_ok cli'" "fd cli' = fd cli"
        and rq: "contents (read_q cli') = contents (read_q cli) @ fs"
        by (rule on_readable_extract [OF inv c rd read fr])
      moreover have "net_inv ((set_client (evptr ev) cli' s)
          \<lparr>tasks := tasks s @ replicate (length fs) (evptr ev)\<rparr>)"
        using net_inv_set_client [OF inv c calculation(2,3)] by (rule net_inv_frame)
      ultimately show ?thesis using fed_received [OF _ c rq] by simp
    qed
  qed
qed

lemma on_writable_inv:
  assumes inv: "net_inv s" and c: "clients s (evptr ev) = Some cli"
  shows "keeps s (on_writable ev cli (s, h))"
proof (cases "contents (write_q cli)")
  case Nil
  then show ?thesis using on_writable_idle [OF inv c, of h] inv by simp
next
  case (Cons x xs)
  consider n where "ev_write ev = Wrote n" "0 < n"
    | "ev_write ev = WouldBlock \<or> ev_write ev = WriteError \<or> ev_write ev = Wrote 0"
    by (cases "ev_write ev") auto
  then show ?thesis
  proof cases
    case (1 n)
    let ?s = "(set_client (evptr ev) (cli\<lparr>write_q := dequeue (write_q cli)\<rparr>) s)
      \<lparr>sent := sent s @ [(fd cli, take n x)]\<rparr>"
    have i: "net_inv ?s" by (rule on_writable_wrote(2) [OF inv c Cons 1])
    have c': "clients ?s (evptr ev) = Some (cli\<lparr>write_q := dequeue (write_q cli)\<rparr>)"
      by (simp add: set_client_def)
    have e: "epoll ?s = epoll s" by (simp add: set_client_def)
    have "net_inv (?s\<lparr>epoll := (epoll s)(fd cli \<mapsto> (evptr ev, ModIn))\<rparr>)"
      using change_climod_ok(2) [OF i c', of ModIn] e by simp
    moreover have "inbox ?s = inbox s"
      using inbox_client [OF c] by (auto simp: inbox_set_client fun_eq_iff)
    ultimately show ?thesis
      using on_writable_wrote(1) [OF inv c Cons 1, of h] i by (simp add: fed_def)
  next
    case 2
    then show ?thesis using on_writable_refused [OF inv c 2, of h] inv by simp
  qed
qed

lemma handle_event_inv:
  assumes inv: "net_inv s" and ev: "ev_ok s ev"
  shows "keeps s (handle_event acceptor disc ev (s, h))"
proof (cases "evptr ev = 0")
  case True
  obtain r s' where a: "accept_client (ev_conn ev) (ev_new ev) (ev_eok ev) s = (r, s')"
    by fastforce
  then have "net_inv s'" using accept_client_ok [OF inv ev True] by simp
  moreover have "fed s \<longrightarrow> fed s'"
    using a ev True
    by (auto simp: accept_client_def fed_def inbox_def Let_def ev_ok_def split: option.splits if_splits)
  ultimately show ?thesis using True a by (simp add: handle_event_def on_accept_def)
next
  case False
  then obtain cli where c: "clients s (evptr ev) = Some cli"
    using ev by (auto simp: ev_ok_def)
  have "keeps s (drop_client disc (evptr ev) (s, h))"
    using drop_client_ok [OF inv c, of disc h] close_client_ok(2) [OF inv c] fed_closed by simp
  with False c show ?thesis
    using on_readable_inv [OF inv c, of disc h] on_writable_inv [OF inv c, of h] inv by (simp add: handle_event_def)
qed

text \<open>When the handler returns.\<close>

definition received :: "ep_event \<Rightarrow> client \<Rightarrow> byte list" where
  "received ev cli =
     (case nbep_read (ev_reads ev) [] of
        None \<Rightarrow> qb_bytes (cacc cli)
      | Some (r, bs, rest) \<Rightarrow> qb_bytes (acc_append (ev_aok ev) (cacc cli) bs))"

lemma on_readable_returns:
  assumes inv: "net_inv s" and c: "clients s (evptr ev) = Some cli"
    and rd: "nbep_read (ev_reads ev) [] \<noteq> None" and nw: "no_wrap (received ev cli)"
  shows "on_readable disc ev cli (s, h) \<noteq> None"
proof -
  obtain r bs rest where r: "nbep_read (ev_reads ev) [] = Some (r, bs, rest)" using rd by auto
  show ?thesis
  proof (cases "r = -3 \<or> r = -4")
    case True
    then show ?thesis using r drop_client_ok [OF inv c, of disc h] by (auto simp: on_readable_def)
  next
    case False
    then have r02: "r = 0 \<or> r = -2" using nbep_read_status [OF r] by auto
    obtain fs t where "frames (qb_bytes (acc_append (ev_aok ev) (cacc cli) bs)) = Some (fs, t)"
      using no_wrap_frames [OF nw] r by (auto simp: received_def)
    from on_readable_extract [OF inv c r r02 this, of disc h] show ?thesis by auto
  qed
qed

lemma handle_event_returns:
  assumes inv: "net_inv s" and ev: "ev_ok s ev"
    and "\<And>cli. clients s (evptr ev) = Some cli \<Longrightarrow> ev_in ev \<Longrightarrow>
       nbep_read (ev_reads ev) [] \<noteq> None \<and> no_wrap (received ev cli)"
  shows "\<exists>fl s' h'. handle_event acceptor disc ev (s, h) = Some (Inr (fl, s', h')) \<and> net_inv s'
     \<and> (fed s \<longrightarrow> fed s')"
proof -
  have k: "keeps s (handle_event acceptor disc ev (s, h))" by (rule handle_event_inv [OF inv ev])
  have "handle_event acceptor disc ev (s, h) \<noteq> None"
  proof (cases "evptr ev = 0")
    case True
    then show ?thesis by (simp add: handle_event_def on_accept_def split: prod.split)
  next
    case False
    then obtain cli where c: "clients s (evptr ev) = Some cli" using ev by (auto simp: ev_ok_def)
    have w: "on_writable ev cli (s, h) \<noteq> None"
      by (auto simp: on_writable_def Let_def split: sum.split prod.split)
    show ?thesis
      using False c w drop_client_ok [OF inv c, of disc h] on_readable_returns [OF inv c, of disc h]
        assms(3) [OF c] by (auto simp: handle_event_def)
  qed
  with k show ?thesis
    by (auto simp: keeps_def split: option.splits sum.splits prod.splits)
qed

subsection \<open>Properties\<close>

text \<open>The server that the witnesses use: connections 5 and 6, the first with packets received
  and blocks to write.\<close>

definition demo_client :: "int \<Rightarrow> byte list list \<Rightarrow> byte list list \<Rightarrow> client" where
  "demo_client f rq wq =
     \<lparr>fd = f, read_q = foldl enqueue queue_init (map mk_block rq),
      write_q = foldl enqueue queue_init (map mk_block wq), alr_written = 0, intr_uid = 1,
      ip = ''10.0.0.1'', port = of_int f, cacc = qblock_init\<rparr>"

definition demo_net :: "byte list list \<Rightarrow> byte list list \<Rightarrow> net" where
  "demo_net rq wq =
     \<lparr>clients = [1 \<mapsto> demo_client 5 rq wq, 2 \<mapsto> demo_client 6 [] []],
      epoll = [5 \<mapsto> (1, ModOut), 6 \<mapsto> (2, ModIn)], tasks = replicate (length rq) 1, sent = [],
      last_uid = 2, is_running = True\<rparr>"

definition demo_event :: "addr \<Rightarrow> bool \<Rightarrow> read_ans list \<Rightarrow> write_ans \<Rightarrow> ep_event" where
  "demo_event p inp reads w =
     \<lparr>evptr = p, ev_hup = False, ev_in = inp, ev_out = \<not> inp, ev_conn = None, ev_new = 0,
      ev_eok = True, ev_reads = reads, ev_aok = True, ev_sok = True, ev_write = w\<rparr>"

lemma demo_queue:
  "queue_inv (foldl enqueue queue_init (map mk_block xs))
   \<and> contents (foldl enqueue queue_init (map mk_block xs)) = xs"
proof -
  have wf: "qb_wf b" if "b \<in> set (map mk_block xs)" for b using that by auto
  from bq.enqs [of queue_init "map mk_block xs", OF queue_inv_init wf] show ?thesis by simp
qed

lemma demo_client_simps [simp]:
  "fd (demo_client f rq wq) = f" "contents (read_q (demo_client f rq wq)) = rq"
  "contents (write_q (demo_client f rq wq)) = wq" "ip (demo_client f rq wq) = ''10.0.0.1''"
  "port (demo_client f rq wq) = of_int f" "cacc (demo_client f rq wq) = qblock_init"
  using demo_queue by (simp_all add: demo_client_def)

lemma demo_client_ok [simp]: "0 < f \<Longrightarrow> client_ok (demo_client f rq wq)"
  using demo_queue by (simp add: client_ok_def demo_client_def)

lemma demo_net_simps [simp]:
  "clients (demo_net rq wq) = [1 \<mapsto> demo_client 5 rq wq, 2 \<mapsto> demo_client 6 [] []]"
  "epoll (demo_net rq wq) = [5 \<mapsto> (1, ModOut), 6 \<mapsto> (2, ModIn)]"
  "tasks (demo_net rq wq) = replicate (length rq) 1" "sent (demo_net rq wq) = []"
  by (simp_all add: demo_net_def)

lemma demo_net_inv [simp]: "net_inv (demo_net rq wq)"
  by (rule net_invI) (auto split: if_splits)

lemma demo_event_simps [simp]:
  "evptr (demo_event p i r w) = p" "ev_hup (demo_event p i r w) = False"
  "ev_in (demo_event p i r w) = i" "ev_out (demo_event p i r w) = (\<not> i)"
  "ev_reads (demo_event p i r w) = r" "ev_write (demo_event p i r w) = w"
  "ev_aok (demo_event p i r w)"
  by (simp_all add: demo_event_def)

lemma no_wrap_sample: "no_wrap (packet_bytes (sample_packet 10 20))"
proof -
  let ?bs = "packet_bytes (sample_packet 10 20)"
  have at: "u64_at 53 (drop 0 ?bs) \<noteq> - 61" "u64_at 53 (drop 1 ?bs) \<noteq> - 61" "u64_at 53 (drop 2 ?bs) \<noteq> - 61"
    by code_simp+
  have len: "length ?bs = 63"
    using length_packet_bytes [of "sample_packet 10 20"] sample_packet_wf [of 10 20] by simp
  have "u64_at 53 post \<noteq> - 61" if "?bs = pre @ post" "61 \<le> length post" for pre post
  proof -
    have "length pre + length post = 63" using len arg_cong [OF that(1), of length] by simp
    then have "length pre = 0 \<or> length pre = 1 \<or> length pre = 2" using that(2) by linarith
    moreover have "post = drop (length pre) ?bs" using that(1) by simp
    ultimately show ?thesis using at by metis
  qed
  then show ?thesis by (simp add: no_wrap_def)
qed

text \<open>C24: no event makes the server loop touch freed or foreign memory: on a state that satisfies the
  invariant, for any event the kernel can report and any bytes it delivers, the handler does not
  fault, and if it returns the invariant holds again.  It returns if the reads of the event end
  and no header among the bytes received declares the size that wraps to an empty packet; otherwise
  it may run for ever.\<close>

theorem event_safe:
  assumes "net_inv s" and "ev_ok s ev"
  shows "(\<forall>f. handle_event acceptor disc ev (s, h) \<noteq> Some (Inl f))
     \<and> (\<forall>fl s' h'. handle_event acceptor disc ev (s, h) = Some (Inr (fl, s', h')) \<longrightarrow> net_inv s')
     \<and> ((\<forall>cli. clients s (evptr ev) = Some cli \<and> ev_in ev \<longrightarrow>
            nbep_read (ev_reads ev) [] \<noteq> None \<and> no_wrap (received ev cli))
        \<longrightarrow> handle_event acceptor disc ev (s, h) \<noteq> None)"
proof (intro conjI impI)
  note k = handle_event_inv [OF assms, of acceptor disc h]
  show "\<forall>f. handle_event acceptor disc ev (s, h) \<noteq> Some (Inl f)" using k by auto
  show "\<forall>fl s' h'. handle_event acceptor disc ev (s, h) = Some (Inr (fl, s', h')) \<longrightarrow> net_inv s'"
    using k by (auto simp: keeps_def)
  assume "\<forall>cli. clients s (evptr ev) = Some cli \<and> ev_in ev \<longrightarrow>
      nbep_read (ev_reads ev) [] \<noteq> None \<and> no_wrap (received ev cli)"
  then show "handle_event acceptor disc ev (s, h) \<noteq> None"
    using handle_event_returns [OF assms, of acceptor disc h] by blast
qed

text \<open>A packet of 63 bytes, none of which reads as the wrapping size.\<close>

theorem event_safe_witness:
  "\<exists>fl s' h'. handle_event (\<lambda>_. id) (\<lambda>_. id)
       (demo_event 1 True [ReadBytes (packet_bytes (sample_packet 10 20)) True, ReadAgain] WouldBlock) (demo_net [] [[7]], ())
     = Some (Inr (fl, s', h')) \<and> net_inv s'"
proof -
  let ?ev = "demo_event 1 True [ReadBytes (packet_bytes (sample_packet 10 20)) True, ReadAgain] WouldBlock"
  let ?r = "handle_event (\<lambda>_. id) (\<lambda>_. id) ?ev (demo_net [] [[7]], ())"
  have ok: "ev_ok (demo_net [] [[7]]) ?ev" by (simp add: ev_ok_def)
  have nw: "no_wrap (packet_bytes (sample_packet 10 20))" by (rule no_wrap_sample)
  have "nbep_read (ev_reads ?ev) [] \<noteq> None \<and> no_wrap (received ?ev (demo_client 5 [] [[7]]))"
    using nw by (simp add: received_def)
  then have "?r \<noteq> None" "\<forall>f. ?r \<noteq> Some (Inl f)" "\<forall>fl s' h'. ?r = Some (Inr (fl, s', h')) \<longrightarrow> net_inv s'"
    using event_safe [OF demo_net_inv ok, of "\<lambda>_. id" "\<lambda>_. id" "()"] by auto
  then show ?thesis by (cases ?r; cases "the ?r") auto
qed

text \<open>Bytes that arrive in one readable event complete exactly the packets they complete:
  these go to the connection's read queue in order, one worker is scheduled for each, the rest
  stays in the accumulator, and no other connection changes.\<close>

theorem readable_hands_over:
  assumes "net_inv s" and "clients s p = Some cli" and "evptr ev = p" and "p \<noteq> 0"
    and "\<not> ev_hup ev" and "ev_in ev" and "ev_aok ev" and "drained (ev_reads ev)"
    and "\<forall>m \<in> set ps. packet_wf m" and "length t < packet_general_ofs"
    and "qb_bytes (cacc cli) @ read_bytes (ev_reads ev) = concat (map packet_bytes ps) @ t"
  shows "\<exists>s' cli'. handle_event acceptor disc ev (s, h) = Some (Inr (Continue, s', h))
     \<and> clients s' = (clients s)(p \<mapsto> cli') \<and> qb_bytes (cacc cli') = t
     \<and> contents (read_q cli') = contents (read_q cli) @ map packet_bytes ps
     \<and> write_q cli' = write_q cli \<and> tasks s' = tasks s @ replicate (length ps) p
     \<and> epoll s' = epoll s \<and> sent s' = sent s"
proof -
  have c: "clients s (evptr ev) = Some cli" using assms(2,3) by simp
  note rd = nbep_read_drained [OF assms(8)]
  obtain md where "client_ok cli" by (rule net_inv_client [OF assms(1) c])
  then have wf: "qb_wf (cacc cli)" by (simp add: client_ok_def)
  have fr: "frames (qb_bytes (acc_append (ev_aok ev) (cacc cli) (read_bytes (ev_reads ev))))
      = Some (map packet_bytes ps, t)"
    using frames_packets [OF assms(9), of t] assms(7,10,11) wf by (simp add: next_frame_def)
  obtain cli' where "on_readable disc ev cli (s, h) =
      Some (Inr (Continue, (set_client (evptr ev) cli' s)
        \<lparr>tasks := tasks s @ replicate (length (map packet_bytes ps)) (evptr ev)\<rparr>, h))"
    "qb_bytes (cacc cli') = t" "write_q cli' = write_q cli"
    "contents (read_q cli') = contents (read_q cli) @ map packet_bytes ps"
    by (rule on_readable_extract [OF assms(1) c rd disjI1 [OF refl] fr])
  then show ?thesis
    using assms(2-6)
    by (intro exI [of _ "(set_client p cli' s)\<lparr>tasks := tasks s @ replicate (length ps) p\<rparr>"]
        exI [of _ cli']) (simp add: handle_event_def, simp add: set_client_def)
qed

theorem readable_hands_over_witness:
  "\<exists>s' cli'. handle_event (\<lambda>_. id) (\<lambda>_. id)
       (demo_event 2 True [ReadBytes (packet_bytes (sample_packet 10 20)) True, ReadAgain] WouldBlock)
       (demo_net [] [], ()) = Some (Inr (Continue, s', ()))
     \<and> clients s' 2 = Some cli' \<and> contents (read_q cli') = [packet_bytes (sample_packet 10 20)]
     \<and> tasks s' = [2]"
proof -
  let ?ev = "demo_event 2 True [ReadBytes (packet_bytes (sample_packet 10 20)) True, ReadAgain] WouldBlock"
  have "drained (ev_reads ?ev)"
    unfolding drained_def by (intro exI [of _ "[packet_bytes (sample_packet 10 20)]"]) simp
  then show ?thesis
    using readable_hands_over [of "demo_net [] []" 2 "demo_client 6 [] []" ?ev "[sample_packet 10 20]" "[]"
      "\<lambda>_. id" "\<lambda>_. id" "()"] by auto
qed

text \<open>A \<open>write\<close> that takes only the first bytes of a block counts as the whole block: the
  block is popped and the rest of its bytes is never sent, so the peer's stream loses its
  framing.\<close>

theorem partial_write_drops_tail:
  assumes "net_inv s" and "clients s p = Some cli" and "evptr ev = p" and "p \<noteq> 0"
    and "\<not> ev_hup ev" and "\<not> ev_in ev" and "ev_out ev"
    and "contents (write_q cli) = x # xs" and "ev_write ev = Wrote n" and "0 < n" and "n < length x"
  shows "\<exists>s' cli'. handle_event acceptor disc ev (s, h) = Some (Inr (Continue, s', h))
     \<and> clients s' p = Some cli' \<and> contents (write_q cli') = xs
     \<and> sent s' = sent s @ [(fd cli, take n x)] \<and> alr_written cli' = 0"
proof -
  have c: "clients s (evptr ev) = Some cli" using assms(2,3) by simp
  obtain md where ok: "client_ok cli" by (rule net_inv_client [OF assms(1) c])
  then have "contents (dequeue (write_q cli)) = xs"
    using pop_block_step(3) [of "write_q cli"] assms(8) by (simp add: client_ok_def)
  then show ?thesis
    using on_writable_wrote(1) [OF assms(1) c assms(8-10), of h] assms(2-7) ok
    by (auto simp: handle_event_def set_client_def client_ok_def)
qed

theorem partial_write_drops_tail_witness:
  "\<exists>s' cli'. handle_event (\<lambda>_. id) (\<lambda>_. id) (demo_event 1 False [] (Wrote 2))
       (demo_net [] [[1, 2, 3], [4]], ()) = Some (Inr (Continue, s', ()))
     \<and> clients s' 1 = Some cli' \<and> contents (write_q cli') = [[4]] \<and> sent s' = [(5, [1, 2])]"
  using partial_write_drops_tail [of "demo_net [] [[1, 2, 3], [4]]" 1 "demo_client 5 [] [[1, 2, 3], [4]]"
    "demo_event 1 False [] (Wrote 2)" "[1, 2, 3]" "[[4]]" 2 "\<lambda>_. id" "\<lambda>_. id" "()"]
  by (auto simp: numeral_2_eq_2)

text \<open>The bytes that a peer sends right before it closes are lost: when the successive reads
  of one event end in end-of-stream, the connection is dropped without looking at what the earlier
  reads returned, so no packet among them is handed over.\<close>

theorem close_discards_received:
  assumes "net_inv s" and "clients s p = Some cli" and "evptr ev = p" and "p \<noteq> 0"
    and "\<not> ev_hup ev" and "ev_in ev"
    and "ev_reads ev = map (\<lambda>bs. ReadBytes bs True) bss @ [ReadEof]"
  shows "\<exists>s'. handle_event acceptor disc ev (s, h) = Some (Inr (Continue, s', disc p h))
     \<and> clients s' = (clients s)(p := None) \<and> tasks s' = tasks s"
proof -
  have c: "clients s (evptr ev) = Some cli" using assms(2,3) by simp
  have "nbep_read (ev_reads ev) [] = Some (-4, concat bss, [])"
    using nbep_read_bytes [of bss "[ReadEof]" "[]"] assms(7) by simp
  then have "on_readable disc ev cli (s, h) = drop_client disc p (s, h)"
    using assms(3) by (simp add: on_readable_def)
  then show ?thesis
    using drop_client_ok [OF assms(1,2), of disc h] assms(2-6) by (simp add: handle_event_def)
qed

theorem close_discards_received_witness:
  "\<exists>s'. handle_event (\<lambda>_. id) (\<lambda>_. id)
       (demo_event 2 True [ReadBytes (packet_bytes (sample_packet 10 20)) True, ReadEof] WouldBlock)
       (demo_net [] [], ()) = Some (Inr (Continue, s', ())) \<and> clients s' 2 = None \<and> tasks s' = []"
  using close_discards_received [of "demo_net [] []" 2 "demo_client 6 [] []"
    "demo_event 2 True [ReadBytes (packet_bytes (sample_packet 10 20)) True, ReadEof] WouldBlock"
    "[packet_bytes (sample_packet 10 20)]" "\<lambda>_. id" "\<lambda>_. id" "()"] by auto

text \<open>C25: as long as \<open>write\<close> takes whole blocks, as many writable events as there are blocks send
  every block once and in order, and the last one returns the connection to input mode.\<close>

theorem writes_drain_in_order:
  assumes "net_inv s" and "clients s p = Some cli" and "evptr ev = p" and "p \<noteq> 0"
    and "\<not> ev_hup ev" and "\<not> ev_in ev" and "ev_out ev"
    and "ev_write ev = Wrote n" and "0 < n" and "\<forall>x \<in> set xs. length x \<le> n"
    and "contents (write_q cli) = xs" and "xs \<noteq> []"
  shows "\<exists>s' cli'. handle_events acceptor disc (replicate (length xs) ev) (s, h) = Some (Inr (s', h))
     \<and> clients s' p = Some cli' \<and> contents (write_q cli') = []
     \<and> sent s' = sent s @ map (\<lambda>x. (fd cli, x)) xs \<and> epoll s' (fd cli) = Some (p, ModIn)"
  using assms
proof (induction xs arbitrary: s cli)
  case Nil
  then show ?case by simp
next
  case (Cons x xs)
  have c: "clients s (evptr ev) = Some cli" using Cons.prems(2,3) by simp
  obtain md where ok: "client_ok cli" by (rule net_inv_client [OF Cons.prems(1) c])
  let ?cli = "cli\<lparr>write_q := dequeue (write_q cli)\<rparr>"
  let ?s = "(set_client p ?cli s)\<lparr>sent := sent s @ [(fd cli, x)]\<rparr>"
  have dq: "contents (write_q ?cli) = xs"
    using pop_block_step(3) [of "write_q cli"] Cons.prems(11) ok by (simp add: client_ok_def)
  have tk: "take n x = x" using Cons.prems(10) by simp
  note w = on_writable_wrote(1) [OF Cons.prems(1) c Cons.prems(11,8,9), of h]
    on_writable_wrote(2) [OF Cons.prems(1) c Cons.prems(11,8,9)]
  have step: "handle_event acceptor disc ev (s, h) = Some (Inr (Continue,
      if xs = [] then ?s\<lparr>epoll := (epoll s)(fd cli \<mapsto> (p, ModIn))\<rparr> else ?s, h))"
    using w(1) Cons.prems(3-7) c tk by (simp add: handle_event_def)
  have inv': "net_inv ?s" using w(2) Cons.prems(3) tk by simp
  show ?case
  proof (cases "xs = []")
    case True
    then show ?thesis using step dq by (simp add: set_client_def)
  next
    case False
    have c': "clients ?s p = Some ?cli" by (simp add: set_client_def)
    have "\<forall>y \<in> set xs. length y \<le> n" using Cons.prems(10) by simp
    from Cons.IH [OF inv' c' Cons.prems(3-9) this dq False] show ?thesis
      using step False by simp
  qed
qed

theorem writes_drain_in_order_witness:
  "\<exists>s' cli'. handle_events (\<lambda>_. id) (\<lambda>_. id)
       [demo_event 1 False [] (Wrote 100), demo_event 1 False [] (Wrote 100)]
       (demo_net [] [[1, 2, 3], [4]], ()) = Some (Inr (s', ()))
     \<and> clients s' 1 = Some cli' \<and> contents (write_q cli') = []
     \<and> sent s' = [(5, [1, 2, 3]), (5, [4])] \<and> epoll s' 5 = Some (1, ModIn)"
proof -
  let ?xs = "[[1, 2, 3], [4]] :: byte list list" and ?ev = "demo_event 1 False [] (Wrote 100)"
  have r: "replicate (length ?xs) ?ev = [?ev, ?ev]" by simp
  have "\<exists>s' cli'. handle_events (\<lambda>_. id) (\<lambda>_. id) (replicate (length ?xs) ?ev) (demo_net [] ?xs, ())
        = Some (Inr (s', ())) \<and> clients s' 1 = Some cli' \<and> contents (write_q cli') = []
     \<and> sent s' = sent (demo_net [] ?xs) @ map (\<lambda>x. (fd (demo_client 5 [] ?xs), x)) ?xs
     \<and> epoll s' (fd (demo_client 5 [] ?xs)) = Some (1, ModIn)"
    by (rule writes_drain_in_order [where n = 100]) simp_all
  then show ?thesis
    unfolding r by (simp only: demo_net_simps demo_client_simps append_Nil list.map)
qed

text \<open>A connection in output mode whose write queue is empty stays in output mode: every
  further writable event is skipped, nothing switches the connection back, and what the peer sends
  is not read.\<close>

theorem output_mode_stuck:
  assumes "net_inv s" and "clients s p = Some cli" and "p \<noteq> 0"
    and "contents (write_q cli) = []" and "epoll s (fd cli) = Some (p, ModOut)"
    and "\<forall>ev \<in> set evs. evptr ev = p \<and> \<not> ev_hup ev \<and> \<not> ev_in ev"
  shows "handle_events acceptor disc evs (s, h) = Some (Inr (s, h))"
  using assms(6)
proof (induction evs)
  case Nil
  then show ?case by simp
next
  case (Cons ev evs)
  have ev: "evptr ev = p" "\<not> ev_hup ev" "\<not> ev_in ev" using Cons.prems by simp_all
  then have c: "clients s (evptr ev) = Some cli" using assms(2) by simp
  have "handle_event acceptor disc ev (s, h) = Some (Inr (Continue, s, h))"
    using on_writable_idle [OF assms(1) c assms(4), of h] ev assms(2,3) by (simp add: handle_event_def)
  moreover have "handle_events acceptor disc evs (s, h) = Some (Inr (s, h))"
    by (rule Cons.IH) (use Cons.prems in simp)
  ultimately show ?case by simp
qed

theorem output_mode_stuck_witness:
  "handle_events (\<lambda>_. id) (\<lambda>_. id) (replicate 3 (demo_event 1 False [] (Wrote 9))) (demo_net [] [], ())
     = Some (Inr (demo_net [] [], ()))"
  by (rule output_mode_stuck [of _ 1 "demo_client 5 [] []"]) (auto simp: demo_net_simps)

end
