(* ===== verification/DcnServer.thy ===== *)
theory DcnServer
  imports NetServer DMap
begin

text \<open>
  The DCN server of \<open>code/DCN/src/dnet/server.c\<close>: the registries of clients and sessions, the
  worker that handles one received packet, and the disconnection callback, on top of the event
  loop of theory NetServer.  A pointer to a \<open>struct client\<close> is an address, so a registry
  entry that outlives its connection is visible, and following it is the fault
  \<open>UseAfterFree\<close>.
\<close>

record dcn_server =
  dcn_clients :: "(ullong, addr) cmap"
  dcn_sessions :: "(ullong, ullong) cmap"
  pending_tr_requests :: "(ullong, 16 word) cmap"

definition dcn_serv_init :: dcn_server where
  "dcn_serv_init =
     \<lparr>dcn_clients = map_init 8 8, dcn_sessions = map_init 8 8, pending_tr_requests = map_init 8 2\<rparr>"

definition dcn_serv_stop :: "dcn_server \<Rightarrow> dcn_server" where
  "dcn_serv_stop serv =
     \<lparr>dcn_clients = map_free (dcn_clients serv), dcn_sessions = map_free (dcn_sessions serv),
      pending_tr_requests = map_free (pending_tr_requests serv)\<rparr>"

definition dcn_acceptor :: "addr \<Rightarrow> dcn_server \<Rightarrow> dcn_server" where
  "dcn_acceptor p serv = serv"

text \<open>\<open>__dcn_disconnector\<close> erases the first key that maps to the client.\<close>

definition dcn_disconnector :: "addr \<Rightarrow> dcn_server \<Rightarrow> dcn_server" where
  "dcn_disconnector p serv =
     (case map_key_by_val (dcn_clients serv) p of
        (True, Some inx) \<Rightarrow>
          serv\<lparr>dcn_clients := snd (map_erase True True (dcn_clients serv)
                                    (mkeys (dcn_clients serv) ! inx))\<rparr>
      | _ \<Rightarrow> serv)"

subsection \<open>Pieces of the worker\<close>

definition deref :: "addr \<Rightarrow> net \<Rightarrow> client res" where
  "deref p s = (if p = 0 then Inl NullAccess
                else case clients s p of None \<Rightarrow> Inl UseAfterFree | Some cli \<Rightarrow> Inr cli)"

definition push_to :: "addr \<Rightarrow> qblock \<Rightarrow> net \<Rightarrow> net res" where
  "push_to p blk s =
     bind_res (deref p s) (\<lambda>cli.
     bind_res (push_block True (write_q cli) blk) (\<lambda>(_, q).
     Inr (set_client p (cli\<lparr>write_q := q\<rparr>) s)))"

definition set_out :: "addr \<Rightarrow> net \<Rightarrow> net res" where
  "set_out p s = bind_res (change_climod p ModOut s) (\<lambda>(_, s). Inr s)"

text \<open>\<open>packet_fill\<close> with an \<open>int\<close> code, serialise, push on the sender's write queue.\<close>

definition reply_code :: "addr \<Rightarrow> packet \<Rightarrow> 32 word \<Rightarrow> net \<Rightarrow> net res" where
  "reply_code p answer code s =
     bind_res (packet_fill answer (le_bytes 4 code)) (\<lambda>answer.
     bind_res (packet_serial answer) (\<lambda>blk. push_to p blk s))"

text \<open>The updates of \<open>dcn_sessions\<close> and \<open>dcn_clients\<close> for the sender of a packet.\<close>

definition register_sender :: "addr \<Rightarrow> packet \<Rightarrow> net \<Rightarrow> dcn_server \<Rightarrow> dcn_server res" where
  "register_sender p pack s serv =
     (let serv = serv\<lparr>dcn_sessions := snd (map_set True True (dcn_sessions serv)
                                             (Some (from_uid pack)) (Some (muid pack)))\<rparr>;
          registered = serv\<lparr>dcn_clients := snd (map_set True True (dcn_clients serv)
                                             (Some (from_uid pack)) (Some p))\<rparr>
      in case map_at (dcn_clients serv) (Some (from_uid pack)) None of
        (False, _) \<Rightarrow> Inr registered
      | (True, None) \<Rightarrow> Inr registered
      | (True, Some inx) \<Rightarrow>
          (let shadow = mvals (dcn_clients serv) ! inx in
           if shadow = 0 then Inr registered
           else bind_res (deref shadow s) (\<lambda>old.
                bind_res (deref p s) (\<lambda>cli.
                if ip old \<noteq> ip cli \<or> port old \<noteq> port cli then Inr registered
                else Inr serv))))"

text \<open>
  The branch for a packet addressed to its own sender.  \<open>answer\<close> is the worker's local, which
  is not initialised on this path, and no \<open>change_climod\<close> follows.
\<close>

definition reject_self :: "addr \<Rightarrow> packet \<Rightarrow> packet \<Rightarrow> net \<Rightarrow> net res" where
  "reject_self p pack answer s =
     bind_res (packet_fill answer (le_bytes 4 (102 :: 32 word))) (\<lambda>answer.
     let answer = answer\<lparr>from_os := False, from_uid := 0, to_uid := from_uid pack,
                         muid := muid pack, cmuid := 0\<rparr> in
     bind_res (packet_serial answer) (\<lambda>blk. push_to p blk s))"

definition dcn_unicast :: "addr \<Rightarrow> addr \<Rightarrow> packet \<Rightarrow> net \<Rightarrow> net res" where
  "dcn_unicast p q pack s =
     bind_res (packet_init (data (pdata pack)) (dsize (pdata pack)) (from_uid pack) (to_uid pack) 0)
       (\<lambda>ans.
     let ans = ans\<lparr>from_os := True, cmuid := cmuid pack, packtype := packtype pack\<rparr> in
     bind_res (packet_serial ans) (\<lambda>blk.
     bind_res (deref q s) (\<lambda>to_cli.
     bind_res (if fd to_cli > 0 then push_to q blk s else Inr s) (\<lambda>s. set_out p s))))"

definition broadcast_one :: "addr \<Rightarrow> addr \<Rightarrow> ullong \<Rightarrow> packet \<Rightarrow> net \<Rightarrow> net res" where
  "broadcast_one p q key pack s =
     bind_res (deref q s) (\<lambda>to_cli.
     bind_res (packet_init (data (pdata pack)) (dsize (pdata pack)) (from_uid pack) key 0) (\<lambda>ans.
     let ans = ans\<lparr>from_os := True, cmuid := cmuid pack, packtype := packtype pack,
                   trav_fuid := trav_fuid pack\<rparr> in
     bind_res (packet_serial ans) (\<lambda>blk.
     bind_res (deref p s) (\<lambda>cli.
     if fd to_cli = fd cli then Inr s
     else if fd to_cli > 0 then bind_res (set_out q s) (push_to q blk)
     else Inr s))))"

fun broadcast_loop ::
  "addr \<Rightarrow> packet \<Rightarrow> (ullong, addr) cmap \<Rightarrow> nat list \<Rightarrow> net \<Rightarrow> net res" where
  "broadcast_loop p pack reg [] s = Inr s"
| "broadcast_loop p pack reg (i # is) s =
     (case map_key_at reg 0 i of (r, key) \<Rightarrow>
        if r \<noteq> 0 then broadcast_loop p pack reg is s
        else case map_at reg (Some key) None of
          (True, Some inx) \<Rightarrow>
            (if key = from_uid pack then broadcast_loop p pack reg is s
             else bind_res (broadcast_one p (mvals reg ! inx) key pack s)
                    (broadcast_loop p pack reg is))
        | _ \<Rightarrow> broadcast_loop p pack reg is s)"

definition is_broadcast :: "packet \<Rightarrow> bool" where
  "is_broadcast pack \<longleftrightarrow>
     packtype pack = pt_code BROADCAST \<or> packtype pack = pt_code SIG_BROADCAST"

text \<open>What follows the acknowledgement: \<open>slot\<close> is \<open>to_cli_ptr\<close>.\<close>

definition deliver ::
  "addr \<Rightarrow> packet \<Rightarrow> nat option \<Rightarrow> (ullong, addr) cmap \<Rightarrow> net \<Rightarrow> net res" where
  "deliver p pack slot reg s =
     (if \<not> is_broadcast pack then
        (case slot of None \<Rightarrow> Inl NullAccess | Some inx \<Rightarrow> dcn_unicast p (mvals reg ! inx) pack s)
      else bind_res (broadcast_loop p pack reg [0..<mlen reg] s) (set_out p))"

text \<open>What is not for the server itself: a broadcast, or a packet for another client.\<close>

definition answer_other :: "addr \<Rightarrow> packet \<Rightarrow> packet \<Rightarrow> (ullong, addr) cmap \<Rightarrow> net \<Rightarrow> net res" where
  "answer_other p pack answer reg s =
     (if to_uid pack = 0 \<and> is_broadcast pack then
        bind_res (reply_code p answer 200 s) (deliver p pack None reg)
      else case map_at reg (Some (to_uid pack)) None of
        (False, _) \<Rightarrow> bind_res (reply_code p answer 101 s) (set_out p)
      | (True, slot) \<Rightarrow> bind_res (reply_code p answer 200 s) (deliver p pack slot reg))"

definition dispatch :: "addr \<Rightarrow> packet \<Rightarrow> packet \<Rightarrow> (ullong, addr) cmap \<Rightarrow> net \<Rightarrow> net res" where
  "dispatch p pack answer reg s =
     (if from_uid pack = to_uid pack then reject_self p pack answer s
      else bind_res (packet_init Null 0 0 (from_uid pack) (muid pack)) (\<lambda>answer.
        if to_uid pack = 0 \<and> packtype pack = pt_code PING then
          bind_res (reply_code p answer 200 s) (set_out p)
        else answer_other p pack answer reg s))"

lemmas dispatch_defs = dispatch_def answer_other_def

text \<open>
  \<open>dcn_async_worker\<close>: \<open>pack0\<close> and \<open>answer0\<close> are the indeterminate contents of its
  locals.  The status of \<open>packet_deserial\<close> is not looked at.
\<close>

definition dcn_async_worker ::
  "packet \<Rightarrow> packet \<Rightarrow> addr \<Rightarrow> net \<times> dcn_server \<Rightarrow> (net \<times> dcn_server) res" where
  "dcn_async_worker pack0 answer0 p st =
     (case st of (s, serv) \<Rightarrow>
        bind_res (deref p s) (\<lambda>cli.
        bind_res (pop_block (read_q cli) (Some qblock_init)) (\<lambda>(r, q, input).
        let s = set_client p (cli\<lparr>read_q := q\<rparr>) s in
        if r = 1 then Inr (s, serv)
        else bind_res (packet_deserial pack0 (the input)) (\<lambda>(_, pack).
             bind_res (register_sender p pack s serv) (\<lambda>serv.
             bind_res (dispatch p pack answer0 (dcn_clients serv) s) (\<lambda>s. Inr (s, serv)))))))"

text \<open>\<open>dcn_serv_run\<close>.\<close>

definition dcn_serv_run ::
  "ep_event list list \<Rightarrow> net \<times> dcn_server \<Rightarrow> (net \<times> dcn_server) res option" where
  "dcn_serv_run waits st = run_server dcn_acceptor dcn_disconnector waits st"

subsection \<open>What the server keeps for each connection\<close>

definition outbox :: "net \<Rightarrow> addr \<Rightarrow> byte list list" where
  "outbox s p = (case clients s p of None \<Rightarrow> [] | Some cli \<Rightarrow> contents (write_q cli))"

definition mode_of :: "net \<Rightarrow> addr \<Rightarrow> climod option" where
  "mode_of s p = (case clients s p of None \<Rightarrow> None | Some cli \<Rightarrow> map_option snd (epoll s (fd cli)))"

text \<open>A client without its write queue, which is all that handling a packet changes in others.\<close>

definition client_core :: "client \<Rightarrow> client" where
  "client_core cli = cli\<lparr>write_q := queue_init\<rparr>"

definition cores :: "net \<Rightarrow> addr \<Rightarrow> client option" where
  "cores s p = map_option client_core (clients s p)"

text \<open>
  \<open>posted s msgs outs s'\<close>: from \<open>s\<close> to \<open>s'\<close> the packets \<open>msgs\<close> went, in order, behind
  what their recipients' write queues held, the connections \<open>outs\<close> were switched to output,
  and nothing else changed.
\<close>

definition posted :: "net \<Rightarrow> (addr \<times> packet) list \<Rightarrow> addr set \<Rightarrow> net \<Rightarrow> bool" where
  "posted s msgs outs s' \<longleftrightarrow>
     net_inv s' \<and> cores s' = cores s \<and> tasks s' = tasks s \<and> sent s' = sent s
     \<and> last_uid s' = last_uid s \<and> is_running s' = is_running s
     \<and> (\<forall>r. outbox s' r = outbox s r @ map (packet_bytes \<circ> snd) (filter (\<lambda>m. fst m = r) msgs))
     \<and> (\<forall>r. mode_of s' r = (if r \<in> outs \<and> clients s r \<noteq> None then Some ModOut else mode_of s r))"

lemma cores_live: "cores s' = cores s \<Longrightarrow> clients s' p = None \<longleftrightarrow> clients s p = None"
  by (metis cores_def map_option_is_None)

lemma cores_client:
  assumes "cores s' = cores s" and "clients s p = Some c"
  obtains c' where "clients s' p = Some c'" "fd c' = fd c" "ip c' = ip c" "port c' = port c"
    "read_q c' = read_q c" "cacc c' = cacc c"
proof -
  have "map_option client_core (clients s' p) = Some (client_core c)"
    using assms by (metis cores_def option.simps(9))
  then obtain c' where c': "clients s' p = Some c'" "client_core c' = client_core c" by auto
  then have "fd c' = fd c \<and> ip c' = ip c \<and> port c' = port c \<and> read_q c' = read_q c \<and> cacc c' = cacc c"
    by (cases c; cases c') (simp add: client_core_def)
  with c'(1) show thesis using that by blast
qed

lemma posted_refl [simp]: "posted s [] {} s \<longleftrightarrow> net_inv s"
  by (simp add: posted_def)

lemma posted_trans:
  assumes 1: "posted s ms os s1" and 2: "posted s1 ms' os' s2"
  shows "posted s (ms @ ms') (os \<union> os') s2"
proof -
  have "clients s1 r = None \<longleftrightarrow> clients s r = None" for r
    using 1 cores_live [of s1 s] by (simp add: posted_def)
  then show ?thesis using 1 2 by (simp add: posted_def)
qed

lemma posted_inv: "posted s ms os s' \<Longrightarrow> net_inv s'"
  by (simp add: posted_def)

lemma posted_client:
  assumes "posted s ms os s'" and "clients s p = Some c"
  obtains c' where "clients s' p = Some c'" "fd c' = fd c" "ip c' = ip c" "port c' = port c"
    "read_q c' = read_q c" "cacc c' = cacc c"
proof -
  have "cores s' = cores s" using assms(1) by (simp add: posted_def)
  from cores_client [OF this assms(2)] that show thesis by blast
qed

subsection \<open>The steps that post\<close>

lemma deref_ok: "net_inv s \<Longrightarrow> clients s p = Some c \<Longrightarrow> deref p s = Inr c"
  using net_inv_client [of s p c] by (auto simp: deref_def)

lemma push_to_ok:
  assumes inv: "net_inv s" and c: "clients s p = Some c"
    and b: "qb_wf blk" "qb_bytes blk = packet_bytes m"
  shows "\<exists>s'. push_to p blk s = Inr s' \<and> posted s [(p, m)] {} s'"
proof -
  obtain md where ok: "client_ok c" by (rule net_inv_client [OF inv c])
  then have q: "queue_inv (write_q c)" by (simp add: client_ok_def)
  let ?c = "c\<lparr>write_q := enqueue (write_q c) blk\<rparr>"
  have ok': "client_ok ?c" and f: "fd ?c = fd c"
    using ok push_block_step(2) [OF q b(1)] by (simp_all add: client_ok_def)
  have "push_to p blk s = Inr (set_client p ?c s)"
    using deref_ok [OF inv c] push_block_step(1) [OF q b(1)] by (simp add: push_to_def)
  moreover have "posted s [(p, m)] {} (set_client p ?c s)"
    unfolding posted_def
  proof (intro conjI allI)
    show "net_inv (set_client p ?c s)" by (rule net_inv_set_client [OF inv c ok' f])
    show "cores (set_client p ?c s) = cores s"
      using c by (auto simp: cores_def set_client_def fun_eq_iff client_core_def)
    show "outbox (set_client p ?c s) r =
      outbox s r @ map (packet_bytes \<circ> snd) (filter (\<lambda>m. fst m = r) [(p, m)])" for r
      using c b push_block_step(3) [OF q b(1)] by (simp add: outbox_def set_client_def)
    show "mode_of (set_client p ?c s) r =
      (if r \<in> {} \<and> clients s r \<noteq> None then Some ModOut else mode_of s r)" for r
      using c by (simp add: mode_of_def set_client_def split: option.split)
  qed (simp_all add: set_client_def)
  ultimately show ?thesis by blast
qed

lemma set_out_ok:
  assumes inv: "net_inv s" and c: "clients s p = Some c"
  shows "\<exists>s'. set_out p s = Inr s' \<and> posted s [] {p} s'"
proof -
  let ?s = "s\<lparr>epoll := (epoll s)(fd c \<mapsto> (p, ModOut))\<rparr>"
  have "set_out p s = Inr ?s"
    using change_climod_ok(1) [OF inv c] by (simp add: set_out_def)
  moreover have "posted s [] {p} ?s"
    unfolding posted_def
  proof (intro conjI allI)
    show "net_inv ?s" by (rule change_climod_ok(2) [OF inv c])
    show "mode_of ?s r = (if r \<in> {p} \<and> clients s r \<noteq> None then Some ModOut else mode_of s r)" for r
    proof (cases "clients s r")
      case None
      then show ?thesis by (simp add: mode_of_def)
    next
      case (Some d)
      have "fd d = fd c \<longleftrightarrow> r = p" using net_inv_fd [OF inv c Some] Some c by auto
      with Some show ?thesis by (simp add: mode_of_def)
    qed
  qed (simp_all add: cores_def outbox_def fun_eq_iff)
  ultimately show ?thesis by blast
qed

text \<open>The packets that the server makes.\<close>

definition answer_packet :: "32 word \<Rightarrow> ullong \<Rightarrow> ullong \<Rightarrow> packet" where
  "answer_packet code uid m =
     \<lparr>packtype = pt_code REQUEST, from_os = False, from_uid = 0, to_uid = uid, trav_fuid = 0,
      trav_tuid = 0, muid = m, cmuid = 0, pdata = mk_block (le_bytes 4 code)\<rparr>"

definition relay_packet :: "packet \<Rightarrow> ullong \<Rightarrow> ullong \<Rightarrow> packet" where
  "relay_packet pack uid trav =
     \<lparr>packtype = packtype pack, from_os = True, from_uid = from_uid pack, to_uid = uid,
      trav_fuid = trav, trav_tuid = 0, muid = 0, cmuid = cmuid pack,
      pdata = mk_block (qb_bytes (pdata pack))\<rparr>"

lemma length_le_bytes_4: "length (le_bytes 4 w) = 4"
  by simp

lemma answer_packet_wf [simp, wf_intro]: "packet_wf (answer_packet c u m)"
  by (simp add: packet_wf_def answer_packet_def)

lemma relay_packet_wf [simp, wf_intro]: "packet_wf pack \<Longrightarrow> packet_wf (relay_packet pack u t)"
  by (auto simp: packet_wf_def relay_packet_def qb_wf_dsize [symmetric])

text \<open>A payload in any block: the bytes on the wire only depend on the fields and the bytes.\<close>

lemma packet_bytes_pdata:
  "qb_wf b \<Longrightarrow> qb_wf c \<Longrightarrow> qb_bytes b = qb_bytes c \<Longrightarrow>
   packet_bytes (p\<lparr>pdata := b\<rparr>) = packet_bytes (p\<lparr>pdata := c\<rparr>)"
  by (simp add: packet_bytes_def packet_header_def qb_wf_dsize)

lemma packet_wf_pdata:
  "qb_wf b \<Longrightarrow> qb_wf c \<Longrightarrow> qb_bytes b = qb_bytes c \<Longrightarrow>
   packet_wf (p\<lparr>pdata := b\<rparr>) \<Longrightarrow> packet_wf (p\<lparr>pdata := c\<rparr>)"
  by (simp add: packet_wf_def qb_wf_dsize)

lemma packet_init_Null:
  "packet_init Null 0 fr to m = Inr \<lparr>packtype = pt_code REQUEST, from_os = False, from_uid = fr,
     to_uid = to, trav_fuid = 0, trav_tuid = 0, muid = m, cmuid = 0, pdata = qblock_init\<rparr>"
  by (simp add: packet_init_def)

lemma packet_init_payload:
  assumes "qb_wf b"
  obtains c where "packet_init (data b) (dsize b) fr to m =
      Inr \<lparr>packtype = pt_code REQUEST, from_os = False, from_uid = fr, to_uid = to, trav_fuid = 0,
          trav_tuid = 0, muid = m, cmuid = 0, pdata = c\<rparr>" "qb_wf c" "qb_bytes c = qb_bytes b"
proof (cases "data b = Null")
  case True
  then have "qb_bytes b = []" by (simp add: qb_bytes_def)
  then show thesis using True by (intro that [of qblock_init]) (simp_all add: packet_init_def)
next
  case False
  obtain c where "qblock_fill qblock_init (qb_bytes b) = Inr c" "qb_wf c" "qb_bytes c = qb_bytes b"
    using qblock_fill_wf [OF qb_wf_init, of "qb_bytes b"] by auto
  then show thesis
    using False qb_wf_read [OF assms] by (intro that [of c]) (simp_all add: packet_init_def)
qed

text \<open>A packet equal to \<open>m\<close> up to the block that holds its payload is serialised to the bytes of \<open>m\<close>.\<close>

lemma packet_serial_as:
  assumes "packet_wf m" and "p = m\<lparr>pdata := b\<rparr>" and "qb_wf b" and "qb_bytes b = qb_bytes (pdata m)"
  shows "\<exists>blk. packet_serial p = Inr blk \<and> qb_wf blk \<and> qb_bytes blk = packet_bytes m"
proof -
  have wf: "qb_wf (pdata m)" using assms(1) by (simp add: packet_wf_def)
  have "packet_wf p"
    using assms wf by (simp add: packet_wf_def qb_wf_dsize)
  moreover have "packet_bytes p = packet_bytes m"
    using packet_bytes_pdata [OF assms(3) wf assms(4), of m] assms(2) by simp
  ultimately show ?thesis
    using packet_serial_ok [of p] by (simp add: qb_wf_def)
qed

lemma reply_code_ok:
  assumes inv: "net_inv s" and c: "clients s p = Some c"
    and a: "packet_init Null 0 0 uid m = Inr answer"
  shows "\<exists>s'. reply_code p answer code s = Inr s' \<and> posted s [(p, answer_packet code uid m)] {} s'"
proof -
  obtain b where b: "qblock_fill (pdata answer) (le_bytes 4 code) = Inr b" "qb_wf b"
    "qb_bytes b = le_bytes 4 code"
    using qblock_fill_wf [of "pdata answer" "le_bytes 4 code"] a by (auto simp: packet_init_Null)
  obtain blk where "packet_serial (answer\<lparr>pdata := b\<rparr>) = Inr blk" "qb_wf blk"
    "qb_bytes blk = packet_bytes (answer_packet code uid m)"
    using packet_serial_as [of "answer_packet code uid m" "answer\<lparr>pdata := b\<rparr>" b] a b
    by (auto simp: packet_init_Null answer_packet_def packet_wf_def)
  then show ?thesis
    using push_to_ok [OF inv c] b(1) by (simp add: reply_code_def packet_fill_def)
qed

lemma dcn_unicast_ok:
  assumes inv: "net_inv s" and c: "clients s p = Some c" and d: "clients s q = Some d"
    and wf: "packet_wf pack"
  shows "\<exists>s'. dcn_unicast p q pack s = Inr s'
     \<and> posted s [(q, relay_packet pack (to_uid pack) 0)] {p} s'"
proof -
  let ?m = "relay_packet pack (to_uid pack) 0"
  obtain b where i: "packet_init (data (pdata pack)) (dsize (pdata pack)) (from_uid pack) (to_uid pack) 0 =
      Inr \<lparr>packtype = pt_code REQUEST, from_os = False, from_uid = from_uid pack,
          to_uid = to_uid pack, trav_fuid = 0, trav_tuid = 0, muid = 0, cmuid = 0, pdata = b\<rparr>"
    and b: "qb_wf b" "qb_bytes b = qb_bytes (pdata pack)"
    by (rule packet_init_payload [of "pdata pack" "from_uid pack" "to_uid pack" 0])
      (use wf in \<open>simp_all add: packet_wf_def\<close>)
  obtain blk where blk: "packet_serial (?m\<lparr>pdata := b\<rparr>) = Inr blk" "qb_wf blk"
    "qb_bytes blk = packet_bytes ?m"
    using packet_serial_as [OF relay_packet_wf [OF wf] refl b(1)] b(2)
    by (auto simp: relay_packet_def)
  obtain s1 where s1: "push_to q blk s = Inr s1" "posted s [(q, ?m)] {} s1"
    using push_to_ok [OF inv d blk(2,3)] by blast
  obtain c1 where "clients s1 p = Some c1" by (rule posted_client [OF s1(2) c])
  then obtain s2 where s2: "set_out p s1 = Inr s2" "posted s1 [] {p} s2"
    using set_out_ok [OF posted_inv [OF s1(2)]] by blast
  have "0 < fd d" using net_inv_client [OF inv d] by (auto simp: client_ok_def)
  then have "dcn_unicast p q pack s = Inr s2"
    using i blk(1) s1(1) s2(1) deref_ok [OF inv d]
    by (simp add: dcn_unicast_def relay_packet_def)
  then show ?thesis using posted_trans [OF s1(2) s2(2)] by auto
qed

lemma broadcast_one_ok:
  assumes inv: "net_inv s" and c: "clients s p = Some c" and d: "clients s q = Some d"
    and wf: "packet_wf pack"
  shows "\<exists>s'. broadcast_one p q key pack s = Inr s'
     \<and> posted s (if q = p then [] else [(q, relay_packet pack key (trav_fuid pack))])
          (if q = p then {} else {q}) s'"
proof -
  let ?m = "relay_packet pack key (trav_fuid pack)"
  obtain b where i: "packet_init (data (pdata pack)) (dsize (pdata pack)) (from_uid pack) key 0 =
      Inr \<lparr>packtype = pt_code REQUEST, from_os = False, from_uid = from_uid pack,
          to_uid = key, trav_fuid = 0, trav_tuid = 0, muid = 0, cmuid = 0, pdata = b\<rparr>"
    and b: "qb_wf b" "qb_bytes b = qb_bytes (pdata pack)"
    by (rule packet_init_payload [of "pdata pack" "from_uid pack" key 0])
      (use wf in \<open>simp_all add: packet_wf_def\<close>)
  obtain blk where blk: "packet_serial (?m\<lparr>pdata := b\<rparr>) = Inr blk" "qb_wf blk"
    "qb_bytes blk = packet_bytes ?m"
    using packet_serial_as [OF relay_packet_wf [OF wf] refl b(1)] b(2)
    by (auto simp: relay_packet_def)
  have fdq: "fd d = fd c \<longleftrightarrow> q = p" using net_inv_fd [OF inv d c] c d by auto
  have pos: "0 < fd d" using net_inv_client [OF inv d] by (auto simp: client_ok_def)
  obtain s1 where s1: "set_out q s = Inr s1" "posted s [] {q} s1"
    using set_out_ok [OF inv d] by blast
  obtain d1 where d1: "clients s1 q = Some d1" by (rule posted_client [OF s1(2) d])
  obtain s2 where s2: "push_to q blk s1 = Inr s2" "posted s1 [(q, ?m)] {} s2"
    using push_to_ok [OF posted_inv [OF s1(2)] d1 blk(2,3)] by blast
  have "broadcast_one p q key pack s = (if q = p then Inr s else Inr s2)"
    using i blk(1) s1(1) s2(1) deref_ok [OF inv d] deref_ok [OF inv c] pos fdq
    by (simp add: broadcast_one_def relay_packet_def)
  then show ?thesis
    using posted_trans [OF s1(2) s2(2)] inv by auto
qed

subsection \<open>Registries\<close>

text \<open>Every registered pointer is a live connection.\<close>

definition reg_live :: "net \<Rightarrow> (ullong, addr) cmap \<Rightarrow> bool" where
  "reg_live s reg \<longleftrightarrow> map_ok reg \<and> (\<forall>k q. map_get reg k = Some q \<longrightarrow> clients s q \<noteq> None)"

text \<open>The packets of a broadcast: one for each registered UID but the sender's own connection.\<close>

definition relays :: "addr \<Rightarrow> packet \<Rightarrow> (ullong \<times> addr) list \<Rightarrow> (addr \<times> packet) list" where
  "relays p pack entries =
     map (\<lambda>(k, q). (q, relay_packet pack k (trav_fuid pack)))
       (filter (\<lambda>(k, q). k \<noteq> from_uid pack \<and> q \<noteq> p) entries)"

definition entries :: "(ullong, addr) cmap \<Rightarrow> (ullong \<times> addr) list" where
  "entries reg = zip (mkeys reg) (mvals reg)"

lemma length_entries [simp]: "map_ok reg \<Longrightarrow> length (entries reg) = mlen reg"
  by (simp add: entries_def map_ok_def)

lemma map_at_nth:
  "map_ok reg \<Longrightarrow> i < mlen reg \<Longrightarrow> map_at reg (Some (mkeys reg ! i)) out = (True, Some i)"
  using find_from_distinct [of "mkeys reg" "mkeys reg ! i" i]
  by (simp add: map_at_def map_ok_def)

lemma map_get_nth:
  "map_ok reg \<Longrightarrow> i < mlen reg \<Longrightarrow> map_get reg (mkeys reg ! i) = Some (mvals reg ! i)"
  by (simp add: map_get_def map_at_nth)

lemma broadcast_loop_ok:
  assumes reg: "map_ok reg" "\<forall>q. q \<in> set (mvals reg) \<longrightarrow> clients s q \<noteq> None" and inv: "net_inv s"
    and c: "clients s p = Some c" and wf: "packet_wf pack" and "set is \<subseteq> {..<mlen reg}"
  shows "\<exists>s'. broadcast_loop p pack reg is s = Inr s'
     \<and> posted s (relays p pack (map ((!) (entries reg)) is))
          (fst ` set (relays p pack (map ((!) (entries reg)) is))) s'"
  using assms
proof (induction "is" arbitrary: s c)
  case Nil
  then show ?case by (simp add: relays_def)
next
  case (Cons i "is")
  let ?key = "mkeys reg ! i" and ?q = "mvals reg ! i"
  let ?ms = "relays p pack (map ((!) (entries reg)) is)"
  have i: "i < mlen reg" "i < length (mkeys reg)" "i < length (mvals reg)"
    using Cons.prems(1,6) by (auto simp: map_ok_def)
  have key: "map_key_at reg 0 i = (0, ?key)" using i by (simp add: map_key_at_def)
  have at: "map_at reg (Some ?key) None = (True, Some i)"
    by (rule map_at_nth [OF Cons.prems(1) i(1)])
  have e: "entries reg ! i = (?key, ?q)" using i by (simp add: entries_def)
  show ?case
  proof (cases "?key = from_uid pack")
    case True
    then have "broadcast_loop p pack reg (i # is) s = broadcast_loop p pack reg is s"
      using key at by simp
    moreover have "relays p pack (map ((!) (entries reg)) (i # is)) = ?ms"
      using True e by (simp add: relays_def)
    ultimately show ?thesis using Cons.IH [OF Cons.prems(1-5)] Cons.prems(6) by simp
  next
    case False
    have "?q \<in> set (mvals reg)" using i(3) by simp
    then obtain d where d: "clients s ?q = Some d" using Cons.prems(2) by blast
    obtain s1 where s1: "broadcast_one p ?q ?key pack s = Inr s1"
      "posted s (if ?q = p then [] else [(?q, relay_packet pack ?key (trav_fuid pack))])
         (if ?q = p then {} else {?q}) s1"
      using broadcast_one_ok [OF Cons.prems(3,4) d Cons.prems(5)] by blast
    obtain c1 where c1: "clients s1 p = Some c1" by (rule posted_client [OF s1(2) Cons.prems(4)])
    have "cores s1 = cores s" using s1(2) by (simp add: posted_def)
    then have "\<forall>q. q \<in> set (mvals reg) \<longrightarrow> clients s1 q \<noteq> None"
      using Cons.prems(2) cores_live by blast
    then obtain s2 where s2: "broadcast_loop p pack reg is s1 = Inr s2"
      "posted s1 ?ms (fst ` set ?ms) s2"
      using Cons.IH [OF Cons.prems(1) _ posted_inv [OF s1(2)] c1 Cons.prems(5)] Cons.prems(6) by auto
    have "broadcast_loop p pack reg (i # is) s = Inr s2"
      using key at False s1(1) s2(1) by simp
    moreover have "relays p pack (map ((!) (entries reg)) (i # is)) =
        (if ?q = p then [] else [(?q, relay_packet pack ?key (trav_fuid pack))]) @ ?ms"
      using False e by (simp add: relays_def)
    ultimately show ?thesis using posted_trans [OF s1(2) s2(2)] by (auto split: if_splits)
  qed
qed

lemma reg_live_vals:
  assumes "reg_live s reg"
  shows "\<forall>q. q \<in> set (mvals reg) \<longrightarrow> clients s q \<noteq> None"
proof (intro allI impI)
  fix q
  assume "q \<in> set (mvals reg)"
  then obtain i where "i < length (mvals reg)" "mvals reg ! i = q" by (auto simp: in_set_conv_nth)
  then have "map_get reg (mkeys reg ! i) = Some q"
    using map_get_nth [of reg i] assms by (auto simp: reg_live_def map_ok_def)
  then show "clients s q \<noteq> None" using assms by (auto simp: reg_live_def)
qed

text \<open>Whether the registry is rewritten: the UID is new, or registered from another peer address.\<close>

definition takes_over :: "net \<Rightarrow> (ullong, addr) cmap \<Rightarrow> ullong \<Rightarrow> addr \<Rightarrow> bool" where
  "takes_over s reg uid p =
     (case map_get reg uid of
        None \<Rightarrow> True
      | Some q \<Rightarrow> map_option (\<lambda>c. (ip c, port c)) (clients s q)
                 \<noteq> map_option (\<lambda>c. (ip c, port c)) (clients s p))"

definition registered :: "net \<Rightarrow> addr \<Rightarrow> packet \<Rightarrow> dcn_server \<Rightarrow> dcn_server" where
  "registered s p pack serv =
     (let serv = serv\<lparr>dcn_sessions := map_put (from_uid pack) (muid pack) (dcn_sessions serv)\<rparr>
      in if takes_over s (dcn_clients serv) (from_uid pack) p
         then serv\<lparr>dcn_clients := map_put (from_uid pack) p (dcn_clients serv)\<rparr> else serv)"

lemma register_sender_ok:
  assumes inv: "net_inv s" and c: "clients s p = Some c" and reg: "reg_live s (dcn_clients serv)"
  shows "register_sender p pack s serv = Inr (registered s p pack serv)"
proof (cases "map_get (dcn_clients serv) (from_uid pack)")
  case None
  then show ?thesis
    using map_at_missing [of "dcn_clients serv" "from_uid pack" None] reg
    by (simp add: register_sender_def registered_def takes_over_def map_put_def Let_def reg_live_def)
next
  case (Some q)
  then obtain d where d: "clients s q = Some d" using reg by (auto simp: reg_live_def)
  then have "q \<noteq> 0" using net_inv_client [OF inv d] by auto
  obtain i where "map_at (dcn_clients serv) (Some (from_uid pack)) None = (True, Some i)"
    "mvals (dcn_clients serv) ! i = q"
    using map_at_found [of "dcn_clients serv" "from_uid pack" q None] Some reg
    by (auto simp: reg_live_def)
  then show ?thesis
    using \<open>q \<noteq> 0\<close> d c deref_ok [OF inv d] deref_ok [OF inv c] Some
    by (simp add: register_sender_def registered_def takes_over_def map_put_def Let_def)
qed

lemma reg_live_registered:
  assumes "clients s p = Some c" and "reg_live s (dcn_clients serv)"
  shows "reg_live s (dcn_clients (registered s p pack serv))"
  using assms by (auto simp: reg_live_def registered_def Let_def map_get_put)

lemma reg_live_cores: "cores s' = cores s \<Longrightarrow> reg_live s' reg = reg_live s reg"
  using cores_live [of s' s] unfolding reg_live_def by metis

subsection \<open>The worker against its specification\<close>

text \<open>
  What a worker that handles \<open>pack\<close> from connection \<open>p\<close> has to post, and whom it
  switches to output, given the registry of the moment.
\<close>

definition worker_spec ::
  "addr \<Rightarrow> packet \<Rightarrow> (ullong, addr) cmap \<Rightarrow> (addr \<times> packet) list \<times> addr set" where
  "worker_spec p pack reg =
     (let ack = \<lambda>code. (p, answer_packet code (from_uid pack) (muid pack));
          rs = relays p pack (entries reg)
      in if to_uid pack = 0 \<and> packtype pack = pt_code PING then ([ack 200], {p})
         else if to_uid pack = 0 \<and> is_broadcast pack then (ack 200 # rs, insert p (fst ` set rs))
         else case map_get reg (to_uid pack) of
           None \<Rightarrow> ([ack 101], {p})
         | Some q \<Rightarrow>
             (if is_broadcast pack then (ack 200 # rs, insert p (fst ` set rs))
              else ([ack 200, (q, relay_packet pack (to_uid pack) 0)], {p})))"

lemma entries_nth: "map_ok reg \<Longrightarrow> map ((!) (entries reg)) [0..<mlen reg] = entries reg"
  by (metis length_entries map_nth)

lemma deliver_broadcast:
  assumes reg: "reg_live s reg" and inv: "net_inv s" and c: "clients s p = Some c"
    and wf: "packet_wf pack" and bc: "is_broadcast pack"
  shows "\<exists>s'. deliver p pack slot reg s = Inr s' \<and>
    posted s (relays p pack (entries reg)) (insert p (fst ` set (relays p pack (entries reg)))) s'"
proof -
  have ok: "map_ok reg" using reg by (simp add: reg_live_def)
  let ?ms = "relays p pack (entries reg)"
  obtain s1 where s1: "broadcast_loop p pack reg [0..<mlen reg] s = Inr s1"
    "posted s ?ms (fst ` set ?ms) s1"
    using broadcast_loop_ok [OF ok reg_live_vals [OF reg] inv c wf, of "[0..<mlen reg]"]
    using entries_nth [OF ok] lessThan_atLeast0 [of "mlen reg"] by auto
  obtain c1 where "clients s1 p = Some c1" by (rule posted_client [OF s1(2) c])
  then obtain s2 where s2: "set_out p s1 = Inr s2" "posted s1 [] {p} s2"
    using set_out_ok [OF posted_inv [OF s1(2)]] by blast
  show ?thesis
    using s1(1) s2(1) bc posted_trans [OF s1(2) s2(2)] by (simp add: deliver_def)
qed

lemma deliver_unicast:
  assumes reg: "map_get reg (to_uid pack) = Some q" "map_at reg (Some (to_uid pack)) None = (True, slot)"
    and inv: "net_inv s" and c: "clients s p = Some c" and d: "clients s q = Some d"
    and wf: "packet_wf pack" and bc: "\<not> is_broadcast pack"
  shows "\<exists>s'. deliver p pack slot reg s = Inr s'
     \<and> posted s [(q, relay_packet pack (to_uid pack) 0)] {p} s'"
proof -
  obtain inx where "slot = Some inx" "mvals reg ! inx = q"
    using reg by (cases slot) (auto simp: map_get_def)
  then show ?thesis
    using dcn_unicast_ok [OF inv c d wf] bc by (simp add: deliver_def)
qed

lemma reply_then:
  assumes inv: "net_inv s" and c: "clients s p = Some c"
    and a: "packet_init Null 0 0 uid m = Inr answer"
    and k: "\<And>s1 c1. net_inv s1 \<Longrightarrow> cores s1 = cores s \<Longrightarrow> clients s1 p = Some c1 \<Longrightarrow>
       \<exists>s'. f s1 = Inr s' \<and> posted s1 ms os s'"
  shows "\<exists>s'. bind_res (reply_code p answer code s) f = Inr s'
     \<and> posted s ((p, answer_packet code uid m) # ms) os s'"
proof -
  obtain s1 where s1: "reply_code p answer code s = Inr s1"
    "posted s [(p, answer_packet code uid m)] {} s1"
    using reply_code_ok [OF inv c a] by blast
  obtain c1 where c1: "clients s1 p = Some c1" by (rule posted_client [OF s1(2) c])
  have "cores s1 = cores s" using s1(2) by (simp add: posted_def)
  then obtain s2 where s2: "f s1 = Inr s2" "posted s1 ms os s2"
    using k [OF posted_inv [OF s1(2)] _ c1] by blast
  show ?thesis using s1(1) s2(1) posted_trans [OF s1(2) s2(2)] by simp
qed

lemma dispatch_ok:
  assumes reg: "reg_live s reg" and inv: "net_inv s" and c: "clients s p = Some c"
    and wf: "packet_wf pack" and ne: "from_uid pack \<noteq> to_uid pack"
  shows "\<exists>s'. dispatch p pack answer0 reg s = Inr s'
     \<and> posted s (fst (worker_spec p pack reg)) (snd (worker_spec p pack reg)) s'"
proof -
  obtain ans where ans: "packet_init Null 0 0 (from_uid pack) (muid pack) = Inr ans"
    by (simp add: packet_init_Null)
  note then_reply = reply_then [OF inv c ans]
  have out: "\<exists>s'. set_out p s1 = Inr s' \<and> posted s1 [] {p} s'"
    if "net_inv s1" "clients s1 p = Some c1" for s1 c1
    using set_out_ok that by blast
  have bcast: "\<exists>s'. deliver p pack slot reg s1 = Inr s' \<and> posted s1 (relays p pack (entries reg))
      (insert p (fst ` set (relays p pack (entries reg)))) s'"
    if "net_inv s1" "cores s1 = cores s" "clients s1 p = Some c1" "is_broadcast pack" for s1 c1 slot
    using deliver_broadcast [OF _ that(1,3) wf that(4)] reg reg_live_cores [OF that(2)] by blast
  consider (ping) "to_uid pack = 0" "packtype pack = pt_code PING"
    | (bc0) "to_uid pack = 0" "is_broadcast pack" "packtype pack \<noteq> pt_code PING"
    | (miss) "\<not> (to_uid pack = 0 \<and> (packtype pack = pt_code PING \<or> is_broadcast pack))"
        "map_get reg (to_uid pack) = None"
    | (hit) q where "\<not> (to_uid pack = 0 \<and> (packtype pack = pt_code PING \<or> is_broadcast pack))"
        "map_get reg (to_uid pack) = Some q"
    by (cases "map_get reg (to_uid pack)") blast+
  then show ?thesis
  proof cases
    case ping
    then show ?thesis
      using then_reply [of "set_out p" "[]" "{p}" 200] out ne ans
      by (simp add: dispatch_defs worker_spec_def Let_def)
  next
    case bc0
    then show ?thesis
      using then_reply [of "deliver p pack None reg" _ _ 200] bcast ne ans
      by (simp add: dispatch_defs worker_spec_def Let_def)
  next
    case miss
    have "map_at reg (Some (to_uid pack)) None = (False, None)"
      using map_at_missing miss(2) reg by (auto simp: reg_live_def)
    then show ?thesis
      using miss then_reply [of "set_out p" "[]" "{p}" 101] out ne ans
      by (auto simp: dispatch_defs worker_spec_def Let_def)
  next
    case (hit q)
    then obtain i where i: "map_at reg (Some (to_uid pack)) None = (True, Some i)"
      using map_at_found reg by (fastforce simp: reg_live_def)
    obtain d where d: "clients s q = Some d" using reg hit(2) by (auto simp: reg_live_def)
    have uni: "\<exists>s'. deliver p pack (Some i) reg s1 = Inr s'
        \<and> posted s1 [(q, relay_packet pack (to_uid pack) 0)] {p} s'"
      if s1: "net_inv s1" "cores s1 = cores s" "clients s1 p = Some c1" "\<not> is_broadcast pack" for s1 c1
    proof -
      obtain d1 where "clients s1 q = Some d1" by (rule cores_client [OF s1(2) d])
      then show ?thesis by (rule deliver_unicast [OF hit(2) i s1(1,3) _ wf s1(4)])
    qed
    show ?thesis
    proof (cases "is_broadcast pack")
      case True
      then show ?thesis
        using hit i then_reply [of "deliver p pack (Some i) reg" _ _ 200] bcast ne ans
        by (auto simp: dispatch_defs worker_spec_def Let_def)
    next
      case False
      then show ?thesis
        using hit i then_reply [of "deliver p pack (Some i) reg" _ _ 200] uni ne ans
        by (auto simp: dispatch_defs worker_spec_def Let_def)
    qed
  qed
qed

subsection \<open>A whole run of the worker\<close>

text \<open>The connection after its worker took the first packet off the read queue.\<close>

definition popped :: "net \<Rightarrow> addr \<Rightarrow> net" where
  "popped s p =
     (case clients s p of
        None \<Rightarrow> s
      | Some cli \<Rightarrow> set_client p (cli\<lparr>read_q := dequeue (read_q cli)\<rparr>) s)"

lemma popped_ok:
  assumes inv: "net_inv s" and c: "clients s p = Some c" and ne: "inbox s p \<noteq> []"
  shows "net_inv (popped s p)" and "clients (popped s p) p = Some (c\<lparr>read_q := dequeue (read_q c)\<rparr>)"
    and "inbox (popped s p) p = tl (inbox s p)"
    and "takes_over (popped s p) reg uid p = takes_over s reg uid p"
    and "reg_live (popped s p) reg = reg_live s reg"
proof -
  obtain md where ok: "client_ok c" by (rule net_inv_client [OF inv c])
  then have q: "queue_inv (read_q c)" by (simp add: client_ok_def)
  have ne': "contents (read_q c) \<noteq> []" using ne inbox_client [OF c] by simp
  let ?c = "c\<lparr>read_q := dequeue (read_q c)\<rparr>"
  have "client_ok ?c" "fd ?c = fd c"
    using ok pop_block_step(2) [OF q ne'] by (simp_all add: client_ok_def)
  then show "net_inv (popped s p)"
    using net_inv_set_client [OF inv c] c by (simp add: popped_def)
  show cp: "clients (popped s p) p = Some ?c" using c by (simp add: popped_def set_client_def)
  then show "inbox (popped s p) p = tl (inbox s p)"
    using pop_block_step(3) [OF q ne'] inbox_client [OF c] by (simp add: inbox_def)
  have "clients (popped s p) r = None \<longleftrightarrow> clients s r = None"
    and "map_option (\<lambda>c. (ip c, port c)) (clients (popped s p) r)
       = map_option (\<lambda>c. (ip c, port c)) (clients s r)" for r
    using c by (simp_all add: popped_def set_client_def)
  then show "takes_over (popped s p) reg uid p = takes_over s reg uid p"
    and "reg_live (popped s p) reg = reg_live s reg"
    by (simp_all add: takes_over_def reg_live_def split: option.split)
qed

text \<open>The worker up to the point where it has the packet: what it does with any first frame.\<close>

lemma worker_pops:
  assumes inv: "net_inv s" and c: "clients s p = Some c" and f: "inbox s p = f # fs"
  shows "dcn_async_worker pack0 answer0 p (s, serv) =
    bind_res (packet_deserial pack0 (mk_block f)) (\<lambda>(_, pack).
    bind_res (register_sender p pack (popped s p) serv) (\<lambda>serv.
    bind_res (dispatch p pack answer0 (dcn_clients serv) (popped s p)) (\<lambda>s. Inr (s, serv))))"
proof -
  obtain md where "client_ok c" by (rule net_inv_client [OF inv c])
  then have q: "queue_inv (read_q c)" by (simp add: client_ok_def)
  have ct: "contents (read_q c) = f # fs" using f inbox_client [OF c] by simp
  then have "pop_block (read_q c) (Some qblock_init) =
      Inr (if fs = [] then 2 else 0, dequeue (read_q c), Some (mk_block f))"
    using pop_block_step(1) [OF q, of "Some qblock_init"] by simp
  then show ?thesis
    using deref_ok [OF inv c] c by (simp add: dcn_async_worker_def popped_def Let_def)
qed

lemma packet_norm_fields [simp]:
  "packtype (packet_norm m) = packtype m" "from_os (packet_norm m) = from_os m"
  "from_uid (packet_norm m) = from_uid m" "to_uid (packet_norm m) = to_uid m"
  "trav_fuid (packet_norm m) = trav_fuid m" "trav_tuid (packet_norm m) = trav_tuid m"
  "muid (packet_norm m) = muid m" "cmuid (packet_norm m) = cmuid m"
  "pdata (packet_norm m) = \<lparr>data = Buf (qb_bytes (pdata m)), dsize = dsize (pdata m)\<rparr>"
  by (simp_all add: packet_norm_def)

lemma packet_norm_wf [simp, wf_intro]: "packet_wf m \<Longrightarrow> packet_wf (packet_norm m)"
  by (auto simp: packet_wf_def qb_wf_def qb_wf_dsize)

lemma packet_norm_spec:
  assumes "packet_wf m"
  shows "worker_spec p (packet_norm m) reg = worker_spec p m reg"
    and "registered s p (packet_norm m) serv = registered s p m serv"
proof -
  have "take (dsize (pdata m)) (qb_bytes (pdata m)) = qb_bytes (pdata m)"
    using assms by (simp add: packet_wf_def qb_wf_dsize)
  then have "relay_packet (packet_norm m) = relay_packet m"
    by (simp add: relay_packet_def fun_eq_iff)
  then show "worker_spec p (packet_norm m) reg = worker_spec p m reg"
    by (simp add: worker_spec_def relays_def is_broadcast_def Let_def cong: if_cong option.case_cong)
  show "registered s p (packet_norm m) serv = registered s p m serv"
    by (simp add: registered_def Let_def)
qed

lemma worker_packet:
  assumes inv: "net_inv s" and reg: "reg_live s (dcn_clients serv)" and c: "clients s p \<noteq> None"
    and f: "inbox s p = f # fs" and d: "packet_deserial pack0 (mk_block f) = Inr (b, m)"
    and wf: "packet_wf m" and ne: "from_uid m \<noteq> to_uid m"
  shows "\<exists>s'. dcn_async_worker pack0 answer0 p (s, serv) = Inr (s', registered s p m serv)
     \<and> posted (popped s p) (fst (worker_spec p m (dcn_clients (registered s p m serv))))
         (snd (worker_spec p m (dcn_clients (registered s p m serv)))) s'"
proof -
  obtain c where c: "clients s p = Some c" using assms(3) by auto
  have ib: "inbox s p \<noteq> []" using f by simp
  note pop = popped_ok [OF inv c ib]
  let ?serv = "registered s p m serv"
  have rs: "registered (popped s p) p m serv = ?serv"
    using pop(4) by (simp add: registered_def Let_def)
  have live: "reg_live (popped s p) (dcn_clients serv)" using reg pop(5) by simp
  have r: "register_sender p m (popped s p) serv = Inr ?serv"
    using register_sender_ok [OF pop(1,2) live, of m] rs by simp
  have live': "reg_live (popped s p) (dcn_clients ?serv)"
    using reg_live_registered [OF pop(2) live, of m] rs by simp
  obtain s' where "dispatch p m answer0 (dcn_clients ?serv) (popped s p) = Inr s'"
    "posted (popped s p) (fst (worker_spec p m (dcn_clients ?serv)))
       (snd (worker_spec p m (dcn_clients ?serv))) s'"
    using dispatch_ok [OF live' pop(1,2) wf ne] by auto
  then show ?thesis
    using worker_pops [OF inv c f] d r by simp
qed

lemma worker_ok:
  assumes inv: "net_inv s" and reg: "reg_live s (dcn_clients serv)" and c: "clients s p \<noteq> None"
    and f: "inbox s p = packet_bytes m # fs" and wf: "packet_wf m" and ne: "from_uid m \<noteq> to_uid m"
  shows "\<exists>s'. dcn_async_worker pack0 answer0 p (s, serv) = Inr (s', registered s p m serv)
     \<and> posted (popped s p) (fst (worker_spec p m (dcn_clients (registered s p m serv))))
         (snd (worker_spec p m (dcn_clients (registered s p m serv)))) s'"
proof -
  have d: "packet_deserial pack0 (mk_block (packet_bytes m)) = Inr (True, packet_norm m)"
    by (rule packet_deserial_bytes) (use wf in simp_all)
  show ?thesis
    using worker_packet [OF inv reg c f d packet_norm_wf [OF wf], of answer0] ne
    by (simp add: packet_norm_spec [OF wf])
qed

text \<open>What the worker leaves in the outboxes and modes, over the state it started from.\<close>

lemma popped_outbox: "outbox (popped s p) = outbox s" "mode_of (popped s p) = mode_of s"
  by (auto simp: outbox_def mode_of_def popped_def set_client_def fun_eq_iff split: option.split)

lemma popped_live: "clients (popped s p) r = None \<longleftrightarrow> clients s r = None"
  by (auto simp: popped_def set_client_def split: option.split)

lemma posted_popped:
  assumes "posted (popped s p) msgs outs s'"
  shows "outbox s' r = outbox s r @ map (packet_bytes \<circ> snd) (filter (\<lambda>m. fst m = r) msgs)"
    and "mode_of s' r = (if r \<in> outs \<and> clients s r \<noteq> None then Some ModOut else mode_of s r)"
  using assms by (simp_all add: posted_def popped_outbox popped_live cong: if_cong)

lemma worker_idle:
  assumes inv: "net_inv s" and c: "clients s p = Some c" and "inbox s p = []"
  shows "dcn_async_worker pack0 answer0 p (s, serv) = Inr (s, serv)"
proof -
  obtain md where "client_ok c" by (rule net_inv_client [OF inv c])
  then have q: "queue_inv (read_q c)" by (simp add: client_ok_def)
  have "bsize (read_q c) = 0"
    using queue_inv_bsize [OF q] assms(3) inbox_client [OF c] by simp
  moreover have "c\<lparr>read_q := read_q c\<rparr> = c" by (cases c) simp
  ultimately show ?thesis
    using deref_ok [OF inv c] set_client_same [OF c]
    by (simp add: dcn_async_worker_def pop_block_empty)
qed

text \<open>
  A packet to the sender itself: the answer is filled into a packet that was never initialised.
\<close>

lemma worker_self:
  assumes inv: "net_inv s" and reg: "reg_live s (dcn_clients serv)" and c: "clients s p \<noteq> None"
    and f: "inbox s p = packet_bytes m # fs" and wf: "packet_wf m" and eq: "from_uid m = to_uid m"
    and junk: "data (pdata answer0) = Wild"
  shows "dcn_async_worker pack0 answer0 p (s, serv) = Inl NullAccess"
proof -
  obtain c where c: "clients s p = Some c" using assms(3) by auto
  have ib: "inbox s p \<noteq> []" using f by simp
  note pop = popped_ok [OF inv c ib]
  let ?n = "packet_norm m"
  have d: "packet_deserial pack0 (mk_block (packet_bytes m)) = Inr (True, ?n)"
    by (rule packet_deserial_bytes) (use wf in simp_all)
  have live: "reg_live (popped s p) (dcn_clients serv)" using reg pop(5) by simp
  have "le_bytes 4 (102 :: 32 word) \<noteq> []" using length_le_bytes_4 [of "102 :: 32 word"] by (metis list.size(3) zero_neq_numeral)
  then have "reject_self p ?n answer0 (popped s p) = Inl NullAccess"
    using junk by (simp add: reject_self_def packet_fill_def qblock_fill_def)
  then show ?thesis
    using worker_pops [OF inv c f] d register_sender_ok [OF pop(1,2) live, of ?n] eq
    by (simp add: dispatch_defs)
qed

subsection \<open>Properties\<close>

text \<open>The registries that the witnesses use: UID 10 on connection 1, UID 20 on connection 2.\<close>

definition demo_serv :: dcn_server where
  "demo_serv = dcn_serv_init\<lparr>dcn_clients := map_put 20 2 (map_put 10 1 (map_init 8 8))\<rparr>"

lemma demo_serv_simps [simp]:
  "map_ok (dcn_clients demo_serv)" "map_ok (dcn_sessions demo_serv)"
  "map_get (dcn_clients demo_serv) = [10 \<mapsto> 1, 20 \<mapsto> 2]" "map_get (dcn_sessions demo_serv) = Map.empty"
  by (simp_all add: demo_serv_def dcn_serv_init_def map_get_put fun_eq_iff)

lemma demo_serv_live [simp]: "reg_live (demo_net rq wq) (dcn_clients demo_serv)"
  by (auto simp: reg_live_def split: if_splits)

lemma demo_inbox [simp]: "inbox (demo_net rq wq) 1 = rq"
  by (simp add: inbox_def)

lemma demo_outbox [simp]: "outbox (demo_net rq wq) 1 = wq" "outbox (demo_net rq wq) 2 = []"
  by (simp_all add: outbox_def)

lemma demo_mode [simp]: "mode_of (demo_net rq wq) 2 = Some ModIn"
  by (simp add: mode_of_def)

lemma demo_registered:
  "map_get (dcn_clients (registered (demo_net rq wq) 1 m demo_serv))
     = (if from_uid m = 10 then [10 \<mapsto> 1, 20 \<mapsto> 2] else [10 \<mapsto> 1, 20 \<mapsto> 2](from_uid m \<mapsto> 1))"
  by (auto simp: registered_def takes_over_def Let_def map_get_put)

text \<open>C1: the worker implements its specification: for a well-formed packet whose sender and
  recipient differ it never faults, registers the sender, posts exactly the acknowledgement and the
  relayed packets of the specification, in order, switches exactly the connections it names to
  output, and leaves everything else alone.\<close>

theorem worker_implements_spec:
  assumes "net_inv s" and "reg_live s (dcn_clients serv)" and "clients s p \<noteq> None"
    and "inbox s p = packet_bytes m # fs" and "packet_wf m" and "from_uid m \<noteq> to_uid m"
  shows "\<exists>s'. dcn_async_worker pack0 answer0 p (s, serv) = Inr (s', registered s p m serv)
     \<and> inbox s' p = fs
     \<and> posted (popped s p) (fst (worker_spec p m (dcn_clients (registered s p m serv))))
         (snd (worker_spec p m (dcn_clients (registered s p m serv)))) s'"
proof -
  obtain c where c: "clients s p = Some c" using assms(3) by auto
  have ib: "inbox s p \<noteq> []" using assms(4) by simp
  note pop = popped_ok [OF assms(1) c ib]
  obtain s' where w: "dcn_async_worker pack0 answer0 p (s, serv) = Inr (s', registered s p m serv)"
    "posted (popped s p) (fst (worker_spec p m (dcn_clients (registered s p m serv))))
       (snd (worker_spec p m (dcn_clients (registered s p m serv)))) s'"
    using worker_ok [OF assms] by blast
  obtain c' where "clients s' p = Some c'" "read_q c' = dequeue (read_q c)"
    by (rule posted_client [OF w(2) pop(2)]) simp
  then have "inbox s' p = tl (inbox s p)"
    using pop(3) inbox_client [OF pop(2)] by (simp add: inbox_def)
  with w show ?thesis using assms(4) by auto
qed

theorem worker_implements_spec_witness:
  "\<exists>s' serv'. dcn_async_worker (sample_packet 0 0) (sample_packet 0 0) 1
       (demo_net [packet_bytes (sample_packet 10 20)] [], demo_serv) = Inr (s', serv') \<and> inbox s' 1 = []"
  using worker_implements_spec [of "demo_net [packet_bytes (sample_packet 10 20)] []" demo_serv 1
    "sample_packet 10 20" "[]" "sample_packet 0 0" "sample_packet 0 0"] by auto

text \<open>C9: a packet for a registered UID reaches that UID's connection behind what was queued there:
  same sender, payload, type and request number, marked as coming from the server, with its message
  number cleared; the sender gets a 200 with its own message number and is switched to output.  The
  recipient's connection is not switched, so the packet waits until something else does that.\<close>

theorem unicast_delivered:
  assumes "net_inv s" and "reg_live s (dcn_clients serv)" and "clients s p \<noteq> None"
    and "inbox s p = packet_bytes m # fs" and "packet_wf m" and "from_uid m \<noteq> to_uid m"
    and "\<not> is_broadcast m" and "to_uid m = 0 \<longrightarrow> packtype m \<noteq> pt_code PING"
    and "map_get (dcn_clients serv) (to_uid m) = Some q" and "q \<noteq> p"
  shows "\<exists>s' serv'. dcn_async_worker pack0 answer0 p (s, serv) = Inr (s', serv')
     \<and> outbox s' q = outbox s q @ [packet_bytes \<lparr>packtype = packtype m, from_os = True,
          from_uid = from_uid m, to_uid = to_uid m, trav_fuid = 0, trav_tuid = 0, muid = 0,
          cmuid = cmuid m, pdata = mk_block (qb_bytes (pdata m))\<rparr>]
     \<and> outbox s' p = outbox s p @ [packet_bytes (answer_packet 200 (from_uid m) (muid m))]
     \<and> mode_of s' p = Some ModOut \<and> mode_of s' q = mode_of s q
     \<and> (\<forall>r. r \<noteq> p \<longrightarrow> r \<noteq> q \<longrightarrow> outbox s' r = outbox s r)"
proof -
  let ?serv = "registered s p m serv"
  have ok: "map_ok (dcn_clients serv)" using assms(2) by (simp add: reg_live_def)
  have q: "map_get (dcn_clients ?serv) (to_uid m) = Some q"
    using assms(6,9) ok by (simp add: registered_def Let_def map_get_put)
  then have sp: "worker_spec p m (dcn_clients ?serv) =
      ([(p, answer_packet 200 (from_uid m) (muid m)), (q, relay_packet m (to_uid m) 0)], {p})"
    using assms(7,8) by (auto simp: worker_spec_def)
  obtain s' where w: "dcn_async_worker pack0 answer0 p (s, serv) = Inr (s', ?serv)"
    "posted (popped s p) (fst (worker_spec p m (dcn_clients ?serv)))
       (snd (worker_spec p m (dcn_clients ?serv))) s'"
    using worker_ok [OF assms(1-6)] by blast
  show ?thesis
    using w(1) posted_popped [OF w(2)] assms(3,10) sp
    by (intro exI [of _ s'] exI [of _ ?serv]) (simp add: relay_packet_def)
qed

theorem unicast_delivered_witness:
  "\<exists>s' serv'. dcn_async_worker (sample_packet 0 0) (sample_packet 0 0) 1
       (demo_net [packet_bytes (sample_packet 10 20)] [], demo_serv) = Inr (s', serv')
     \<and> length (outbox s' 2) = 1 \<and> mode_of s' 2 = Some ModIn"
  using unicast_delivered [of "demo_net [packet_bytes (sample_packet 10 20)] []" demo_serv 1
    "sample_packet 10 20" "[]" 2] by (fastforce simp: is_broadcast_def)

text \<open>A packet for a UID that nobody registered is answered with 101 and goes nowhere.\<close>

theorem unknown_recipient:
  assumes "net_inv s" and "reg_live s (dcn_clients serv)" and "clients s p \<noteq> None"
    and "inbox s p = packet_bytes m # fs" and "packet_wf m" and "from_uid m \<noteq> to_uid m"
    and "to_uid m = 0 \<longrightarrow> \<not> is_broadcast m \<and> packtype m \<noteq> pt_code PING"
    and "map_get (dcn_clients serv) (to_uid m) = None"
  shows "\<exists>s' serv'. dcn_async_worker pack0 answer0 p (s, serv) = Inr (s', serv')
     \<and> outbox s' p = outbox s p @ [packet_bytes (answer_packet 101 (from_uid m) (muid m))]
     \<and> mode_of s' p = Some ModOut \<and> (\<forall>r. r \<noteq> p \<longrightarrow> outbox s' r = outbox s r \<and> mode_of s' r = mode_of s r)"
proof -
  let ?serv = "registered s p m serv"
  have ok: "map_ok (dcn_clients serv)" using assms(2) by (simp add: reg_live_def)
  have "map_get (dcn_clients ?serv) (to_uid m) = None"
    using assms(6,8) ok by (simp add: registered_def Let_def map_get_put)
  then have sp: "worker_spec p m (dcn_clients ?serv) =
      ([(p, answer_packet 101 (from_uid m) (muid m))], {p})"
    using assms(7) by (auto simp: worker_spec_def)
  obtain s' where w: "dcn_async_worker pack0 answer0 p (s, serv) = Inr (s', ?serv)"
    "posted (popped s p) (fst (worker_spec p m (dcn_clients ?serv)))
       (snd (worker_spec p m (dcn_clients ?serv))) s'"
    using worker_ok [OF assms(1-6)] by blast
  show ?thesis
    using w(1) posted_popped [OF w(2)] assms(3) sp by (intro exI [of _ s'] exI [of _ ?serv]) simp
qed

theorem unknown_recipient_witness:
  "\<exists>s' serv'. dcn_async_worker (sample_packet 0 0) (sample_packet 0 0) 1
       (demo_net [packet_bytes (sample_packet 10 99)] [], demo_serv) = Inr (s', serv')
     \<and> outbox s' 1 = [packet_bytes (answer_packet 101 10 3)]"
  using unknown_recipient [of "demo_net [packet_bytes (sample_packet 10 99)] []" demo_serv 1
    "sample_packet 10 99" "[]"] by fastforce

lemma relays_at:
  assumes "map_ok reg"
  obtains ks where "filter (\<lambda>x. fst x = q) (relays p m (entries reg)) = map (\<lambda>k. (q, relay_packet m k (trav_fuid m))) ks"
    "distinct ks" "set ks = {k. map_get reg k = Some q \<and> k \<noteq> from_uid m \<and> q \<noteq> p}"
proof -
  let ?es = "filter (\<lambda>e. snd e = q \<and> fst e \<noteq> from_uid m \<and> q \<noteq> p) (entries reg)"
  have "filter (\<lambda>x. fst x = q) (map (\<lambda>(k, q). (q, relay_packet m k (trav_fuid m)))
        (filter (\<lambda>(k, q). k \<noteq> from_uid m \<and> q \<noteq> p) es))
      = map (\<lambda>k. (q, relay_packet m k (trav_fuid m)))
          (map fst (filter (\<lambda>e. snd e = q \<and> fst e \<noteq> from_uid m \<and> q \<noteq> p) es))" for es
    by (induction es) auto
  moreover have "distinct (map fst ?es)"
    using assms by (intro distinct_map_filter) (simp add: entries_def map_ok_def)
  moreover have "(k, q) \<in> set (entries reg) \<longleftrightarrow> map_get reg k = Some q" for k q
    using assms map_get_map_of [OF assms] by (simp add: entries_def map_ok_def map_of_eq_Some_iff)
  then have "set (map fst ?es) = {k. map_get reg k = Some q \<and> k \<noteq> from_uid m \<and> q \<noteq> p}" by force
  ultimately show thesis by (intro that [of "map fst ?es"]) (simp_all add: relays_def)
qed

text \<open>C10: a broadcast to UID 0 reaches every other registered connection, exactly once for each UID it
  registered, and switches it to output; the sender only gets its 200, and connections that no UID
  leads to get nothing.\<close>

theorem broadcast_reaches_all:
  assumes "net_inv s" and "reg_live s (dcn_clients serv)" and "clients s p \<noteq> None"
    and "inbox s p = packet_bytes m # fs" and "packet_wf m" and "from_uid m \<noteq> 0"
    and "to_uid m = 0" and "is_broadcast m"
  shows "\<exists>s'. dcn_async_worker pack0 answer0 p (s, serv) = Inr (s', registered s p m serv)
     \<and> outbox s' p = outbox s p @ [packet_bytes (answer_packet 200 (from_uid m) (muid m))]
     \<and> mode_of s' p = Some ModOut
     \<and> (\<forall>q. q \<noteq> p \<longrightarrow> (\<exists>ks. distinct ks
          \<and> set ks = {k. map_get (dcn_clients serv) k = Some q \<and> k \<noteq> from_uid m}
          \<and> outbox s' q = outbox s q @ map (\<lambda>k. packet_bytes (relay_packet m k (trav_fuid m))) ks
          \<and> mode_of s' q = (if ks = [] then mode_of s q else Some ModOut)))"
proof -
  let ?serv = "registered s p m serv" and ?reg = "dcn_clients (registered s p m serv)"
  let ?rs = "relays p m (entries ?reg)"
  have ok: "map_ok (dcn_clients serv)" using assms(2) by (simp add: reg_live_def)
  then have ok': "map_ok ?reg" by (simp add: registered_def Let_def)
  have sp: "worker_spec p m ?reg =
      ((p, answer_packet 200 (from_uid m) (muid m)) # ?rs, insert p (fst ` set ?rs))"
    using assms(7,8) by (auto simp: worker_spec_def is_broadcast_def Let_def)
  have ne: "from_uid m \<noteq> to_uid m" using assms(6,7) by simp
  obtain s' where w: "dcn_async_worker pack0 answer0 p (s, serv) = Inr (s', ?serv)"
    "posted (popped s p) (fst (worker_spec p m ?reg)) (snd (worker_spec p m ?reg)) s'"
    using worker_ok [OF assms(1-5) ne] by blast
  have np: "filter (\<lambda>x. fst x = p) ?rs = []" using relays_at [OF ok', of p p m] by fastforce
  have other: "map_get ?reg k = Some q \<and> k \<noteq> from_uid m \<longleftrightarrow>
      map_get (dcn_clients serv) k = Some q \<and> k \<noteq> from_uid m" for k q
    using ok by (auto simp: registered_def Let_def map_get_put)
  have "\<exists>ks. distinct ks \<and> set ks = {k. map_get (dcn_clients serv) k = Some q \<and> k \<noteq> from_uid m}
      \<and> outbox s' q = outbox s q @ map (\<lambda>k. packet_bytes (relay_packet m k (trav_fuid m))) ks
      \<and> mode_of s' q = (if ks = [] then mode_of s q else Some ModOut)" if qp: "q \<noteq> p" for q
  proof -
    obtain ks where ks: "filter (\<lambda>x. fst x = q) ?rs = map (\<lambda>k. (q, relay_packet m k (trav_fuid m))) ks" "distinct ks"
      "set ks = {k. map_get ?reg k = Some q \<and> k \<noteq> from_uid m \<and> q \<noteq> p}"
      by (rule relays_at [OF ok', of q p m])
    have "set ks = {k. map_get ?reg k = Some q \<and> k \<noteq> from_uid m}" using ks(3) qp by simp
    then have set: "set ks = {k. map_get (dcn_clients serv) k = Some q \<and> k \<noteq> from_uid m}" unfolding other .
    have "outbox s' q = outbox s q @ map (\<lambda>k. packet_bytes (relay_packet m k (trav_fuid m))) ks"
      using posted_popped(1) [OF w(2), of q] qp sp ks(1) by (simp add: comp_def)
    moreover have "mode_of s' q = (if ks = [] then mode_of s q else Some ModOut)"
    proof -
      have iff: "q \<in> fst ` set ?rs \<longleftrightarrow> ks \<noteq> []" using filter_fst_Nil [of q ?rs] ks(1) by simp
      have "ks \<noteq> [] \<Longrightarrow> clients s q \<noteq> None" using set assms(2) by (cases ks) (auto simp: reg_live_def)
      then show ?thesis
        using posted_popped(2) [OF w(2), of q] qp sp iff by (cases "ks = []") auto
    qed
    ultimately show ?thesis using ks(2) set by blast
  qed
  then show ?thesis
    using w(1) posted_popped [OF w(2), of p] np sp assms(3) by (intro exI [of _ s']) simp
qed

definition sample_broadcast :: "ullong \<Rightarrow> packet" where
  "sample_broadcast from = (sample_packet from 0)\<lparr>packtype := pt_code BROADCAST\<rparr>"

lemma sample_broadcast_simps [simp]:
  "packet_wf (sample_broadcast a)" "from_uid (sample_broadcast a) = a" "to_uid (sample_broadcast a) = 0"
  "is_broadcast (sample_broadcast a)" "muid (sample_broadcast a) = 3"
  using sample_packet_wf [of a 0]
  by (simp_all add: sample_broadcast_def is_broadcast_def packet_wf_def)

theorem broadcast_reaches_all_witness:
  "\<exists>s' serv'. dcn_async_worker (sample_packet 0 0) (sample_packet 0 0) 1
       (demo_net [packet_bytes (sample_broadcast 10)] [], demo_serv) = Inr (s', serv')
     \<and> mode_of s' 2 = Some ModOut \<and> outbox s' 1 = [packet_bytes (answer_packet 200 10 3)]
     \<and> packet_bytes (relay_packet (sample_broadcast 10) 20 (trav_fuid (sample_broadcast 10))) \<in> set (outbox s' 2)"
proof -
  let ?s = "demo_net [packet_bytes (sample_broadcast 10)] []" and ?m = "sample_broadcast 10"
  obtain s' where s': "dcn_async_worker (sample_packet 0 0) (sample_packet 0 0) 1 (?s, demo_serv)
      = Inr (s', registered ?s 1 ?m demo_serv)"
    "outbox s' 1 = [packet_bytes (answer_packet 200 10 3)]"
    and q: "\<forall>q. q \<noteq> 1 \<longrightarrow> (\<exists>ks. distinct ks
          \<and> set ks = {k. map_get (dcn_clients demo_serv) k = Some q \<and> k \<noteq> from_uid ?m}
          \<and> outbox s' q = outbox ?s q @ map (\<lambda>k. packet_bytes (relay_packet ?m k (trav_fuid ?m))) ks
          \<and> mode_of s' q = (if ks = [] then mode_of ?s q else Some ModOut))"
    using broadcast_reaches_all [of ?s demo_serv 1 ?m "[]" "sample_packet 0 0" "sample_packet 0 0"]
    by auto
  obtain ks where ks: "set ks = {k. map_get (dcn_clients demo_serv) k = Some 2 \<and> k \<noteq> from_uid ?m}"
    "outbox s' 2 = outbox ?s 2 @ map (\<lambda>k. packet_bytes (relay_packet ?m k (trav_fuid ?m))) ks"
    "mode_of s' 2 = (if ks = [] then mode_of ?s 2 else Some ModOut)"
    using q [THEN spec [of _ 2]] by auto
  have "20 \<in> set ks" unfolding ks(1) by auto
  with s' ks(2,3) show ?thesis by auto
qed

text \<open>Handling a packet records its message number as the sender's session and leaves the
  sender's UID registered, to this connection unless it was registered to one with the same peer
  address; the entries of other UIDs stay as they are.\<close>

theorem sender_registered:
  assumes "net_inv s" and "reg_live s (dcn_clients serv)" and "map_ok (dcn_sessions serv)"
    and "clients s p \<noteq> None"
    and "inbox s p = packet_bytes m # fs" and "packet_wf m" and "from_uid m \<noteq> to_uid m"
  shows "\<exists>s' serv'. dcn_async_worker pack0 answer0 p (s, serv) = Inr (s', serv')
     \<and> map_get (dcn_sessions serv') = (map_get (dcn_sessions serv))(from_uid m \<mapsto> muid m)
     \<and> map_get (dcn_clients serv') = (map_get (dcn_clients serv))
         (from_uid m \<mapsto> if takes_over s (dcn_clients serv) (from_uid m) p then p
                      else the (map_get (dcn_clients serv) (from_uid m)))"
proof -
  have ok: "map_ok (dcn_clients serv)" using assms(2) by (simp add: reg_live_def)
  have "\<not> takes_over s (dcn_clients serv) (from_uid m) p \<Longrightarrow>
      \<exists>q. map_get (dcn_clients serv) (from_uid m) = Some q"
    by (auto simp: takes_over_def split: option.splits)
  then show ?thesis
    using worker_ok [OF assms(1,2,4-7), of pack0 answer0] assms(3) ok
    by (auto simp: registered_def Let_def map_get_put fun_eq_iff)
qed

theorem sender_registered_witness:
  "\<exists>s' serv'. dcn_async_worker (sample_packet 0 0) (sample_packet 0 0) 1
       (demo_net [packet_bytes (sample_packet 30 20)] [], demo_serv) = Inr (s', serv')
     \<and> map_get (dcn_sessions serv') 30 = Some 3 \<and> map_get (dcn_clients serv') 30 = Some 1"
  using sender_registered [of "demo_net [packet_bytes (sample_packet 30 20)] []" demo_serv 1
    "sample_packet 30 20" "[]" "sample_packet 0 0" "sample_packet 0 0"]
  by (auto simp: takes_over_def)

text \<open>A UID that another peer holds is taken over without an error: the newcomer's first packet
  re-registers it, the answer is the ordinary one, and what is sent to the UID from then on goes to
  the newcomer.\<close>

theorem duplicate_uid_taken_over:
  assumes "net_inv s" and "reg_live s (dcn_clients serv)" and "clients s p = Some cli"
    and "inbox s p = packet_bytes m # fs" and "packet_wf m" and "to_uid m = 0"
    and "from_uid m \<noteq> 0" and "packtype m = pt_code PING"
    and "map_get (dcn_clients serv) (from_uid m) = Some q" and "clients s q = Some old"
    and "port old \<noteq> port cli"
  shows "\<exists>s' serv'. dcn_async_worker pack0 answer0 p (s, serv) = Inr (s', serv')
     \<and> map_get (dcn_clients serv') (from_uid m) = Some p
     \<and> outbox s' p = outbox s p @ [packet_bytes (answer_packet 200 (from_uid m) (muid m))]"
proof -
  let ?serv = "registered s p m serv"
  have ok: "map_ok (dcn_clients serv)" using assms(2) by (simp add: reg_live_def)
  have live: "clients s p \<noteq> None" and ne: "from_uid m \<noteq> to_uid m" using assms(3,6,7) by simp_all
  have sp: "worker_spec p m reg = ([(p, answer_packet 200 (from_uid m) (muid m))], {p})" for reg
    using assms(6,8) by (simp add: worker_spec_def Let_def)
  obtain s' where w: "dcn_async_worker pack0 answer0 p (s, serv) = Inr (s', ?serv)"
    "posted (popped s p) (fst (worker_spec p m (dcn_clients ?serv)))
       (snd (worker_spec p m (dcn_clients ?serv))) s'"
    using worker_ok [OF assms(1,2) live assms(4,5) ne] by blast
  have "takes_over s (dcn_clients serv) (from_uid m) p"
    using assms(3,9-11) by (simp add: takes_over_def)
  then have "map_get (dcn_clients ?serv) (from_uid m) = Some p"
    using ok by (simp add: registered_def Let_def map_get_put)
  then show ?thesis using w(1) posted_popped(1) [OF w(2), of p] sp by auto
qed

definition sample_ping :: "ullong \<Rightarrow> packet" where
  "sample_ping from = (sample_packet from 0)\<lparr>packtype := pt_code PING\<rparr>"

theorem duplicate_uid_taken_over_witness:
  "\<exists>s' serv'. dcn_async_worker (sample_packet 0 0) (sample_packet 0 0) 1
       (demo_net [packet_bytes (sample_ping 20)] [], demo_serv) = Inr (s', serv')
     \<and> map_get (dcn_clients serv') 20 = Some 1"
proof -
  have m: "packet_wf (sample_ping 20)" "from_uid (sample_ping 20) = 20" "to_uid (sample_ping 20) = 0"
    "packtype (sample_ping 20) = pt_code PING" "muid (sample_ping 20) = 3"
    using sample_packet_wf [of 20 0] by (simp_all add: sample_ping_def packet_wf_def)
  show ?thesis
    using duplicate_uid_taken_over [of "demo_net [packet_bytes (sample_ping 20)] []" demo_serv 1
      "demo_client 5 [packet_bytes (sample_ping 20)] []" "sample_ping 20" "[]" 2 "demo_client 6 [] []"
      "sample_packet 0 0" "sample_packet 0 0"] m by auto
qed

text \<open>A packet addressed to its own sender makes the worker fill an answer packet that was never
  initialised: with a payload pointer that the allocator does not know, the worker writes through a
  null pointer.\<close>

theorem self_packet_faults:
  assumes "net_inv s" and "reg_live s (dcn_clients serv)" and "clients s p \<noteq> None"
    and "inbox s p = packet_bytes m # fs" and "packet_wf m" and "from_uid m = to_uid m"
    and "data (pdata answer0) = Wild"
  shows "dcn_async_worker pack0 answer0 p (s, serv) = Inl NullAccess"
  using assms by (rule worker_self)

theorem self_packet_faults_witness:
  "dcn_async_worker (sample_packet 0 0) ((sample_packet 0 0)\<lparr>pdata := \<lparr>data = Wild, dsize = 0\<rparr>\<rparr>) 1
     (demo_net [packet_bytes (sample_packet 10 10)] [], demo_serv) = Inl NullAccess"
  by (rule self_packet_faults [where m = "sample_packet 10 10" and fs = "[]"]) simp_all

text \<open>A received frame shorter than a header is handled as whatever the worker's local packet
  happened to hold: the status of \<open>packet_deserial\<close> is ignored, the garbage sender is registered to
  the connection, and the garbage packet is answered and relayed.\<close>

theorem short_frame_runs_garbage:
  assumes "net_inv s" and "reg_live s (dcn_clients serv)" and "clients s p \<noteq> None"
    and "inbox s p = f # fs" and "length f < packet_general_ofs"
    and "packet_wf pack0" and "from_uid pack0 \<noteq> to_uid pack0"
  shows "\<exists>s'. dcn_async_worker pack0 answer0 p (s, serv) = Inr (s', registered s p pack0 serv)
     \<and> posted (popped s p) (fst (worker_spec p pack0 (dcn_clients (registered s p pack0 serv))))
         (snd (worker_spec p pack0 (dcn_clients (registered s p pack0 serv)))) s'"
proof -
  have "packet_deserial pack0 (mk_block f) = Inr (False, pack0)"
    using assms(5) by (simp add: packet_deserial_def)
  from worker_packet [OF assms(1-4) this assms(6,7)] show ?thesis .
qed

theorem short_frame_runs_garbage_witness:
  "\<exists>s'. dcn_async_worker (sample_packet 77 20) (sample_packet 0 0) 1 (demo_net [[1, 2, 3]] [], demo_serv)
     = Inr (s', registered (demo_net [[1, 2, 3]] []) 1 (sample_packet 77 20) demo_serv)"
  using short_frame_runs_garbage [of "demo_net [[1, 2, 3]] []" demo_serv 1 "[1, 2, 3]" "[]"
    "sample_packet 77 20" "sample_packet 0 0"] by auto

end
