(* ===== verification/ServerSystem.thy ===== *)
theory ServerSystem
  imports DcnServer
begin

text \<open>
  The running server as a transition system: the event loop handles events and hands workers to
  the pool, the pool runs the workers in any order, each as one step.  The invariants of the
  reachable states are here, and the executions that show what is not one.
\<close>

type_synonym sys = "net \<times> dcn_server"

inductive dcn_step :: "sys \<Rightarrow> sys \<Rightarrow> bool" where
  event: "ev_ok s ev \<Longrightarrow>
     handle_event dcn_acceptor dcn_disconnector ev (s, serv) = Some (Inr (fl, st')) \<Longrightarrow>
     dcn_step (s, serv) st'"
| worker: "tasks s = us @ p # vs \<Longrightarrow>
     dcn_async_worker pack0 answer0 p (s\<lparr>tasks := us @ vs\<rparr>, serv) = Inr st' \<Longrightarrow>
     dcn_step (s, serv) st'"

inductive_cases dcn_stepE: "dcn_step (s, serv) st'"

definition net_init :: net where
  "net_init = \<lparr>clients = Map.empty, epoll = Map.empty, tasks = [], sent = [], last_uid = 0,
               is_running = True\<rparr>"

inductive reachable :: "sys \<Rightarrow> bool" where
  start: "reachable (net_init, dcn_serv_init)"
| step: "reachable st \<Longrightarrow> dcn_step st st' \<Longrightarrow> reachable st'"

subsection \<open>What any worker that returns leaves alone\<close>

definition moved :: "net \<Rightarrow> net \<Rightarrow> bool" where
  "moved s s' \<longleftrightarrow> net_inv s' \<and> cores s' = cores s \<and> tasks s' = tasks s"

lemma moved_trans: "moved s s1 \<Longrightarrow> moved s1 s2 \<Longrightarrow> moved s s2"
  by (simp add: moved_def)

lemma moved_refl: "net_inv s \<Longrightarrow> moved s s"
  by (simp add: moved_def)

lemma moved_inv: "moved s s' \<Longrightarrow> net_inv s'"
  by (simp add: moved_def)

lemma packet_serial_wf:
  assumes "packet_serial p = Inr blk"
  shows "qb_wf blk"
proof -
  let ?n = "unat (of_nat (dsize (pdata p)) + of_nat packet_general_ofs :: size_t)"
  have "?n = (dsize (pdata p) + packet_general_ofs) mod 2 ^ 64"
    by (simp only: of_nat_add [symmetric] unat_of_nat) simp
  then have le: "?n \<le> dsize (pdata p) + packet_general_ofs" by simp
  show ?thesis
    using assms le
    by (auto simp: packet_serial_def Let_def qb_wf_def split: if_splits sum.splits
        dest!: memcpy_from_InrD)
qed

lemma deref_Some: "deref p s = Inr c \<Longrightarrow> clients s p = Some c"
  by (auto simp: deref_def split: if_splits option.splits)

lemma push_to_moved:
  assumes inv: "net_inv s" and b: "qb_wf blk" and r: "push_to p blk s = Inr s'"
  shows "moved s s'"
proof -
  obtain c where "deref p s = Inr c" using r by (auto simp: push_to_def bind_res_Inr_iff)
  then have c: "clients s p = Some c" by (rule deref_Some)
  obtain md where ok: "client_ok c" by (rule net_inv_client [OF inv c])
  then have q: "queue_inv (write_q c)" by (simp add: client_ok_def)
  let ?c = "c\<lparr>write_q := enqueue (write_q c) blk\<rparr>"
  have ok': "client_ok ?c" and f: "fd ?c = fd c"
    using ok push_block_step(2) [OF q b] by (simp_all add: client_ok_def)
  have "s' = set_client p ?c s"
    using r deref_ok [OF inv c] push_block_step(1) [OF q b] by (simp add: push_to_def)
  moreover have "cores (set_client p ?c s) = cores s"
    using c by (auto simp: cores_def set_client_def fun_eq_iff client_core_def)
  ultimately show ?thesis
    using net_inv_set_client [OF inv c ok' f] by (simp add: moved_def)
qed

lemma set_out_moved:
  assumes inv: "net_inv s" and r: "set_out p s = Inr s'"
  shows "moved s s'"
proof -
  obtain c where c: "clients s p = Some c"
    using r by (cases "clients s p") (auto simp: set_out_def change_climod_def)
  then obtain s1 where "set_out p s = Inr s1" "posted s [] {p} s1"
    using set_out_ok [OF inv] by blast
  with r show ?thesis by (simp add: moved_def posted_def)
qed

lemma reply_code_moved:
  assumes inv: "net_inv s" and r: "reply_code p ans code s = Inr s'"
  shows "moved s s'"
  using r push_to_moved [OF inv packet_serial_wf]
  by (auto simp: reply_code_def bind_res_Inr_iff)

lemma reject_self_moved:
  assumes inv: "net_inv s" and r: "reject_self p pack ans s = Inr s'"
  shows "moved s s'"
  using r push_to_moved [OF inv packet_serial_wf]
  by (auto simp: reject_self_def bind_res_Inr_iff Let_def)

lemma dcn_unicast_moved:
  assumes inv: "net_inv s" and r: "dcn_unicast p q pack s = Inr s'"
  shows "moved s s'"
proof -
  obtain x blk to_cli s1 where blk: "packet_serial x = Inr blk" and "deref q s = Inr to_cli"
    and s1: "(if fd to_cli > 0 then push_to q blk s else Inr s) = Inr s1" "set_out p s1 = Inr s'"
    using r by (auto simp: dcn_unicast_def bind_res_Inr_iff Let_def)
  have "moved s s1"
    using s1(1) push_to_moved [OF inv packet_serial_wf [OF blk]] moved_refl [OF inv]
    by (auto split: if_splits)
  then show ?thesis
    using set_out_moved [OF _ s1(2)] moved_inv moved_trans by blast
qed

lemma broadcast_one_moved:
  assumes inv: "net_inv s" and r: "broadcast_one p q key pack s = Inr s'"
  shows "moved s s'"
proof -
  obtain x blk and to_cli cli :: client where blk: "packet_serial x = Inr blk"
    and s1: "(if fd to_cli = fd cli then Inr s
     else if fd to_cli > 0 then bind_res (set_out q s) (push_to q blk) else Inr s) = Inr s'"
    using r unfolding broadcast_one_def Let_def by (elim bind_res_InrE) (erule that)
  show ?thesis
  proof (cases "fd to_cli \<noteq> fd cli \<and> 0 < fd to_cli")
    case True
    with s1 obtain s2 where s2: "set_out q s = Inr s2" "push_to q blk s2 = Inr s'"
      by (auto simp: bind_res_Inr_iff)
    have m: "moved s s2" by (rule set_out_moved [OF inv s2(1)])
    show ?thesis
      using push_to_moved [OF moved_inv [OF m] packet_serial_wf [OF blk] s2(2)] m moved_trans by blast
  next
    case False
    with s1 moved_refl [OF inv] show ?thesis by (auto split: if_splits)
  qed
qed

lemma broadcast_loop_moved:
  "net_inv s \<Longrightarrow> broadcast_loop p pack reg is s = Inr s' \<Longrightarrow> moved s s'"
proof (induction "is" arbitrary: s)
  case Nil
  then show ?case by (simp add: moved_refl)
next
  case (Cons i "is")
  then have "broadcast_loop p pack reg is s = Inr s' \<or> (\<exists>q key s1.
      broadcast_one p q key pack s = Inr s1 \<and> broadcast_loop p pack reg is s1 = Inr s')"
    by (auto simp: bind_res_Inr_iff split: prod.splits if_splits bool.splits option.splits)
  then show ?case
    using Cons.IH Cons.prems(1) broadcast_one_moved moved_inv moved_trans by blast
qed

lemma deliver_moved:
  assumes inv: "net_inv s" and r: "deliver p pack slot reg s = Inr s'"
  shows "moved s s'"
proof (cases "is_broadcast pack")
  case True
  with r obtain s1 where s1: "broadcast_loop p pack reg [0..<mlen reg] s = Inr s1" "set_out p s1 = Inr s'"
    by (auto simp: deliver_def bind_res_Inr_iff)
  have m: "moved s s1" by (rule broadcast_loop_moved [OF inv s1(1)])
  show ?thesis using set_out_moved [OF moved_inv [OF m] s1(2)] m moved_trans by blast
next
  case False
  with r show ?thesis
    using dcn_unicast_moved [OF inv] by (auto simp: deliver_def split: option.splits)
qed

lemma dispatch_moved:
  assumes inv: "net_inv s" and r: "dispatch p pack answer0 reg s = Inr s'"
  shows "moved s s'"
proof (cases "from_uid pack = to_uid pack")
  case True
  with r show ?thesis using reject_self_moved [OF inv] by (simp add: dispatch_defs)
next
  case False
  with r obtain ans code s1 where a: "reply_code p ans code s = Inr s1"
    and k: "set_out p s1 = Inr s' \<or> (\<exists>slot. deliver p pack slot reg s1 = Inr s')"
    by (auto simp: dispatch_defs bind_res_Inr_iff split: if_splits prod.splits bool.splits)
  have m: "moved s s1" by (rule reply_code_moved [OF inv a])
  show ?thesis
    using k set_out_moved [OF moved_inv [OF m]] deliver_moved [OF moved_inv [OF m]] m moved_trans
    by blast
qed

lemma register_sender_maps:
  assumes "register_sender p pack s serv = Inr serv'"
    and "map_ok (dcn_clients serv)" and "map_ok (dcn_sessions serv)"
  shows "map_ok (dcn_clients serv')" and "map_ok (dcn_sessions serv')"
  using assms
  by (auto simp: register_sender_def Let_def bind_res_Inr_iff map_put_def [symmetric]
      split: prod.splits bool.splits option.splits if_splits)

lemma cores_inbox: "cores s' = cores s \<Longrightarrow> inbox s' = inbox s"
proof
  fix p
  assume "cores s' = cores s"
  then show "inbox s' p = inbox s p"
    using cores_client [of s' s p] cores_live [of s' s p]
    by (cases "clients s p") (fastforce simp: inbox_def)+
qed

lemma worker_moved:
  assumes inv: "net_inv s" and ok: "map_ok (dcn_clients serv)" "map_ok (dcn_sessions serv)"
    and r: "dcn_async_worker pack0 answer0 p (s, serv) = Inr (s', serv')"
  shows "net_inv s'" and "tasks s' = tasks s" and "map_ok (dcn_clients serv')"
    and "map_ok (dcn_sessions serv')" and "inbox s' = (inbox s)(p := tl (inbox s p))"
    and "\<And>q. clients s' q = None \<longleftrightarrow> clients s q = None"
proof -
  obtain c where c: "clients s p = Some c"
    using r deref_Some by (auto simp: dcn_async_worker_def bind_res_Inr_iff)
  have "net_inv s' \<and> tasks s' = tasks s \<and> map_ok (dcn_clients serv') \<and> map_ok (dcn_sessions serv')
    \<and> inbox s' = (inbox s)(p := tl (inbox s p)) \<and> (\<forall>q. clients s' q = None \<longleftrightarrow> clients s q = None)"
  proof (cases "inbox s p")
    case Nil
    then show ?thesis using worker_idle [OF inv c Nil] r inv ok by auto
  next
    case (Cons f fs)
    then have ne: "inbox s p \<noteq> []" by simp
    note pop = popped_ok [OF inv c ne]
    obtain b pack where "register_sender p pack (popped s p) serv = Inr serv'"
      and d: "dispatch p pack answer0 (dcn_clients serv') (popped s p) = Inr s'"
      using r worker_pops [OF inv c Cons] by (auto simp: bind_res_Inr_iff)
    then have mo: "map_ok (dcn_clients serv')" "map_ok (dcn_sessions serv')"
      using register_sender_maps ok by blast+
    have m: "moved (popped s p) s'" by (rule dispatch_moved [OF pop(1) d])
    then have cr: "cores s' = cores (popped s p)" and t: "tasks s' = tasks (popped s p)"
      by (simp_all add: moved_def)
    have "tasks (popped s p) = tasks s" using c by (simp add: popped_def)
    moreover have "inbox (popped s p) = (inbox s)(p := tl (inbox s p))"
      using pop(3) c by (auto simp: popped_def inbox_set_client fun_eq_iff)
    moreover have "clients (popped s p) q = None \<longleftrightarrow> clients s q = None" for q
      using c by (simp add: popped_def set_client_def)
    ultimately show ?thesis
      using moved_inv [OF m] mo t cores_inbox [OF cr] cores_live [OF cr] by simp
  qed
  then show "net_inv s'" and "tasks s' = tasks s" and "map_ok (dcn_clients serv')"
    and "map_ok (dcn_sessions serv')" and "inbox s' = (inbox s)(p := tl (inbox s p))"
    and "\<And>q. clients s' q = None \<longleftrightarrow> clients s q = None"
    by blast+
qed

subsection \<open>Invariants of the reachable states\<close>

definition sys_inv :: "sys \<Rightarrow> bool" where
  "sys_inv st \<longleftrightarrow> net_inv (fst st) \<and> fed (fst st)
     \<and> map_ok (dcn_clients (snd st)) \<and> map_ok (dcn_sessions (snd st))"

lemma handle_event_holder:
  assumes "handle_event acceptor disc ev (s, h) = Some (Inr (fl, s', h'))"
  shows "h' = h \<or> h' = acceptor (ev_new ev) h \<or> h' = disc (evptr ev) h"
  using assms
  by (auto simp: handle_event_def on_accept_def drop_client_def on_readable_def on_writable_def Let_def
      split: if_splits option.splits prod.splits sum.splits)

lemma disconnector_del:
  assumes "map_ok (dcn_clients serv)"
  shows "dcn_clients (dcn_disconnector p serv) =
     (case find_from p (mvals (dcn_clients serv)) 0 (mlen (dcn_clients serv)) of
        None \<Rightarrow> dcn_clients serv
      | Some i \<Rightarrow> map_del (mkeys (dcn_clients serv) ! i) (dcn_clients serv))"
    and "dcn_sessions (dcn_disconnector p serv) = dcn_sessions serv"
  by (auto simp: dcn_disconnector_def map_key_by_val_def map_del_def split: option.split)

lemma map_ok_disconnector:
  "map_ok (dcn_clients serv) \<Longrightarrow> map_ok (dcn_clients (dcn_disconnector p serv))"
  by (simp add: disconnector_del split: option.split)

lemma event_keeps:
  assumes "sys_inv (s, serv)" and "ev_ok s ev"
    and r: "handle_event dcn_acceptor dcn_disconnector ev (s, serv) = Some (Inr (fl, st'))"
  shows "sys_inv st'"
proof -
  obtain s' serv' where st': "st' = (s', serv')" by fastforce
  have ni: "net_inv s" and f: "fed s" and ok: "map_ok (dcn_clients serv)" "map_ok (dcn_sessions serv)"
    using assms(1) by (simp_all add: sys_inv_def)
  have "net_inv s'" and "fed s'"
    using handle_event_inv [OF ni assms(2), of dcn_acceptor dcn_disconnector serv] r f st' by simp_all
  moreover have "map_ok (dcn_clients serv')" and "map_ok (dcn_sessions serv')"
    using handle_event_holder [of dcn_acceptor dcn_disconnector ev s serv fl s' serv'] r st' ok
      map_ok_disconnector disconnector_del(2) by (auto simp: dcn_acceptor_def)
  ultimately show ?thesis by (simp add: sys_inv_def st')
qed

lemma worker_keeps:
  assumes "sys_inv (s, serv)" and t: "tasks s = us @ p # vs"
    and r: "dcn_async_worker pack0 answer0 p (s\<lparr>tasks := us @ vs\<rparr>, serv) = Inr st'"
  shows "sys_inv st'"
proof -
  obtain s' serv' where st': "st' = (s', serv')" by fastforce
  let ?s = "s\<lparr>tasks := us @ vs\<rparr>"
  have ni: "net_inv ?s" and f: "fed s" and ok: "map_ok (dcn_clients serv)" "map_ok (dcn_sessions serv)"
    using assms(1) net_inv_frame(1) by (simp_all add: sys_inv_def)
  note w = worker_moved [OF ni ok r [unfolded st']]
  have "length (inbox s' q) \<le> count_list (tasks s') q" for q
    using f t w(2,5) unfolding fed_def by (auto dest: spec [of _ q] split: if_splits)
  then show ?thesis using w(1,3,4) by (simp add: sys_inv_def fed_def st')
qed

lemma dcn_step_inv: "dcn_step st st' \<Longrightarrow> sys_inv st \<Longrightarrow> sys_inv st'"
  by (induction rule: dcn_step.induct) (blast intro: event_keeps worker_keeps)+

lemma sys_inv_init: "sys_inv (net_init, dcn_serv_init)"
  by (simp add: sys_inv_def net_inv_def net_init_def fed_def inbox_def dcn_serv_init_def)

lemma reachable_inv: "reachable st \<Longrightarrow> sys_inv st"
  by (induction rule: reachable.induct) (blast intro: sys_inv_init dcn_step_inv)+

text \<open>When the pool has nothing left to run, no received packet is left unprocessed.\<close>

lemma fed_drained: "fed s \<Longrightarrow> tasks s = [] \<Longrightarrow> inbox s p = []"
  unfolding fed_def by (metis count_list.simps(1) le_zero_eq length_0_conv)

subsection \<open>Pointers that outlive their connection\<close>

lemma worker_closed:
  "clients s p = None \<Longrightarrow> p \<noteq> 0 \<Longrightarrow> dcn_async_worker pack0 answer0 p (s, serv) = Inl UseAfterFree"
  by (simp add: dcn_async_worker_def deref_def)

text \<open>
  A connection that registered one UID is forgotten when it closes; one that registered two is
  still registered under the later of them.
\<close>

definition drop_state :: "net \<Rightarrow> addr \<Rightarrow> client \<Rightarrow> net" where
  "drop_state s p cli =
     s\<lparr>epoll := (epoll s)(fd cli := None), clients := (clients s)(p := None)\<rparr>"

lemma disconnector_get:
  assumes ok: "map_ok (dcn_clients serv)" and k: "map_get (dcn_clients serv) k = Some p"
  shows "\<exists>k0. map_get (dcn_clients serv) k0 = Some p
     \<and> map_get (dcn_clients (dcn_disconnector p serv)) = (map_get (dcn_clients serv))(k0 := None)"
proof -
  let ?reg = "dcn_clients serv"
  obtain j where "j < mlen ?reg" "mvals ?reg ! j = p"
    using map_get_Some_iff [OF ok] k by auto
  then have "find_from p (mvals ?reg) 0 (mlen ?reg) \<noteq> None"
    using find_from_None [of p "mvals ?reg" 0 "mlen ?reg" j] by auto
  then obtain i where i: "find_from p (mvals ?reg) 0 (mlen ?reg) = Some i" by auto
  then have "i < mlen ?reg" "mvals ?reg ! i = p" by (auto dest: find_from_Some)
  then have "map_get ?reg (mkeys ?reg ! i) = Some p"
    using map_get_nth [OF ok] by auto
  then show ?thesis using i ok by (auto simp: disconnector_del map_get_del)
qed

lemma disconnect_single:
  assumes reg: "reg_live s (dcn_clients serv)" and c: "clients s p = Some cli"
    and one: "\<And>k k'. map_get (dcn_clients serv) k = Some p \<Longrightarrow>
       map_get (dcn_clients serv) k' = Some p \<Longrightarrow> k = k'"
  shows "reg_live (drop_state s p cli) (dcn_clients (dcn_disconnector p serv))"
proof -
  let ?reg = "dcn_clients serv" and ?reg' = "dcn_clients (dcn_disconnector p serv)"
  have ok: "map_ok ?reg" using reg by (simp add: reg_live_def)
  have keep: "map_get ?reg' k = Some q \<Longrightarrow> map_get ?reg k = Some q \<and> q \<noteq> p" for k q
  proof (cases "\<exists>k. map_get ?reg k = Some p")
    case True
    then obtain k0 where "map_get ?reg k0 = Some p" "map_get ?reg' = (map_get ?reg)(k0 := None)"
      using disconnector_get [OF ok] by blast
    then show "map_get ?reg' k = Some q \<Longrightarrow> map_get ?reg k = Some q \<and> q \<noteq> p"
      using one by (auto split: if_splits)
  next
    case False
    have "find_from p (mvals ?reg) 0 (mlen ?reg) = None"
    proof (rule ccontr)
      assume "find_from p (mvals ?reg) 0 (mlen ?reg) \<noteq> None"
      then obtain i where "i < mlen ?reg" "mvals ?reg ! i = p" by (auto dest: find_from_Some)
      then show False using False map_get_nth [OF ok] by auto
    qed
    then show "map_get ?reg' k = Some q \<Longrightarrow> map_get ?reg k = Some q \<and> q \<noteq> p"
      using False ok by (auto simp: disconnector_del)
  qed
  have "clients (drop_state s p cli) q \<noteq> None" if "map_get ?reg' k = Some q" for k q
    using keep [OF that] reg by (auto simp: reg_live_def drop_state_def)
  then show ?thesis using map_ok_disconnector [OF ok] unfolding reg_live_def by blast
qed

lemma disconnect_double:
  assumes ok: "map_ok (dcn_clients serv)" and "k \<noteq> k'"
    and "map_get (dcn_clients serv) k = Some p" "map_get (dcn_clients serv) k' = Some p"
  shows "\<exists>u \<in> {k, k'}. map_get (dcn_clients (dcn_disconnector p serv)) u = Some p"
proof -
  obtain k0 where "map_get (dcn_clients (dcn_disconnector p serv)) = (map_get (dcn_clients serv))(k0 := None)"
    using disconnector_get [OF ok assms(3)] by blast
  then show ?thesis using assms by auto
qed

text \<open>A packet for a UID whose connection is gone but registered: the recipient is read after it was freed.\<close>

lemma worker_dangling:
  assumes inv: "net_inv s" and c: "clients s p = Some c"
    and f: "inbox s p = packet_bytes m # fs" and wf: "packet_wf m" and ne: "from_uid m \<noteq> to_uid m"
    and bc: "\<not> is_broadcast m" "\<not> (to_uid m = 0 \<and> packtype m = pt_code PING)"
    and ok: "map_ok (dcn_clients serv)"
    and new: "map_get (dcn_clients serv) (from_uid m) = None \<or>
       map_get (dcn_clients serv) (from_uid m) = Some p"
    and q: "map_get (dcn_clients serv) (to_uid m) = Some q" "clients s q = None" "q \<noteq> 0"
  shows "dcn_async_worker pack0 answer0 p (s, serv) = Inl UseAfterFree"
proof -
  have ib: "inbox s p \<noteq> []" using f by simp
  note pop = popped_ok [OF inv c ib]
  let ?n = "packet_norm m" and ?serv = "registered s p m serv"
  have p0: "p \<noteq> 0" using net_inv_client [OF inv c] by auto
  have d: "packet_deserial pack0 (mk_block (packet_bytes m)) = Inr (True, ?n)"
    by (rule packet_deserial_bytes) (use wf in simp_all)
  have rs: "registered (popped s p) p ?n serv = ?serv"
    using packet_norm_spec(2) [OF wf] pop(4) by (simp add: registered_def Let_def)
  have r: "register_sender p ?n (popped s p) serv = Inr ?serv"
  proof (cases "map_get (dcn_clients serv) (from_uid m)")
    case None
    then show ?thesis
      using map_at_missing [OF ok None, of None] rs
      by (simp add: register_sender_def registered_def takes_over_def map_put_def Let_def)
  next
    case (Some q')
    then have q': "q' = p" using new by simp
    obtain i where "map_at (dcn_clients serv) (Some (from_uid m)) None = (True, Some i)"
      "mvals (dcn_clients serv) ! i = p"
      using map_at_found [OF ok Some, of None] q' by auto
    then show ?thesis
      using deref_ok [OF pop(1,2)] rs p0 Some q' pop(2)
      by (simp add: register_sender_def registered_def takes_over_def map_put_def Let_def)
  qed
  have ok': "map_ok (dcn_clients ?serv)" using ok by (simp add: registered_def Let_def)
  have q': "map_get (dcn_clients ?serv) (to_uid m) = Some q"
    using q(1) ne ok by (simp add: registered_def Let_def map_get_put)
  obtain i where i: "map_at (dcn_clients ?serv) (Some (to_uid m)) None = (True, Some i)"
    "mvals (dcn_clients ?serv) ! i = q"
    using map_at_found [OF ok' q', of None] by auto
  obtain ans where ans: "packet_init Null 0 0 (from_uid m) (muid m) = Inr ans"
    by (simp add: packet_init_Null)
  obtain s1 where s1: "reply_code p ans 200 (popped s p) = Inr s1"
    "posted (popped s p) [(p, answer_packet 200 (from_uid m) (muid m))] {} s1"
    using reply_code_ok [OF pop(1,2) ans] by blast
  have "clients (popped s p) q = None" using q(2) c by (auto simp: popped_def set_client_def)
  then have "clients s1 q = None" using s1(2) cores_live by (metis posted_def)
  then have "deref q s1 = Inl UseAfterFree" using q(3) by (simp add: deref_def)
  moreover obtain b where "packet_init (data (pdata ?n)) (dsize (pdata ?n)) (from_uid ?n) (to_uid ?n) 0 =
      Inr \<lparr>packtype = pt_code REQUEST, from_os = False, from_uid = from_uid ?n,
          to_uid = to_uid ?n, trav_fuid = 0, trav_tuid = 0, muid = 0, cmuid = 0, pdata = b\<rparr>"
    and b: "qb_wf b" "qb_bytes b = qb_bytes (pdata ?n)"
    by (rule packet_init_payload [of "pdata ?n" "from_uid ?n" "to_uid ?n" 0])
      (use packet_norm_wf [OF wf] in \<open>simp_all add: packet_wf_def\<close>)
  moreover obtain blk where "packet_serial ((relay_packet ?n (to_uid ?n) 0)\<lparr>pdata := b\<rparr>) = Inr blk"
    using packet_serial_as [OF relay_packet_wf [OF packet_norm_wf [OF wf]] refl b(1)] b(2)
    by (auto simp: relay_packet_def)
  ultimately have u: "dcn_unicast p q ?n s1 = Inl UseAfterFree"
    by (simp add: dcn_unicast_def relay_packet_def)
  have nb: "\<not> is_broadcast ?n" using bc(1) by (simp add: is_broadcast_def)
  then have "dispatch p ?n answer0 (dcn_clients ?serv) (popped s p) = Inl UseAfterFree"
    using ne bc i s1(1) u ans by (auto simp: dispatch_defs deliver_def)
  then show ?thesis using worker_pops [OF inv c f] d r by simp
qed

subsection \<open>Properties\<close>

text \<open>The first connection of a server, for the witnesses.\<close>

definition accept_event :: ep_event where
  "accept_event =
     \<lparr>evptr = 0, ev_hup = False, ev_in = True, ev_out = False,
      ev_conn = Some (5, ''10.0.0.1'', 7), ev_new = 1, ev_eok = True, ev_reads = [], ev_aok = True,
      ev_sok = True, ev_write = WouldBlock\<rparr>"

definition one_client :: net where
  "one_client = snd (accept_client (ev_conn accept_event) 1 True net_init)"

lemma reachable_one_client: "reachable (one_client, dcn_serv_init)"
proof (rule reachable.step [OF reachable.start])
  have "ev_ok net_init accept_event"
    by (simp add: ev_ok_def accept_event_def net_init_def)
  moreover have "handle_event dcn_acceptor dcn_disconnector accept_event (net_init, dcn_serv_init)
      = Some (Inr (Continue, one_client, dcn_serv_init))"
    by (simp add: handle_event_def on_accept_def accept_event_def accept_client_def Let_def
        dcn_acceptor_def one_client_def)
  ultimately show "dcn_step (net_init, dcn_serv_init) (one_client, dcn_serv_init)"
    by (rule dcn_step.event)
qed

lemma reachable_with_packet:
  "\<exists>s cli. reachable (s, dcn_serv_init) \<and> clients s 1 = Some cli \<and> inbox s 1 \<noteq> []"
proof -
  let ?ev = "demo_event 1 True [ReadBytes (packet_bytes (sample_packet 10 20)) True, ReadAgain] WouldBlock"
  have inv: "net_inv one_client" using reachable_inv [OF reachable_one_client] by (simp add: sys_inv_def)
  let ?cli = "\<lparr>fd = 5, read_q = queue_init, write_q = queue_init, alr_written = 0, intr_uid = 1,
      ip = ''10.0.0.1'', port = 7, cacc = qblock_init\<rparr>"
  have c: "clients one_client (evptr ?ev) = Some ?cli"
    by (simp add: one_client_def accept_client_def accept_event_def net_init_def Let_def)
  have rd: "nbep_read (ev_reads ?ev) [] = Some (0, packet_bytes (sample_packet 10 20), [])" by simp
  have "frames (qb_bytes (acc_append (ev_aok ?ev) (cacc ?cli) (packet_bytes (sample_packet 10 20))))
      = Some ([packet_bytes (sample_packet 10 20)], [])"
    using frames_packets [of "[sample_packet 10 20]" "[]"] by (simp add: next_frame_def)
  then obtain cli' where r: "on_readable dcn_disconnector ?ev ?cli (one_client, dcn_serv_init) =
      Some (Inr (Continue, (set_client (evptr ?ev) cli' one_client)
        \<lparr>tasks := tasks one_client @ replicate (length [packet_bytes (sample_packet 10 20)]) (evptr ?ev)\<rparr>,
        dcn_serv_init))"
    "contents (read_q cli') = contents (read_q ?cli) @ [packet_bytes (sample_packet 10 20)]"
    by (rule on_readable_extract [OF inv c rd disjI1 [OF refl]])
  let ?s = "(set_client 1 cli' one_client)\<lparr>tasks := tasks one_client @ [1]\<rparr>"
  have "handle_event dcn_acceptor dcn_disconnector ?ev (one_client, dcn_serv_init)
      = Some (Inr (Continue, ?s, dcn_serv_init))"
    using r(1) c by (simp add: handle_event_def)
  moreover have "ev_ok one_client ?ev" using c by (simp add: ev_ok_def)
  ultimately have "dcn_step (one_client, dcn_serv_init) (?s, dcn_serv_init)"
    by (intro dcn_step.event)
  then have "reachable (?s, dcn_serv_init)" by (rule reachable.step [OF reachable_one_client])
  moreover have "inbox ?s 1 \<noteq> []" using r(2) by (simp add: inbox_set_client)
  ultimately show ?thesis by (intro exI [of _ ?s] exI [of _ cli']) (simp add: set_client_def)
qed

text \<open>C11: in every state that the server can reach, whatever the clients send and in whatever order
  events and workers run, the interest list and the connections agree, every queue and accumulator is
  well-formed, and both registries are partial functions.\<close>

theorem reachable_consistent:
  assumes "reachable (s, serv)"
  shows "net_inv s \<and> map_ok (dcn_clients serv) \<and> map_ok (dcn_sessions serv)"
  using reachable_inv [OF assms] by (simp add: sys_inv_def)

theorem reachable_consistent_witness:
  "net_inv one_client \<and> map_ok (dcn_clients dcn_serv_init) \<and> map_ok (dcn_sessions dcn_serv_init)"
  by (rule reachable_consistent [OF reachable_one_client])

text \<open>C12: no received packet is forgotten: in every reachable state at least one worker is scheduled
  for each packet in a connection's read queue, so when the pool has run everything, every read queue
  is empty.\<close>

theorem every_packet_has_worker:
  assumes "reachable (s, serv)"
  shows "length (inbox s p) \<le> count_list (tasks s) p \<and> (tasks s = [] \<longrightarrow> inbox s p = [])"
  using reachable_inv [OF assms] fed_drained [of s p] by (simp add: sys_inv_def) (simp add: fed_def)

theorem every_packet_has_worker_witness:
  "length (inbox one_client 1) \<le> count_list (tasks one_client) 1 \<and> inbox one_client 1 = []"
  using every_packet_has_worker [OF reachable_one_client, of 1]
  by (simp add: one_client_def accept_client_def accept_event_def net_init_def Let_def)

text \<open>A connection that registered at most one UID is forgotten when it hangs up: every pointer
  that stays registered is a live connection, so the next workers can follow it.\<close>

theorem disconnect_forgets:
  assumes "net_inv s" and "reg_live s (dcn_clients serv)" and "clients s p = Some cli"
    and "evptr ev = p" and "ev_hup ev"
    and "\<forall>k k'. map_get (dcn_clients serv) k = Some p \<and> map_get (dcn_clients serv) k' = Some p
          \<longrightarrow> k = k'"
  shows "\<exists>s' serv'. handle_event dcn_acceptor dcn_disconnector ev (s, serv)
      = Some (Inr (Continue, s', serv'))
     \<and> clients s' = (clients s)(p := None) \<and> reg_live s' (dcn_clients serv')"
proof -
  have p0: "p \<noteq> 0" using net_inv_client [OF assms(1,3)] by blast
  have "handle_event dcn_acceptor dcn_disconnector ev (s, serv)
      = Some (Inr (Continue, drop_state s p cli, dcn_disconnector p serv))"
    using drop_client_ok [OF assms(1,3), of dcn_disconnector serv] assms(3-5) p0
    by (simp add: handle_event_def drop_state_def)
  moreover have "reg_live (drop_state s p cli) (dcn_clients (dcn_disconnector p serv))"
    by (rule disconnect_single [OF assms(2,3)]) (use assms(6) in blast)
  ultimately show ?thesis by (simp add: drop_state_def)
qed

theorem disconnect_forgets_witness:
  "\<exists>s' serv'. handle_event dcn_acceptor dcn_disconnector
       ((demo_event 2 False [] WouldBlock)\<lparr>ev_hup := True\<rparr>) (demo_net [] [], demo_serv)
     = Some (Inr (Continue, s', serv')) \<and> clients s' 2 = None \<and> reg_live s' (dcn_clients serv')"
proof -
  have "\<forall>k k'. map_get (dcn_clients demo_serv) k = Some 2 \<and> map_get (dcn_clients demo_serv) k' = Some 2
          \<longrightarrow> k = k'"
    by (auto split: if_splits)
  then show ?thesis
    using disconnect_forgets [of "demo_net [] []" demo_serv 2 "demo_client 6 [] []"
      "(demo_event 2 False [] WouldBlock)\<lparr>ev_hup := True\<rparr>"]
    by (fastforce simp: demo_event_def)
qed

text \<open>C33: a connection that registered two UIDs leaves a dangling pointer behind when it hangs up:
  one of the UIDs stays registered to the freed client, and the worker for the next packet to that UID
  from another connection reads freed memory.\<close>

theorem disconnect_dangles:
  assumes "net_inv s" and "map_ok (dcn_clients serv)" and "clients s q = Some cli"
    and "evptr ev = q" and "ev_hup ev" and "k \<noteq> k'"
    and "map_get (dcn_clients serv) k = Some q" and "map_get (dcn_clients serv) k' = Some q"
  shows "\<exists>s' serv' u. handle_event dcn_acceptor dcn_disconnector ev (s, serv)
      = Some (Inr (Continue, s', serv'))
     \<and> u \<in> {k, k'} \<and> map_get (dcn_clients serv') u = Some q \<and> clients s' q = None
     \<and> (\<forall>p m fs pack0 answer0. p \<noteq> q \<longrightarrow> inbox s p = packet_bytes m # fs \<longrightarrow> packet_wf m \<longrightarrow>
          to_uid m = u \<longrightarrow> from_uid m \<noteq> u \<longrightarrow> packtype m = pt_code REQUEST \<longrightarrow>
          map_get (dcn_clients serv') (from_uid m) = None \<longrightarrow>
          dcn_async_worker pack0 answer0 p (s', serv') = Inl UseAfterFree)"
proof -
  let ?s = "drop_state s q cli" and ?serv = "dcn_disconnector q serv"
  have q0: "q \<noteq> 0" using net_inv_client [OF assms(1,3)] by blast
  have h: "handle_event dcn_acceptor dcn_disconnector ev (s, serv) = Some (Inr (Continue, ?s, ?serv))"
    using drop_client_ok [OF assms(1,3), of dcn_disconnector serv] assms(3-5) q0
    by (simp add: handle_event_def drop_state_def)
  obtain u where u: "u \<in> {k, k'}" "map_get (dcn_clients ?serv) u = Some q"
    using disconnect_double [OF assms(2,6,7,8)] by blast
  have inv: "net_inv ?s" using close_client_ok(2) [OF assms(1,3)] by (simp add: drop_state_def)
  have dead: "clients ?s q = None" by (simp add: drop_state_def)
  have uaf: "dcn_async_worker pack0 answer0 p (?s, ?serv) = Inl UseAfterFree"
    if m: "p \<noteq> q" "inbox s p = packet_bytes m # fs" "packet_wf m" "to_uid m = u" "from_uid m \<noteq> u"
      "packtype m = pt_code REQUEST" "map_get (dcn_clients ?serv) (from_uid m) = None"
    for p m fs pack0 answer0
  proof -
    obtain c where c: "clients s p = Some c" using m(2) by (cases "clients s p") (auto simp: inbox_def)
    have c': "clients ?s p = Some c" using c m(1) by (simp add: drop_state_def)
    have ib: "inbox ?s p = packet_bytes m # fs"
      using m(2) inbox_client [OF c] inbox_client [OF c'] by simp
    show ?thesis
      by (rule worker_dangling [OF inv c' ib m(3) _ _ _ map_ok_disconnector [OF assms(2)] _ _ dead q0])
        (use m u(2) in \<open>simp_all add: is_broadcast_def\<close>)
  qed
  show ?thesis
    using h u dead uaf by blast
qed

definition two_uids :: dcn_server where
  "two_uids = dcn_serv_init\<lparr>dcn_clients := map_put 21 2 (map_put 20 2 (map_init 8 8))\<rparr>"

theorem disconnect_dangles_witness:
  "\<exists>s' serv' u. handle_event dcn_acceptor dcn_disconnector
       ((demo_event 2 False [] WouldBlock)\<lparr>ev_hup := True\<rparr>) (demo_net [] [], two_uids)
     = Some (Inr (Continue, s', serv')) \<and> map_get (dcn_clients serv') u = Some 2 \<and> clients s' 2 = None"
proof -
  have "map_ok (dcn_clients two_uids)" "map_get (dcn_clients two_uids) 20 = Some 2"
    "map_get (dcn_clients two_uids) 21 = Some 2"
    by (simp_all add: two_uids_def dcn_serv_init_def map_get_put)
  then show ?thesis
    using disconnect_dangles [of "demo_net [] []" two_uids 2 "demo_client 6 [] []"
      "(demo_event 2 False [] WouldBlock)\<lparr>ev_hup := True\<rparr>" 20 21]
    by (auto simp: demo_event_def)
qed

text \<open>Hanging up does not take back the workers already scheduled: in every reachable state, a
  connection that closes with a packet in its read queue leaves such a worker in the pool, and that
  worker reads the freed client.\<close>

theorem closed_connection_worker_faults:
  assumes "reachable (s, serv)" and "clients s p = Some cli" and "inbox s p \<noteq> []"
    and "evptr ev = p" and "ev_hup ev"
  shows "\<exists>s' serv'. handle_event dcn_acceptor dcn_disconnector ev (s, serv)
      = Some (Inr (Continue, s', serv')) \<and> p \<in> set (tasks s')
     \<and> dcn_async_worker pack0 answer0 p (s', serv') = Inl UseAfterFree"
proof -
  have inv: "net_inv s" and f: "fed s" using reachable_inv [OF assms(1)] by (simp_all add: sys_inv_def)
  have p0: "p \<noteq> 0" using net_inv_client [OF inv assms(2)] by blast
  have h: "handle_event dcn_acceptor dcn_disconnector ev (s, serv)
      = Some (Inr (Continue, drop_state s p cli, dcn_disconnector p serv))"
    using drop_client_ok [OF inv assms(2), of dcn_disconnector serv] assms(2,4,5) p0
    by (simp add: handle_event_def drop_state_def)
  have "0 < count_list (tasks s) p"
    using f assms(3) by (metis fed_def length_greater_0_conv less_le_trans)
  then have "p \<in> set (tasks s)" by (metis count_notin less_irrefl)
  then show ?thesis
    using h worker_closed [of "drop_state s p cli" p pack0 answer0 "dcn_disconnector p serv"] p0
    by (simp add: drop_state_def)
qed

theorem closed_connection_worker_faults_witness:
  "\<exists>s s' serv'. reachable (s, dcn_serv_init)
     \<and> handle_event dcn_acceptor dcn_disconnector
         ((demo_event 1 False [] WouldBlock)\<lparr>ev_hup := True\<rparr>) (s, dcn_serv_init)
       = Some (Inr (Continue, s', serv'))
     \<and> dcn_async_worker (sample_packet 0 0) (sample_packet 0 0) 1 (s', serv') = Inl UseAfterFree"
proof -
  obtain s cli where s: "reachable (s, dcn_serv_init)" "clients s 1 = Some cli" "inbox s 1 \<noteq> []"
    using reachable_with_packet by blast
  have "evptr ((demo_event 1 False [] WouldBlock)\<lparr>ev_hup := True\<rparr>) = 1"
    "ev_hup ((demo_event 1 False [] WouldBlock)\<lparr>ev_hup := True\<rparr>)"
    by (simp_all add: demo_event_def)
  from closed_connection_worker_faults [OF s this, of "sample_packet 0 0" "sample_packet 0 0"] s(1)
  show ?thesis by blast
qed

end
