(* ===== verification/ClientNumbers.thy ===== *)
theory ClientNumbers
  imports ClientSystem
begin

text \<open>
  The numbers that requests to a user and their responses carry (\<open>cmuid\<close>), over the whole life
  of a client: \<open>last_c_muids\<close> is read by \<open>request\<close> and never advanced.
\<close>

subsection \<open>Only a first request writes a number\<close>

lemma take_cmuids: "async_req_take pack s = Inr (k, s') \<Longrightarrow> last_c_muids s' = last_c_muids s"
  by (auto simp: async_req_take_def bind_res_Inr_iff Let_def split: option.splits)

lemma acked_cmuids: "async_req_acked pack s = Inr (k, s') \<Longrightarrow> last_c_muids s' = last_c_muids s"
  by (auto simp: async_req_acked_def Let_def lock_ur_def split: if_splits option.splits dest!: take_cmuids)

lemma done_cmuids: "exch_done e j pack answer rcode s = Inr (k, s') \<Longrightarrow> last_c_muids s' = last_c_muids s"
  by (auto simp: exch_done_defs bind_res_Inr_iff split: job.splits if_splits dest!: acked_cmuids)

lemma exch_cmuids: "exch_step e j pack x s = Some (Inr (k, s')) \<Longrightarrow> last_c_muids s' = last_c_muids s"
  by (cases x)
    (auto simp: dcn_post_def dcn_watch_def wait_response_def dcn_getresp_def bind_res_Inr_iff Let_def
      split: option.splits if_splits dest!: done_cmuids)

lemma pop_cmuids: "pop_request u s = Inr (p, s') \<Longrightarrow> last_c_muids s' = last_c_muids s"
  by (auto simp: pop_request_def bind_res_Inr_iff Let_def split: option.splits if_splits)

lemma misc_loop_cmuids: "misc_loop is s = Inr (p, s') \<Longrightarrow> last_c_muids s' = last_c_muids s"
proof (induction "is" s arbitrary: p s' rule: misc_loop.induct)
  case (2 i "is" s)
  then show ?case
    by (auto simp: bind_res_Inr_iff split: option.splits prod.splits dest!: pop_cmuids)
qed simp

lemma result_cmuids: "packet_result r = (k, s') \<Longrightarrow> s' = snd r"
  by (cases r; cases "fst r") (auto simp: packet_result_def)

lemma coro_cmuids: "coro_step e k s = Some (Inr (k', s')) \<Longrightarrow> last_c_muids s' = last_c_muids s"
proof (cases k)
  case (CExch j p x)
  then show "coro_step e k s = Some (Inr (k', s')) \<Longrightarrow> ?thesis" using exch_cmuids by simp
qed (auto simp: async_req_begin_def from_step_def misc_step_def gtraceroutes_step_def bind_res_Inr_iff Let_def
    split: option.splits if_splits dest!: take_cmuids pop_cmuids misc_loop_cmuids result_cmuids)

definition numbers_inv :: "csys \<Rightarrow> bool" where
  "numbers_inv st \<longleftrightarrow> csys_inv st \<and> cmuids_zero (ses st)"

lemma numbers_step:
  assumes inv: "numbers_inv st" and step: "cstep st st'"
  shows "numbers_inv st'"
proof -
  have ci: "csys_inv st" and z: "cmuids_zero (ses st)" using inv by (simp_all add: numbers_inv_def)
  have "cmuids_zero (ses st')"
    using step
  proof (cases rule: cstep.cases)
    case (c_poll ev c q)
    then show ?thesis using z by (simp add: cmuids_zero_def with_queues_def)
  next
    case (c_message n trp0 s)
    then have "kept (ses st) s" using message_ok [OF ci c_message(2), of trp0] by force
    then show ?thesis using z c_message by (simp add: cmuids_zero_def kept_def)
  next
    case (c_start i k s)
    from c_start(3) have "cmuids_zero s"
      by (cases rule: starts.cases) (use z request_cases(1) [OF z] in auto)
    then show ?thesis using c_start by simp
  next
    case (c_move i k e k' s)
    then show ?thesis using z coro_cmuids [OF c_move(4)] by (simp add: cmuids_zero_def)
  qed
  with cstep_inv [OF ci step] show ?thesis by (simp add: numbers_inv_def)
qed

interpretation num: invariant_of csys_init cstep numbers_inv
proof
  show "numbers_inv st" if "csys_init st" for st
    using that csys_inv_init [OF that] by (auto simp: numbers_inv_def csys_init_def)
  show "numbers_inv t" if "numbers_inv s" and "cstep s t" for s t
    by (rule numbers_step [OF that])
qed

lemma creach_zero: "creach st \<Longrightarrow> cmuids_zero (ses st)"
  using num.reach_inv [of st] by (simp add: numbers_inv_def)

subsection \<open>Properties\<close>

text \<open>A client that has never asked a user cannot answer that user's requests: \<open>request\<close> with
  packet type \<open>RESPONSE\<close> answers \<open>NULL\<close> and nothing is sent.\<close>

theorem responder_cannot_answer:
  assumes "creach st" and "to \<noteq> 0" and "map_get (last_c_muids (ses st)) to = None"
  shows "fst (snd (request pack to trv (pt_code RESPONSE) (ses st))) = None"
  using request_cases(2) [OF creach_zero [OF assms(1)], of pack to trv "pt_code RESPONSE"] assms(2,3)
  by (cases "request pack to trv (pt_code RESPONSE) (ses st)") auto

theorem responder_cannot_answer_witness:
  "fst (snd (request (sample_packet 7 9) 9 0 (pt_code RESPONSE) (dcn_new_session 7))) = None"
  using responder_cannot_answer [OF creach_started [of 7], of 9 "sample_packet 7 9" 0]
  by (simp add: started_def dcn_new_session_def)

end
