(* ===== verification/EndToEnd.thy ===== *)
theory EndToEnd
  imports ServerSystem ClientNumbers
begin

text \<open>
  Client and server together: what the worker of theory DcnServer posts for a packet that a
  client of theory ClientSystem sent is what the receiving client's handler turns into a wake-up,
  an entry of its mailbox, and the result of the call that waits.
\<close>

lemma answer_is_server_answer: "answer_packet = server_answer"
  by (simp add: answer_packet_def server_answer_def fun_eq_iff)

lemma answer_packet_simps [simp]:
  "to_uid (answer_packet c u m) = u" "from_uid (answer_packet c u m) = 0" "muid (answer_packet c u m) = m"
  "from_os (answer_packet c u m) = False" "msg_ok (answer_packet c u m)"
  by (simp_all add: answer_is_server_answer) (simp_all add: server_answer_def)

lemma relay_packet_simps [simp]:
  "to_uid (relay_packet p u t) = u" "from_uid (relay_packet p u t) = from_uid p" "from_os (relay_packet p u t)"
  "packtype (relay_packet p u t) = packtype p" "cmuid (relay_packet p u t) = cmuid p"
  "is_response_pack (relay_packet p u t) = is_response_pack p"
  by (simp_all add: relay_packet_def is_response_pack_def)

lemma relay_msg_ok [simp]: "packet_wf p \<Longrightarrow> msg_ok (relay_packet p u t)"
  by (simp add: msg_ok_def)

lemma answer_code_answer:
  "answer_code (packet_norm (answer_packet c u m)) = resp_code c"
  by (simp add: answer_code_def packet_norm_def answer_packet_def u32_codec.dec_enc)

text \<open>Every packet is answered to its sender, under its message number: with 101 or with 200.\<close>

definition ack_code :: "packet \<Rightarrow> (ullong, addr) cmap \<Rightarrow> 32 word" where
  "ack_code m reg =
     (if to_uid m = 0 \<and> (packtype m = pt_code PING \<or> is_broadcast m) then 200
      else if map_get reg (to_uid m) = None then 101 else 200)"

lemma worker_spec_ack:
  "(p, answer_packet (ack_code m reg) (from_uid m) (muid m)) \<in> set (fst (worker_spec p m reg))"
  by (auto simp: worker_spec_def ack_code_def Let_def split: option.splits)

text \<open>The client's half of an exchange: the answer's handler, then the call it wakes.\<close>

definition waits_for :: "session \<Rightarrow> addr \<Rightarrow> ullong \<Rightarrow> bool" where
  "waits_for c a m \<longleftrightarrow> map_get (cnd_responses c) m = Some a \<and> sole_user c a m"

lemma answered_exchange:
  assumes ok: "sess_ok c" and w: "waits_for c a (muid m)"
    and q: "contents (readq c) = packet_bytes (answer_packet code (cli_uid c) (muid m)) # fs"
  obtains c1 c2 where "dcn_on_message trp0 c = Inr c1" "sess_ok c1"
    "exch_step e j m (XWait a) c1 = Some (exch_done e j m
       ((stored_packet (packet_norm (answer_packet code (cli_uid c) (muid m))))\<lparr>cmuid := cmuid (junk_pack e)\<rparr>) (resp_code code) c2)"
    "sess_ok c2" "mb_replies (mailbox c2) = mb_replies (mailbox c)"
proof -
  let ?ans = "answer_packet code (cli_uid c) (muid m)"
  obtain c1 where c1: "dcn_on_message trp0 c = Inr c1" "sess_ok c1" "kept c c1"
    "mailbox c1 = receive (cli_uid c) ?ans (mailbox c)" "only_woke c (woken_by ?ans c) c1"
    by (rule on_message_ok [OF ok q, of trp0]) simp
  have aw: "awake c1 a" using c1(5) w by (simp add: only_woke_def woken_by_def waits_for_def)
  have sole: "sole_user c1 a (muid m)" using w c1(3) by (simp add: waits_for_def sole_user_def kept_def)
  have p: "map_get (responses c1) (muid m) = Some (packet_norm ?ans)"
    using c1(4) by (simp add: receive_def mailbox_def)
  obtain c2 where c2: "exch_step e j m (XWait a) c1 = Some (exch_done e j m
       ((stored_packet (packet_norm ?ans))\<lparr>cmuid := cmuid (junk_pack e)\<rparr>) (answer_code (packet_norm ?ans)) c2)"
    "sess_ok c2" "mailbox c2 = drop_answer (muid m) (mailbox c1)"
    by (rule exch_answered [OF c1(2) aw sole p])
  have "mb_replies (mailbox c2) = mb_replies (mailbox c)"
    using c2(3) c1(4) by (simp add: drop_answer_def receive_def)
  then show thesis using that c1(1,2) c2(1,2) answer_code_answer by metis
qed

subsection \<open>Properties\<close>

text \<open>C6: A ping returns: for the packet that \<open>ping\<close> posts the server's worker posts the answer 200
  back on the same connection, and that answer, once it is in the client's read queue, ends the
  call.\<close>

theorem ping_round_trip:
  assumes "net_inv s" and "reg_live s (dcn_clients serv)" and "clients s p \<noteq> None"
    and "inbox s p = packet_bytes m # fs"
    and "m = addressed c 0 (ping_packet (cli_uid c))" and "cli_uid c \<noteq> 0"
    and "sess_ok c'" and "cli_uid c' = cli_uid c" and "waits_for c' a (muid m)"
    and "contents (readq c') = packet_bytes (answer_packet 200 (cli_uid c) (muid m)) # gs"
  shows "\<exists>s' serv' c1 c2. dcn_async_worker pack0 answer0 p (s, serv) = Inr (s', serv')
     \<and> outbox s' p = outbox s p @ [packet_bytes (answer_packet 200 (cli_uid c) (muid m))]
     \<and> mode_of s' p = Some ModOut \<and> dcn_on_message trp0 c' = Inr c1
     \<and> coro_step e (CExch JPing m (XWait a)) c1 = Some (Inr (CDone RNull, c2))"
proof -
  have wf: "packet_wf m" and ne: "from_uid m \<noteq> to_uid m" and ty: "to_uid m = 0" "packtype m = pt_code PING"
    and src: "from_uid m = cli_uid c"
    using assms(5,6) by (simp_all add: ping_packet_def packet_wf_def qblock_init_def qb_wf_def)
  have sp: "worker_spec p m reg = ([(p, answer_packet 200 (cli_uid c) (muid m))], {p})" for reg
    using ty src by (simp add: worker_spec_def Let_def)
  obtain s' where s': "dcn_async_worker pack0 answer0 p (s, serv) = Inr (s', registered s p m serv)"
    "posted (popped s p) (fst (worker_spec p m (dcn_clients (registered s p m serv))))
         (snd (worker_spec p m (dcn_clients (registered s p m serv)))) s'"
    using worker_ok [OF assms(1-4) wf ne] by blast
  have q: "contents (readq c') = packet_bytes (answer_packet 200 (cli_uid c') (muid m)) # gs"
    using assms(8,10) by simp
  obtain c1 c2 where c: "dcn_on_message trp0 c' = Inr c1"
    "exch_step e JPing m (XWait a) c1 = Some (exch_done e JPing m
       ((stored_packet (packet_norm (answer_packet 200 (cli_uid c') (muid m))))\<lparr>cmuid := cmuid (junk_pack e)\<rparr>) (resp_code 200) c2)"
    by (rule answered_exchange [OF assms(7,9) q, of trp0 e JPing]) blast
  then have "coro_step e (CExch JPing m (XWait a)) c1 = Some (Inr (CDone RNull, c2))"
    by (simp add: exch_done_defs resp_code.simps)
  then show ?thesis
    using s'(1) posted_popped [OF s'(2)] assms(3) c(1) sp
    by (intro exI [of _ s'] exI [of _ "registered s p m serv"] exI [of _ c1] exI [of _ c2]) simp
qed

text \<open>A client of UID 7 whose request number 1 waits, with the answer in its read queue.\<close>

definition expecting :: "32 word \<Rightarrow> session" where
  "expecting code = (dcn_new_session 7)\<lparr>waiters := [1 \<mapsto> waiter_init], cnd_responses := map_put 1 1 (map_init 8 8),
     readq := enqueue queue_init (mk_block (packet_bytes (answer_packet code 7 1)))\<rparr>"

lemma expecting_ok:
  "sess_ok (expecting code)" "waits_for (expecting code) 1 1" "cli_uid (expecting code) = 7"
  "contents (readq (expecting code)) = [packet_bytes (answer_packet code 7 1)]"
proof -
  have "qb_wf (mk_block (packet_bytes (answer_packet code 7 1)))" and "queue_inv queue_init" by simp_all
  note st = push_block_step(2,3) [OF this(2,1)]
  have none: "map_get (usr_waiters (dcn_new_session 7)) u = None" for u by (simp add: dcn_new_session_def)
  have "sess_ok (dcn_new_session 7)" by simp
  then show "sess_ok (expecting code)"
    using st(1) unfolding expecting_def by (simp add: sess_ok_def waiter_live_def map_get_put none)
  show "contents (readq (expecting code)) = [packet_bytes (answer_packet code 7 1)]"
    using st(2) by (simp add: expecting_def)
  show "waits_for (expecting code) 1 1" "cli_uid (expecting code) = 7"
    by (simp_all add: waits_for_def sole_user_def expecting_def map_get_put none) (simp add: dcn_new_session_def)
qed

theorem ping_round_trip_witness:
  "\<exists>s' serv' c1 c2. dcn_async_worker (sample_packet 0 0) (sample_packet 0 0) 1
       (demo_net [packet_bytes (addressed (dcn_new_session 7) 0 (ping_packet 7))] [], demo_serv) = Inr (s', serv')
     \<and> outbox s' 1 = [packet_bytes (answer_packet 200 7 1)]
     \<and> dcn_on_message \<lparr>is_response = False, success = False, req_uid = 0\<rparr> (expecting 200) = Inr c1
     \<and> coro_step (env_with 2 3) (CExch JPing (addressed (dcn_new_session 7) 0 (ping_packet 7)) (XWait 1)) c1
         = Some (Inr (CDone RNull, c2))"
proof -
  let ?m = "addressed (dcn_new_session 7) 0 (ping_packet 7)"
  let ?s = "demo_net [packet_bytes ?m] []"
  have f: "cli_uid (dcn_new_session 7) = 7" "last_muid (dcn_new_session 7) = 1" by (simp_all add: dcn_new_session_def)
  have hyps: "net_inv ?s" "reg_live ?s (dcn_clients demo_serv)" "clients ?s 1 \<noteq> None" "inbox ?s 1 = packet_bytes ?m # []"
    "?m = addressed (dcn_new_session 7) 0 (ping_packet (cli_uid (dcn_new_session 7)))" "cli_uid (dcn_new_session 7) \<noteq> 0"
    "sess_ok (expecting 200)" "cli_uid (expecting 200) = cli_uid (dcn_new_session 7)" "waits_for (expecting 200) 1 (muid ?m)"
    "contents (readq (expecting 200)) = packet_bytes (answer_packet 200 (cli_uid (dcn_new_session 7)) (muid ?m)) # []"
    using expecting_ok [of 200] by (simp_all add: f)
  from ping_round_trip [OF hyps, of "sample_packet 0 0" "sample_packet 0 0"
      "\<lparr>is_response = False, success = False, req_uid = 0\<rparr>" "env_with 2 3"]
  show ?thesis by (simp add: f del: coro_step.simps) blast
qed

text \<open>Whatever the server knows, a traceroute returns \<open>NULL\<close>: the worker answers the request
  packet with a four-byte code and hands it to nobody, and the call takes that code for a record of
  the wrong size.\<close>

theorem traceroute_round_trip_null:
  assumes "net_inv s" and "reg_live s (dcn_clients serv)" and "clients s p \<noteq> None"
    and "inbox s p = packet_bytes m # fs" and "packet_wf m"
    and "m = addressed c 0 m0" and "packtype m0 = pt_code TRACEROUTE" and "cli_uid c \<noteq> 0"
    and "map_get (dcn_clients serv) 0 = None"
    and "sess_ok c'" and "cli_uid c' = cli_uid c" and "waits_for c' a (muid m)"
    and "contents (readq c') = packet_bytes (answer_packet 101 (cli_uid c) (muid m)) # gs"
  shows "\<exists>s' serv' c1 c2. dcn_async_worker pack0 answer0 p (s, serv) = Inr (s', serv')
     \<and> outbox s' p = outbox s p @ [packet_bytes (answer_packet 101 (cli_uid c) (muid m))]
     \<and> (\<forall>r. r \<noteq> p \<longrightarrow> outbox s' r = outbox s r) \<and> dcn_on_message trp0 c' = Inr c1
     \<and> coro_step e (CExch JTrace m (XWait a)) c1 = Some (Inr (CDone RNull, c2))"
proof -
  have ne: "from_uid m \<noteq> to_uid m" and ty: "to_uid m = 0" "packtype m = pt_code TRACEROUTE"
    and src: "from_uid m = cli_uid c"
    using assms(6-8) by simp_all
  let ?serv = "registered s p m serv"
  have ok: "map_ok (dcn_clients serv)" using assms(2) by (simp add: reg_live_def)
  have none: "map_get (dcn_clients ?serv) 0 = None"
    using assms(8,9) src ok by (simp add: registered_def Let_def map_get_put)
  have sp: "worker_spec p m (dcn_clients ?serv) = ([(p, answer_packet 101 (cli_uid c) (muid m))], {p})"
    using ty src none by (simp add: worker_spec_def Let_def is_broadcast_def)
  obtain s' where s': "dcn_async_worker pack0 answer0 p (s, serv) = Inr (s', ?serv)"
    "posted (popped s p) (fst (worker_spec p m (dcn_clients ?serv)))
         (snd (worker_spec p m (dcn_clients ?serv))) s'"
    using worker_ok [OF assms(1-5) ne] by blast
  have q: "contents (readq c') = packet_bytes (answer_packet 101 (cli_uid c') (muid m)) # gs"
    using assms(11,13) by simp
  obtain c1 c2 where c: "dcn_on_message trp0 c' = Inr c1"
    "exch_step e JTrace m (XWait a) c1 = Some (exch_done e JTrace m
       ((stored_packet (packet_norm (answer_packet 101 (cli_uid c') (muid m))))\<lparr>cmuid := cmuid (junk_pack e)\<rparr>) (resp_code 101) c2)"
    by (rule answered_exchange [OF assms(10,12) q, of trp0 e JTrace]) blast
  have "dsize (pdata (answer_packet 101 u n)) = 4" for u n by (simp add: answer_packet_def)
  then have "dsize (pdata (stored_packet (packet_norm (answer_packet 101 u n)))) = 4" for u n
    by (simp add: stored_packet_def packet_norm_def) (simp add: answer_packet_def)
  then have "coro_step e (CExch JTrace m (XWait a)) c1 = Some (Inr (CDone RNull, c2))"
    using c(2) by (simp add: exch_done_defs trp_offset_def)
  then show ?thesis
    using s'(1) posted_popped [OF s'(2)] c(1) sp
    by (intro exI [of _ s'] exI [of _ ?serv] exI [of _ c1] exI [of _ c2]) simp
qed

theorem traceroute_round_trip_null_witness:
  "\<exists>s' serv' c1 c2. dcn_async_worker (sample_packet 0 0) (sample_packet 0 0) 1
       (demo_net [packet_bytes (addressed (dcn_new_session 7) 0 ((sample_packet 7 0)\<lparr>packtype := pt_code TRACEROUTE\<rparr>))] [],
        demo_serv) = Inr (s', serv')
     \<and> outbox s' 1 = [packet_bytes (answer_packet 101 7 1)]
     \<and> dcn_on_message \<lparr>is_response = False, success = False, req_uid = 0\<rparr> (expecting 101) = Inr c1
     \<and> coro_step (env_with 2 3) (CExch JTrace (addressed (dcn_new_session 7) 0
          ((sample_packet 7 0)\<lparr>packtype := pt_code TRACEROUTE\<rparr>)) (XWait 1)) c1 = Some (Inr (CDone RNull, c2))"
proof -
  let ?raw = "(sample_packet 7 0)\<lparr>packtype := pt_code TRACEROUTE\<rparr>"
  let ?m = "addressed (dcn_new_session 7) 0 ?raw"
  let ?s = "demo_net [packet_bytes ?m] []"
  have f: "cli_uid (dcn_new_session 7) = 7" "last_muid (dcn_new_session 7) = 1" by (simp_all add: dcn_new_session_def)
  have wf: "packet_wf ?m" using sample_packet_wf [of 7 0] by (simp add: packet_wf_def)
  have hyps: "net_inv ?s" "reg_live ?s (dcn_clients demo_serv)" "clients ?s 1 \<noteq> None" "inbox ?s 1 = packet_bytes ?m # []"
    "packet_wf ?m" "?m = addressed (dcn_new_session 7) 0 ?raw" "packtype ?raw = pt_code TRACEROUTE"
    "cli_uid (dcn_new_session 7) \<noteq> 0" "map_get (dcn_clients demo_serv) 0 = None"
    "sess_ok (expecting 101)" "cli_uid (expecting 101) = cli_uid (dcn_new_session 7)" "waits_for (expecting 101) 1 (muid ?m)"
    "contents (readq (expecting 101)) = packet_bytes (answer_packet 101 (cli_uid (dcn_new_session 7)) (muid ?m)) # []"
    using expecting_ok [of 101] wf by (simp_all add: f)
  from traceroute_round_trip_null [OF hyps, of "sample_packet 0 0" "sample_packet 0 0"
      "\<lparr>is_response = False, success = False, req_uid = 0\<rparr>" "env_with 2 3"]
  show ?thesis by (simp add: f del: coro_step.simps) blast
qed

text \<open>C8: A packet that one client sends another and the server relays arrives in the other's mailbox:
  a request at the end of the sender's queue, a response under the sender's request number, with
  the payload as it was.\<close>

theorem user_packet_delivered:
  assumes "net_inv s" and "reg_live s (dcn_clients serv)" and "clients s p \<noteq> None"
    and "inbox s p = packet_bytes m # fs" and "packet_wf m" and "from_uid m \<noteq> to_uid m"
    and "to_uid m \<noteq> 0" and "\<not> is_broadcast m"
    and "map_get (dcn_clients serv) (to_uid m) = Some q" and "q \<noteq> p"
    and "sess_ok c" and "cli_uid c = to_uid m"
    and "contents (readq c) = packet_bytes (relay_packet m (to_uid m) 0) # gs"
  shows "\<exists>s' serv' c1. dcn_async_worker pack0 answer0 p (s, serv) = Inr (s', serv')
     \<and> outbox s' q = outbox s q @ [packet_bytes (relay_packet m (to_uid m) 0)]
     \<and> dcn_on_message trp0 c = Inr c1 \<and> sess_ok c1
     \<and> (if is_response_pack m
        then user_replies c1 (from_uid m) (cmuid m) = Some (stored_packet (relay_packet m (to_uid m) 0))
        else user_requests c1 (from_uid m)
          = user_requests c (from_uid m) @ [packet_bytes (relay_packet m (to_uid m) 0)])"
proof -
  let ?serv = "registered s p m serv"
  have ok: "map_ok (dcn_clients serv)" using assms(2) by (simp add: reg_live_def)
  have qq: "map_get (dcn_clients ?serv) (to_uid m) = Some q"
    using assms(6,9) ok by (simp add: registered_def Let_def map_get_put)
  have sp: "worker_spec p m (dcn_clients ?serv)
      = ([(p, answer_packet 200 (from_uid m) (muid m)), (q, relay_packet m (to_uid m) 0)], {p})"
    using qq assms(7,8) by (simp add: worker_spec_def Let_def)
  obtain s' where s': "dcn_async_worker pack0 answer0 p (s, serv) = Inr (s', ?serv)"
    "posted (popped s p) (fst (worker_spec p m (dcn_clients ?serv)))
         (snd (worker_spec p m (dcn_clients ?serv))) s'"
    using worker_ok [OF assms(1-6)] by blast
  have mo: "msg_ok (relay_packet m (to_uid m) 0)" using assms(5) by simp
  obtain c1 where c1: "dcn_on_message trp0 c = Inr c1" "sess_ok c1"
    "mailbox c1 = receive (cli_uid c) (relay_packet m (to_uid m) 0) (mailbox c)"
    by (rule on_message_ok [OF assms(11,13) mo, of trp0])
  have "user_requests c1 = mb_requests (mailbox c1)" "user_replies c1 = mb_replies (mailbox c1)"
    "user_requests c = mb_requests (mailbox c)"
    by (simp_all add: mailbox_def)
  then show ?thesis
    using s'(1) posted_popped [OF s'(2)] assms(10,12) c1 sp
    by (intro exI [of _ s'] exI [of _ ?serv] exI [of _ c1]) (simp add: receive_def)
qed

text \<open>A session that has received one packet.\<close>

definition having :: "ullong \<Rightarrow> packet \<Rightarrow> session" where
  "having uid p = (dcn_new_session uid)\<lparr>readq := enqueue queue_init (mk_block (packet_bytes p))\<rparr>"

lemma having_ok:
  "sess_ok (having uid p)" "cli_uid (having uid p) = uid" "contents (readq (having uid p)) = [packet_bytes p]"
  "user_requests (having uid p) u = []"
proof -
  have "qb_wf (mk_block (packet_bytes p))" and "queue_inv queue_init" by simp_all
  note st = push_block_step(2,3) [OF this(2,1)]
  have "sess_ok (dcn_new_session uid)" by simp
  then show "sess_ok (having uid p)"
    using st(1) unfolding having_def by (simp add: sess_ok_def waiter_live_def)
  show "contents (readq (having uid p)) = [packet_bytes p]" using st(2) by (simp add: having_def)
  show "cli_uid (having uid p) = uid" "user_requests (having uid p) u = []"
    by (simp_all add: having_def dcn_new_session_def user_requests_def)
qed

theorem user_packet_delivered_witness:
  "\<exists>s' serv' c1. dcn_async_worker (sample_packet 0 0) (sample_packet 0 0) 1
       (demo_net [packet_bytes (sample_packet 10 20)] [], demo_serv) = Inr (s', serv')
     \<and> dcn_on_message \<lparr>is_response = False, success = False, req_uid = 0\<rparr>
         (having 20 (relay_packet (sample_packet 10 20) 20 0)) = Inr c1
     \<and> user_requests c1 10 = [packet_bytes (relay_packet (sample_packet 10 20) 20 0)]"
proof -
  let ?m = "sample_packet 10 20"
  let ?s = "demo_net [packet_bytes ?m] []" and ?c = "having 20 (relay_packet ?m 20 0)"
  have hyps: "net_inv ?s" "reg_live ?s (dcn_clients demo_serv)" "clients ?s 1 \<noteq> None" "inbox ?s 1 = packet_bytes ?m # []"
    "packet_wf ?m" "from_uid ?m \<noteq> to_uid ?m" "to_uid ?m \<noteq> 0" "\<not> is_broadcast ?m"
    "map_get (dcn_clients demo_serv) (to_uid ?m) = Some 2" "(2 :: addr) \<noteq> 1" "sess_ok ?c" "cli_uid ?c = to_uid ?m"
    "contents (readq ?c) = packet_bytes (relay_packet ?m (to_uid ?m) 0) # []"
    by (simp_all add: having_ok is_broadcast_def)
  from user_packet_delivered [OF hyps, of "sample_packet 0 0" "sample_packet 0 0"
      "\<lparr>is_response = False, success = False, req_uid = 0\<rparr>"]
  show ?thesis by (simp add: having_ok is_response_pack_def) blast
qed

text \<open>C36: From its second request to a user on, a client numbers every request 1, while every response
  of that user carries 0: the server relays the number unchanged, so the response is filed where the
  call that waits for it never looks.\<close>

theorem second_request_never_matched:
  assumes a: "creach st" and b: "creach st'" and to: "u \<noteq> 0"
    and second: "map_get (last_c_muids (ses st)) u \<noteq> None" and ptype: "ptype \<noteq> pt_code RESPONSE"
    and ask: "request p u trv ptype (ses st) = (q, Some k, s)"
    and ans: "request p' u' trv' (pt_code RESPONSE) (ses st') = (r, Some k', s')"
  shows "cmuid q = 1 \<and> cmuid r = 0
     \<and> mb_replies (receive me (relay_packet r me 0) mb) v (cmuid q) = mb_replies mb v (cmuid q)"
proof -
  have q: "cmuid q = 1" using request_cases(3) [OF creach_zero [OF a] ask] second ptype to by simp
  have r: "cmuid r = 0" using request_cases(3) [OF creach_zero [OF b] ans] by (simp split: if_splits)
  show ?thesis using q r by (simp add: receive_def)
qed

text \<open>A client that has asked user 9 once.\<close>

lemma asked_once:
  obtains st where "creach st" "map_get (last_c_muids (ses st)) 9 = Some 0"
proof -
  let ?s = "dcn_new_session 7"
  obtain p s where r: "request (sample_packet 7 9) 9 0 (pt_code REQUEST) ?s = (p, Some (CReq p), s)"
    "map_get (last_c_muids s) 9 = Some 0"
  proof (rule that)
    have m: "map_ok (last_c_muids ?s)" "map_get (last_c_muids ?s) 9 = None" by (simp_all add: dcn_new_session_def)
    note none = map_ptr_NoneI [OF m]
    let ?p = "(sample_packet 7 9)\<lparr>from_uid := cli_uid ?s, from_os := False, to_uid := 9, muid := 0,
        packtype := pt_code REQUEST, trav_fuid := 0, trav_tuid := 0, cmuid := 0\<rparr>"
    let ?t = "?s\<lparr>last_c_muids := map_put 9 0 (last_c_muids ?s)\<rparr>"
    show "request (sample_packet 7 9) 9 0 (pt_code REQUEST) ?s = (?p, Some (CReq ?p), ?t)"
      by (simp add: request_def Let_def none)
    show "map_get (last_c_muids ?t) 9 = Some 0" using m(1) by (simp add: map_get_put)
  qed
  have "starts (ses (started 7)) (CReq p) s"
    by (rule start_request [OF sample_packet_wf]) (use r(1) in \<open>simp add: started_def\<close>)
  then have "cstep (started 7) ((started 7)\<lparr>ses := s, cor := (cor (started 7))(0 \<mapsto> CReq p)\<rparr>)"
    by (rule c_start [rotated]) (simp add: started_facts)
  from creach_step [OF creach_started this] show thesis by (rule that) (simp add: r(2))
qed

theorem second_request_never_matched_witness:
  "\<exists>s q r. creach s \<and> (\<exists>k t. request (sample_packet 7 9) 9 0 (pt_code REQUEST) (ses s) = (q, Some k, t))
     \<and> (\<exists>k t. request (sample_packet 7 9) 9 0 (pt_code RESPONSE) (ses s) = (r, Some k, t))
     \<and> cmuid q = 1 \<and> cmuid r = 0"
proof -
  obtain st where st: "creach st" "map_get (last_c_muids (ses st)) 9 = Some 0" by (rule asked_once)
  note rc = request_cases(2) [OF creach_zero [OF st(1)]]
  obtain q k t where q: "request (sample_packet 7 9) 9 0 (pt_code REQUEST) (ses st) = (q, k, t)"
    by (cases "request (sample_packet 7 9) 9 0 (pt_code REQUEST) (ses st)")
  obtain r k' t' where r: "request (sample_packet 7 9) 9 0 (pt_code RESPONSE) (ses st) = (r, k', t')"
    by (cases "request (sample_packet 7 9) 9 0 (pt_code RESPONSE) (ses st)")
  obtain kq kr where k: "k = Some kq" "k' = Some kr"
    using rc [OF q] rc [OF r] st(2) by auto
  have "cmuid q = 1 \<and> cmuid r = 0
     \<and> mb_replies (receive 7 (relay_packet r 7 0) (mailbox (ses st))) 9 (cmuid q) = mb_replies (mailbox (ses st)) 9 (cmuid q)"
    by (rule second_request_never_matched [OF st(1) st(1) _ _ _ q [unfolded k] r [unfolded k]]) (use st(2) in simp_all)
  with st(1) q r k show ?thesis by blast
qed

end
