(* ===== verification/Sockets.thy ===== *)
theory Sockets
  imports DcnServer ClientProps
begin

text \<open>
  Setting connections up and closing them: \<open>ccreate_socket\<close>, \<open>connect_to\<close> (\<open>src/netw/client.c\<close>),
  \<open>screate_socket\<close>, \<open>serv_start\<close>, \<open>ep_init\<close> and the head of \<open>run_server\<close> (\<open>src/netw/epldplx-c.c\<close>),
  \<open>dnet_state\<close>, \<open>dnet_run\<close> and \<open>dnet_stop\<close> (\<open>src/dnet/client.c\<close>).  The answers of the system calls are
  data, the descriptors that the process has open are a set, and \<open>inet_addr\<close>, which turns an
  address into its four bytes, is a parameter \<open>inet\<close>.  A C string is the list of its characters
  before the terminating zero.
\<close>

type_synonym fds = "int set"

record sockaddr_in =
  sin_addr :: "32 word"
  sin_port :: "16 word"     \<comment> \<open>in network order\<close>

record socket_md =
  md_inaddr :: sockaddr_in
  md_fd :: int
  md_ip :: string
  md_port :: "16 word"

record ssocket_md = socket_md +
  md_last_uid :: size_t

definition htons :: "16 word \<Rightarrow> 16 word" where
  "htons x = or (push_bit 8 x) (drop_bit 8 x)"

text \<open>\<open>strcpy\<close> into \<open>char ip[20]\<close>.\<close>

definition copy_ip :: "string \<Rightarrow> string res" where
  "copy_ip str = (if length str < 20 then Inr str else Inl OutOfBounds)"

subsection \<open>Clients\<close>

definition ccreate_socket ::
  "(string \<Rightarrow> 32 word) \<Rightarrow> int \<Rightarrow> string \<Rightarrow> 16 word \<Rightarrow> socket_md \<Rightarrow> fds \<Rightarrow> (int \<times> socket_md \<times> fds) res" where
  "ccreate_socket inet sock serv_ip serv_port smd fds =
     bind_res (copy_ip serv_ip) (\<lambda>str.
     let smd = smd\<lparr>md_inaddr := \<lparr>sin_addr = inet str, sin_port = htons serv_port\<rparr>, md_port := serv_port, md_ip := str,
                   md_fd := sock\<rparr>
     in if sock = -1 then Inr (-1, smd, fds) else Inr (0, smd, insert sock fds))"

text \<open>What \<open>connect\<close> and the \<open>poll\<close> for output after it answer.\<close>

record conn_ans =
  ca_ret :: int
  ca_inprogress :: bool     \<comment> \<open>\<open>errno = EINPROGRESS\<close>\<close>
  ca_poll :: int

definition connect_to :: "conn_ans \<Rightarrow> int" where
  "connect_to a =
     (if ca_ret a = -1 \<and> \<not> ca_inprogress a then -1
      else if ca_poll a \<le> 0 then 1
      else 0)"

record dcn_client =
  cli_allc :: addr
  cli_loop :: addr
  cli_md :: addr

definition dcn_cli_init :: "addr \<Rightarrow> dcn_client \<Rightarrow> addr \<Rightarrow> addr \<Rightarrow> dcn_client" where
  "dcn_cli_init allc cli loop sock = cli\<lparr>cli_allc := allc, cli_loop := loop, cli_md := sock\<rparr>"

record dnet_st =
  ds_loop :: addr
  ds_allc :: addr
  ds_socket :: socket_md
  ds_client :: dcn_client
  ds_session :: session
  ds_running :: bool        \<comment> \<open>the thread of \<open>run_client\<close> was started\<close>

text \<open>The addresses of the loop, the allocator and the member \<open>socket\<close>.\<close>

record places =
  at_loop :: addr
  at_allc :: addr
  at_socket :: addr

text \<open>\<open>out\<close> is what is in the block before; the status of \<open>ccreate_socket\<close> is not looked at.\<close>

definition dnet_state ::
  "(string \<Rightarrow> 32 word) \<Rightarrow> places \<Rightarrow> int \<Rightarrow> conn_ans \<Rightarrow> string \<Rightarrow> 16 word \<Rightarrow> ullong \<Rightarrow> dnet_st \<Rightarrow> fds
   \<Rightarrow> (int \<times> dnet_st \<times> fds) res" where
  "dnet_state inet pl sock conn serv_ip serv_port my_uid out fds =
     (let out = out\<lparr>ds_loop := at_loop pl, ds_allc := at_allc pl\<rparr> in
     bind_res (ccreate_socket inet sock serv_ip serv_port (ds_socket out) fds) (\<lambda>(_, smd, fds).
     let out = out\<lparr>ds_socket := smd\<rparr>
     in if connect_to conn \<noteq> 0 then Inr (-1, out, fds)
        else Inr (0, out\<lparr>ds_client := dcn_cli_init (at_allc pl) (ds_client out) (at_loop pl) (at_socket pl),
                         ds_session := dcn_new_session my_uid\<rparr>, fds)))"

definition dcn_cli_run :: "dnet_st \<Rightarrow> dnet_st" where
  "dcn_cli_run state = state\<lparr>ds_running := True\<rparr>"

definition dnet_run :: "dnet_st \<Rightarrow> dnet_st" where
  "dnet_run state = dcn_cli_run state"

definition dnet_stop :: "dnet_st \<Rightarrow> fds \<Rightarrow> (dnet_st \<times> fds) res" where
  "dnet_stop state fds =
     bind_res (dcn_end_session (ds_session state)) (\<lambda>s.
     Inr (state\<lparr>ds_session := s\<rparr>, fds - {md_fd (ds_socket state)}))"

subsection \<open>Servers\<close>

definition screate_socket ::
  "(string \<Rightarrow> 32 word) \<Rightarrow> int \<Rightarrow> string \<Rightarrow> 16 word \<Rightarrow> ssocket_md \<Rightarrow> fds \<Rightarrow> (int \<times> ssocket_md \<times> fds) res" where
  "screate_socket inet sock serv_ip serv_port smd fds =
     bind_res (copy_ip serv_ip) (\<lambda>str.
     let smd = smd\<lparr>md_inaddr := \<lparr>sin_addr = inet str, sin_port = htons serv_port\<rparr>, md_port := serv_port, md_ip := str,
                   md_fd := sock\<rparr>
     in if sock = -1 then Inr (-1, smd, fds)
        else Inr (0, smd\<lparr>md_last_uid := 0\<rparr>, insert sock fds))"

record serv_ans =
  sa_epoll :: int     \<comment> \<open>\<open>epoll_create1\<close>\<close>
  sa_bind :: int
  sa_listen :: int
  sa_ctl :: int       \<comment> \<open>\<open>epoll_ctl\<close>\<close>

definition ep_init :: "serv_ans \<Rightarrow> fds \<Rightarrow> int \<times> int \<times> fds" where
  "ep_init a fds =
     (if sa_epoll a < 0 then (-1, sa_epoll a, fds) else (0, sa_epoll a, insert (sa_epoll a) fds))"

definition serv_start :: "serv_ans \<Rightarrow> int" where
  "serv_start a =
     (if sa_bind a < 0 then -1
      else if sa_listen a < 0 then -2
      else if sa_ctl a < 0 then -1
      else 0)"

text \<open>
  \<open>run_server\<close> with its head: the answer, the state and the descriptors.  The status of \<open>ep_init\<close> is not
  looked at, and the descriptor that it opened is closed nowhere.
\<close>

definition start_server ::
  "serv_ans \<Rightarrow> (addr \<Rightarrow> 's \<Rightarrow> 's) \<Rightarrow> (addr \<Rightarrow> 's \<Rightarrow> 's) \<Rightarrow> ep_event list list \<Rightarrow> 's loop_state \<Rightarrow> fds
   \<Rightarrow> (int \<times> 's loop_state \<times> fds) res option" where
  "start_server a acceptor disconnector waits st fds =
     (case ep_init a fds of (_, _, fds) \<Rightarrow>
        if serv_start a \<noteq> 0 then Some (Inr (serv_start a, st, fds))
        else map_option (\<lambda>r. bind_res r (\<lambda>st. Inr (0, st, fds))) (run_server acceptor disconnector waits st))"

subsection \<open>Lemmas\<close>

text \<open>The state that a successful connection leaves.\<close>

definition opened_st :: "(string \<Rightarrow> 32 word) \<Rightarrow> places \<Rightarrow> int \<Rightarrow> string \<Rightarrow> 16 word \<Rightarrow> dnet_st \<Rightarrow> dnet_st" where
  "opened_st inet pl sock str pt out =
     out\<lparr>ds_loop := at_loop pl, ds_allc := at_allc pl,
         ds_socket := \<lparr>md_inaddr = \<lparr>sin_addr = inet str, sin_port = htons pt\<rparr>, md_fd = sock, md_ip = str,
                       md_port = pt\<rparr>\<rparr>"

definition linked :: "(string \<Rightarrow> 32 word) \<Rightarrow> places \<Rightarrow> int \<Rightarrow> string \<Rightarrow> 16 word \<Rightarrow> ullong \<Rightarrow> dnet_st \<Rightarrow> dnet_st" where
  "linked inet pl sock str pt uid out =
     (opened_st inet pl sock str pt out)\<lparr>
         ds_client := \<lparr>cli_allc = at_allc pl, cli_loop = at_loop pl, cli_md = at_socket pl\<rparr>,
         ds_session := dcn_new_session uid\<rparr>"

lemmas linked_defs = linked_def opened_st_def

lemma linked_simps [simp]:
  "ds_session (linked inet pl sock str pt uid out) = dcn_new_session uid"
  "md_fd (ds_socket (linked inet pl sock str pt uid out)) = sock"
  by (simp_all add: linked_defs)

lemma end_new_session:
  "\<exists>s. dcn_end_session (dcn_new_session uid) = Inr s \<and> readq s = queue_free (readq (dcn_new_session uid))
     \<and> writeq s = queue_free (writeq (dcn_new_session uid)) \<and> \<not> wt_live (any_waiter s)"
proof -
  have "user_waiters (mvals (usr_waiters (dcn_new_session uid))) = []"
    by (simp add: dcn_new_session_def map_init_def)
  then show ?thesis using end_session_frees [of "dcn_new_session uid"] by auto
qed

lemma dnet_stop_linked:
  "\<exists>state'. dnet_stop (linked inet pl sock str pt uid out) fds = Inr (state', fds - {sock})
     \<and> dcn_end_session (ds_session (linked inet pl sock str pt uid out)) = Inr (ds_session state')
     \<and> readq (ds_session state') = queue_free (readq (ds_session (linked inet pl sock str pt uid out)))
     \<and> writeq (ds_session state') = queue_free (writeq (ds_session (linked inet pl sock str pt uid out)))
     \<and> \<not> wt_live (any_waiter (ds_session state'))"
  using end_new_session [of uid] by (auto simp: dnet_stop_def)

lemma htons_htons: "htons (htons x) = x"
  by (rule bit_word_eqI) (auto simp: htons_def bit_simps)

subsection \<open>Properties\<close>

text \<open>Trying to connect until it succeeds, each time with the socket and the answers given.\<close>

fun attempts ::
  "(string \<Rightarrow> 32 word) \<Rightarrow> places \<Rightarrow> string \<Rightarrow> 16 word \<Rightarrow> ullong \<Rightarrow> (int \<times> conn_ans) list \<Rightarrow> dnet_st \<Rightarrow> fds
   \<Rightarrow> (int \<times> dnet_st \<times> fds) res" where
  "attempts inet pl str pt uid [] out fds = Inr (-1, out, fds)"
| "attempts inet pl str pt uid ((sock, conn) # rest) out fds =
     bind_res (dnet_state inet pl sock conn str pt uid out fds) (\<lambda>(r, out, fds).
     if r = 0 then Inr (0, out, fds) else attempts inet pl str pt uid rest out fds)"

text \<open>Every attempt that fails leaves its socket open and the session as it was: a client that tries
  again and again runs out of descriptors.\<close>

theorem failed_attempts_leak:
  assumes "length str < 20" and "\<forall>(sock, conn) \<in> set tries. sock \<noteq> -1 \<and> connect_to conn \<noteq> 0"
  shows "\<exists>out'. attempts inet pl str pt uid tries out fds = Inr (-1, out', fds \<union> fst ` set tries)
     \<and> ds_session out' = ds_session out"
  using assms(2)
proof (induction tries arbitrary: out fds)
  case (Cons a tries)
  obtain sock conn where a: "a = (sock, conn)" by (cases a)
  have "dnet_state inet pl sock conn str pt uid out fds = Inr (-1, opened_st inet pl sock str pt out, insert sock fds)"
    using Cons.prems assms(1) by (simp add: a dnet_state_def ccreate_socket_def copy_ip_def opened_st_def Let_def)
  moreover have "ds_session (opened_st inet pl sock str pt out) = ds_session out" by (simp add: opened_st_def)
  ultimately show ?case
    using Cons.IH [of "opened_st inet pl sock str pt out" "insert sock fds"] Cons.prems by (auto simp: a)
qed simp

definition blank_st :: dnet_st where
  "blank_st = \<lparr>ds_loop = 0, ds_allc = 0, ds_socket = \<lparr>md_inaddr = \<lparr>sin_addr = 0, sin_port = 0\<rparr>, md_fd = 0, md_ip = [], md_port = 0\<rparr>,
     ds_client = \<lparr>cli_allc = 0, cli_loop = 0, cli_md = 0\<rparr>, ds_session = dcn_new_session 0, ds_running = False\<rparr>"

text \<open>Two attempts that time out.\<close>

theorem failed_attempts_leak_witness:
  "\<exists>out'. attempts (\<lambda>_. 0) \<lparr>at_loop = 16, at_allc = 32, at_socket = 48\<rparr> ''127.0.0.1'' 9000 7
       [(5, \<lparr>ca_ret = -1, ca_inprogress = True, ca_poll = 0\<rparr>), (6, \<lparr>ca_ret = -1, ca_inprogress = True, ca_poll = 0\<rparr>)]
       blank_st {0, 1, 2} = Inr (-1, out', {0, 1, 2, 5, 6})"
  using failed_attempts_leak [of "''127.0.0.1''" "[(5, \<lparr>ca_ret = -1, ca_inprogress = True, ca_poll = 0\<rparr>),
      (6, \<lparr>ca_ret = -1, ca_inprogress = True, ca_poll = 0\<rparr>)]" "\<lambda>_. 0"
      "\<lparr>at_loop = 16, at_allc = 32, at_socket = 48\<rparr>" 9000 7 blank_st "{0, 1, 2}"]
  by (auto simp: connect_to_def insert_commute simp del: attempts.simps)

text \<open>A server that cannot be started leaves the state alone, answers the error, and leaves its epoll
  descriptor open.\<close>

lemma start_server_outcome:
  "start_server a acceptor disconnector waits st fds =
     (let opened = (if sa_epoll a < 0 then fds else insert (sa_epoll a) fds)
      in if sa_bind a < 0 then Some (Inr (-1, st, opened))
         else if sa_listen a < 0 then Some (Inr (-2, st, opened))
         else if sa_ctl a < 0 then Some (Inr (-1, st, opened))
         else map_option (\<lambda>r. bind_res r (\<lambda>st. Inr (0, st, opened))) (run_server acceptor disconnector waits st))"
  by (simp add: start_server_def ep_init_def serv_start_def Let_def)

end
