(* ===== verification/Router.thy ===== *)
theory Router
  imports EndToEnd Sockets
begin

text \<open>
  The router of \<open>code/DCN/src/dnet/router.c\<close>: a client session on each of several servers, and
  for each session a thread that passes the broadcasts it receives on to all the others.  A session
  is the one of theory DcnClient; what \<open>await\<close> and \<open>request\<close> do with the packets that are
  passed on is the client's part.
\<close>

record router =
  states :: "dnet_st list"   \<comment> \<open>what \<open>states[0 .. states_n - 1]\<close> point to\<close>
  states_cap :: nat
  uids :: ullong
  r_running :: bool

definition router_init :: "ullong \<Rightarrow> router" where
  "router_init seed = \<lparr>states = [], states_cap = 0, uids = seed, r_running = False\<rparr>"

text \<open>
  \<open>router_link\<close>: \<open>junk\<close> is what is in the fresh block.  The status of \<open>dnet_state\<close> is not looked at.
\<close>

definition router_link ::
  "(string \<Rightarrow> 32 word) \<Rightarrow> places \<Rightarrow> int \<Rightarrow> conn_ans \<Rightarrow> string \<Rightarrow> 16 word \<Rightarrow> dnet_st \<Rightarrow> router \<times> fds \<Rightarrow> (router \<times> fds) res" where
  "router_link inet pl sock conn serv_ip serv_port junk st =
     (case st of (r, fds) \<Rightarrow>
        if r_running r then Inr (r, fds)
        else let r = (if length (states r) = states_cap r
                      then r\<lparr>states_cap := if states_cap r = 0 then 1 else states_cap r * 2\<rparr> else r)
             in bind_res (dnet_state inet pl sock conn serv_ip serv_port (uids r) junk fds) (\<lambda>(_, state, fds).
                Inr (r\<lparr>uids := uids r + 1, states := states r @ [state]\<rparr>, fds)))"

abbreviation sessions :: "router \<Rightarrow> session list" where
  "sessions r \<equiv> map ds_session (states r)"

subsection \<open>Passing a broadcast on\<close>

definition orig_trav :: "packet \<Rightarrow> ullong" where
  "orig_trav req = (if trav_fuid req = 0 then from_uid req else trav_fuid req)"

text \<open>
  The loop over the other sessions: the requests that are awaited, in order, each with the index
  of its session.  A session whose request is \<open>NULL\<close> would end in \<open>await(NULL)\<close>.
\<close>

fun pass_on :: "nat \<Rightarrow> packet \<Rightarrow> nat list \<Rightarrow> session list \<Rightarrow> (nat \<times> packet) list res" where
  "pass_on my req [] ss = Inr []"
| "pass_on my req (i # is) ss =
     (if i = my then pass_on my req is ss
      else bind_res (copy_packet req) (\<lambda>cp.
        case request cp 0 (orig_trav req) (packtype req) (ss ! i) of
          (_, None, _) \<Rightarrow> Inl NullAccess
        | (p, Some k, s) \<Rightarrow> bind_res (pass_on my req is (ss[i := s])) (\<lambda>ps. Inr ((i, p) # ps))))"

text \<open>One round of \<open>__router_runner\<close>, with the packet that its own session received.\<close>

definition router_round :: "nat \<Rightarrow> packet option \<Rightarrow> router \<Rightarrow> (nat \<times> packet) list res" where
  "router_round my req_packet r =
     (if length (states r) \<le> my then Inr []
      else case req_packet of
        None \<Rightarrow> Inr []
      | Some req \<Rightarrow>
          (if packtype req \<noteq> pt_code SIG_BROADCAST then Inr []
           else pass_on my req [0..<length (states r)] (sessions r)))"

fun stop_states :: "dnet_st list \<Rightarrow> fds \<Rightarrow> (dnet_st list \<times> fds) res" where
  "stop_states [] fds = Inr ([], fds)"
| "stop_states (s # ss) fds =
     bind_res (dnet_stop s fds) (\<lambda>(s, fds). bind_res (stop_states ss fds) (\<lambda>(ss, fds). Inr (s # ss, fds)))"

definition router_stop :: "router \<times> fds \<Rightarrow> (router \<times> fds) res" where
  "router_stop st =
     (case st of (r, fds) \<Rightarrow> bind_res (stop_states (states r) fds) (\<lambda>(_, fds).
        Inr (r\<lparr>r_running := False, states := [], states_cap := 0\<rparr>, fds)))"

subsection \<open>Lemmas\<close>

text \<open>A request to the server is numbered 0 and changes no session.\<close>

lemma request_server:
  "request pack 0 trv ptype s =
     (let p = pack\<lparr>from_uid := cli_uid s, from_os := False, to_uid := 0, muid := 0, packtype := ptype,
                   trav_fuid := trv, trav_tuid := 0, cmuid := 0\<rparr> in (p, Some (CReq p), s))"
  by (simp add: request_def Let_def)

text \<open>The packet that session \<open>s\<close> sends on.\<close>

definition passed :: "packet \<Rightarrow> session \<Rightarrow> packet" where
  "passed req s = (stored_packet req)\<lparr>from_uid := cli_uid s, from_os := False, to_uid := 0, muid := 0,
     packtype := packtype req, trav_fuid := orig_trav req, trav_tuid := 0, cmuid := 0\<rparr>"

lemma pass_on_ok:
  assumes wf: "packet_wf req"
  shows "pass_on my req is ss = Inr (map (\<lambda>i. (i, passed req (ss ! i))) (filter (\<lambda>i. i \<noteq> my) is))"
proof (induction "is")
  case (Cons i "is")
  have "copy_packet req = Inr (stored_packet req)"
    using copy_packet_ok [of req] wf by (simp add: packet_wf_def stored_packet_def)
  then show ?case using Cons by (simp add: request_server Let_def passed_def)
qed simp

lemma passed_wf: "packet_wf req \<Longrightarrow> packet_wf (passed req s)"
  using packet_wf_stored [of req] by (simp add: passed_def packet_wf_def)

lemma passed_simps [simp]:
  "packtype (passed req s) = packtype req" "from_uid (passed req s) = cli_uid s" "to_uid (passed req s) = 0"
  "trav_fuid (passed req s) = orig_trav req" "qb_bytes (pdata (passed req s)) = qb_bytes (pdata (stored_packet req))"
  by (simp_all add: passed_def)

lemma orig_trav_relay: "t \<noteq> 0 \<Longrightarrow> orig_trav (relay_packet p u t) = t"
  by (simp add: orig_trav_def relay_packet_def)

subsection \<open>Properties\<close>

text \<open>C17: a router passes a packet of type \<open>SIG_BROADCAST\<close> on to every other server exactly once, in the
  order of the links, and to its own not at all; the packet keeps its payload and names its first
  sender.  A packet of any other type is dropped, \<open>BROADCAST\<close> included, wherever its recipient is.\<close>

theorem router_passes_on:
  assumes "packet_wf req" and "my < length (states r)"
  shows "router_round my (Some req) r = Inr (if packtype req = pt_code SIG_BROADCAST
       then map (\<lambda>i. (i, passed req (sessions r ! i))) (filter (\<lambda>i. i \<noteq> my) [0..<length (states r)]) else [])
     \<and> (\<forall>i. qb_bytes (pdata (passed req (sessions r ! i))) = qb_bytes (pdata (stored_packet req))
          \<and> trav_fuid (passed req (sessions r ! i)) = (if trav_fuid req = 0 then from_uid req else trav_fuid req))"
  using assms pass_on_ok [OF assms(1)] by (simp add: router_round_def orig_trav_def)

text \<open>Linking one server after the other.\<close>

record link =
  lk_at :: places
  lk_sock :: int
  lk_conn :: conn_ans
  lk_ip :: string
  lk_port :: "16 word"
  lk_junk :: dnet_st

fun link_all :: "(string \<Rightarrow> 32 word) \<Rightarrow> link list \<Rightarrow> router \<times> fds \<Rightarrow> (router \<times> fds) res" where
  "link_all inet [] st = Inr st"
| "link_all inet (l # ls) st =
     bind_res (router_link inet (lk_at l) (lk_sock l) (lk_conn l) (lk_ip l) (lk_port l) (lk_junk l) st) (link_all inet ls)"

text \<open>The links whose connections succeed, and the states that they make.\<close>

definition link_up :: "link \<Rightarrow> bool" where
  "link_up l \<longleftrightarrow> lk_sock l \<noteq> -1 \<and> length (lk_ip l) < 20 \<and> connect_to (lk_conn l) = 0"

fun linked_states :: "(string \<Rightarrow> 32 word) \<Rightarrow> ullong \<Rightarrow> link list \<Rightarrow> dnet_st list" where
  "linked_states inet uid [] = []"
| "linked_states inet uid (l # ls) =
     linked inet (lk_at l) (lk_sock l) (lk_ip l) (lk_port l) uid (lk_junk l) # linked_states inet (uid + 1) ls"

lemma router_link_up:
  assumes "link_up l" and "\<not> r_running r"
  obtains cap where "router_link inet (lk_at l) (lk_sock l) (lk_conn l) (lk_ip l) (lk_port l) (lk_junk l) (r, fds)
     = Inr (r\<lparr>states_cap := cap, uids := uids r + 1,
              states := states r @ [linked inet (lk_at l) (lk_sock l) (lk_ip l) (lk_port l) (uids r) (lk_junk l)]\<rparr>,
            insert (lk_sock l) fds)"
proof -
  have "router_link inet (lk_at l) (lk_sock l) (lk_conn l) (lk_ip l) (lk_port l) (lk_junk l) (r, fds)
     = Inr (r\<lparr>states_cap := (if length (states r) = states_cap r then if states_cap r = 0 then 1 else states_cap r * 2
                            else states_cap r),
              uids := uids r + 1,
              states := states r @ [linked inet (lk_at l) (lk_sock l) (lk_ip l) (lk_port l) (uids r) (lk_junk l)]\<rparr>,
            insert (lk_sock l) fds)"
    using assms
    by (auto simp: router_link_def link_up_def dnet_state_def ccreate_socket_def copy_ip_def linked_defs dcn_cli_init_def Let_def)
  then show thesis by (rule that)
qed

lemma link_all_up:
  assumes "\<forall>l \<in> set ls. link_up l" and "\<not> r_running r"
  shows "\<exists>r'. link_all inet ls (r, fds) = Inr (r', fds \<union> lk_sock ` set ls)
     \<and> states r' = states r @ linked_states inet (uids r) ls \<and> \<not> r_running r'"
  using assms
proof (induction ls arbitrary: r fds)
  case (Cons l ls)
  let ?s = "linked inet (lk_at l) (lk_sock l) (lk_ip l) (lk_port l) (uids r) (lk_junk l)"
  obtain cap where l: "router_link inet (lk_at l) (lk_sock l) (lk_conn l) (lk_ip l) (lk_port l) (lk_junk l) (r, fds)
     = Inr (r\<lparr>states_cap := cap, uids := uids r + 1, states := states r @ [?s]\<rparr>, insert (lk_sock l) fds)"
    by (rule router_link_up [of l r]) (use Cons.prems in simp_all)
  show ?case
    using Cons.IH [of "r\<lparr>states_cap := cap, uids := uids r + 1, states := states r @ [?s]\<rparr>" "insert (lk_sock l) fds"]
      Cons.prems l by auto
qed simp

text \<open>What stopping leaves of a state: its session has been ended.\<close>

definition session_ended :: "dnet_st \<Rightarrow> dnet_st \<Rightarrow> bool" where
  "session_ended st st' \<longleftrightarrow> dcn_end_session (ds_session st) = Inr (ds_session st')
     \<and> readq (ds_session st') = queue_free (readq (ds_session st))
     \<and> writeq (ds_session st') = queue_free (writeq (ds_session st)) \<and> \<not> wt_live (any_waiter (ds_session st'))"

lemma stop_linked_states:
  "\<exists>ss. stop_states (linked_states inet uid ls) fds = Inr (ss, fds - lk_sock ` set ls)
     \<and> list_all2 session_ended (linked_states inet uid ls) ss"
proof (induction ls arbitrary: uid fds)
  case (Cons l ls)
  let ?l = "linked inet (lk_at l) (lk_sock l) (lk_ip l) (lk_port l) uid (lk_junk l)"
  obtain s where s: "dnet_stop ?l fds = Inr (s, fds - {lk_sock l})" "session_ended ?l s"
    using dnet_stop_linked unfolding session_ended_def by blast
  obtain ss where "stop_states (linked_states inet (uid + 1) ls) (fds - {lk_sock l})
      = Inr (ss, fds - {lk_sock l} - lk_sock ` set ls)" "list_all2 session_ended (linked_states inet (uid + 1) ls) ss"
    using Cons by blast
  with s show ?case by (auto simp: Diff_insert2 [symmetric] insert_commute)
qed simp

text \<open>C34: a router closes what it has opened: after any number of links that succeed, each has a session
  of its own with the next UID, and stopping the router ends each of these sessions (its queues are
  freed and so is its waiter) and leaves the descriptors as they were before the first link.\<close>

theorem router_closes_links:
  assumes up: "\<forall>l \<in> set ls. link_up l" and fresh: "fds \<inter> lk_sock ` set ls = {}"
  shows "\<exists>r r'. link_all inet ls (router_init seed, fds) = Inr (r, fds \<union> lk_sock ` set ls)
     \<and> states r = linked_states inet seed ls
     \<and> (\<exists>ss. stop_states (states r) (fds \<union> lk_sock ` set ls) = Inr (ss, fds) \<and> list_all2 session_ended (states r) ss)
     \<and> router_stop (r, fds \<union> lk_sock ` set ls) = Inr (r', fds) \<and> states r' = []"
proof -
  have new: "\<not> r_running (router_init seed)" "states (router_init seed) = []" "uids (router_init seed) = seed"
    by (simp_all add: router_init_def)
  obtain r where r: "link_all inet ls (router_init seed, fds) = Inr (r, fds \<union> lk_sock ` set ls)"
    "states r = linked_states inet seed ls"
    using link_all_up [OF up new(1), of inet fds] new by auto
  obtain ss where "stop_states (states r) (fds \<union> lk_sock ` set ls) = Inr (ss, fds \<union> lk_sock ` set ls - lk_sock ` set ls)"
    "list_all2 session_ended (states r) ss"
    using stop_linked_states [of inet seed ls "fds \<union> lk_sock ` set ls"] unfolding r(2) by blast
  moreover have "fds \<union> lk_sock ` set ls - lk_sock ` set ls = fds" using fresh by blast
  ultimately show ?thesis using r by (auto simp: router_stop_def)
qed

text \<open>A router linked to three servers.\<close>

definition local_link :: "int \<Rightarrow> link" where
  "local_link n = \<lparr>lk_at = \<lparr>at_loop = 16, at_allc = 32, at_socket = 48\<rparr>, lk_sock = n, lk_conn = \<lparr>ca_ret = -1, ca_inprogress = True, ca_poll = 1\<rparr>, lk_ip = ''127.0.0.1'',
     lk_port = 9000, lk_junk = blank_st\<rparr>"

theorem router_closes_links_witness:
  "\<exists>r r'. link_all (\<lambda>_. 0) [local_link 3, local_link 4] (router_init 100, {0, 1, 2}) = Inr (r, {0, 1, 2, 3, 4})
     \<and> sessions r = [dcn_new_session 100, dcn_new_session 101]
     \<and> router_stop (r, {0, 1, 2, 3, 4}) = Inr (r', {0, 1, 2})"
proof -
  have up: "\<forall>l \<in> set [local_link 3, local_link 4]. link_up l"
    by (simp add: link_up_def local_link_def connect_to_def)
  have fds: "{0, 1, 2} \<inter> lk_sock ` set [local_link 3, local_link 4] = {}"
    "{0, 1, 2} \<union> lk_sock ` set [local_link 3, local_link 4] = {0, 1, 2, 3, 4}"
    by (auto simp: local_link_def)
  from router_closes_links [OF up fds(1), of "\<lambda>_. 0" 100] show ?thesis
    unfolding fds(2) by (elim exE conjE) (intro exI conjI, assumption, simp_all)
qed

definition three_links :: router where
  "three_links = (router_init 100)\<lparr>states := linked_states (\<lambda>_. 0) 100 (map local_link [3, 4, 5])\<rparr>"

lemma three_links_states: "sessions three_links = [dcn_new_session 100, dcn_new_session 101, dcn_new_session 102]"
  by (simp add: three_links_def)

lemma three_links_length [simp]: "length (states three_links) = 3"
  by (simp add: three_links_def)

theorem router_passes_on_witness:
  "router_round 1 (Some ((sample_packet 10 101)\<lparr>packtype := pt_code SIG_BROADCAST\<rparr>)) three_links
     = Inr [(0, passed ((sample_packet 10 101)\<lparr>packtype := pt_code SIG_BROADCAST\<rparr>) (dcn_new_session 100)),
            (2, passed ((sample_packet 10 101)\<lparr>packtype := pt_code SIG_BROADCAST\<rparr>) (dcn_new_session 102))]"
proof -
  have wf: "packet_wf ((sample_packet 10 101)\<lparr>packtype := pt_code SIG_BROADCAST\<rparr>)"
    using sample_packet_wf [of 10 101] by (simp add: packet_wf_def)
  from router_passes_on [OF wf, of 1 three_links] show ?thesis
    by (simp add: three_links_states upt_conv_Cons numeral_eq_Suc)
qed

text \<open>A broadcast never dies out between routers: what a router passed on and a server relayed, the
  next router that receives it passes on again, to every server but the one it came from, with the
  same first sender; nothing in the packet counts the hops.\<close>

theorem passed_on_again:
  assumes wf: "packet_wf req" and bc: "packtype req = pt_code SIG_BROADCAST" and uid: "cli_uid s \<noteq> 0"
    and my: "my < length (states r)" and i: "i < length (states r)" "i \<noteq> my"
  shows "\<exists>ps p. router_round my (Some (relay_packet (passed req s) u (trav_fuid (passed req s)))) r = Inr ps
     \<and> (i, p) \<in> set ps \<and> packtype p = pt_code SIG_BROADCAST
     \<and> (orig_trav req \<noteq> 0 \<longrightarrow> trav_fuid p = orig_trav req)"
proof -
  let ?q = "relay_packet (passed req s) u (trav_fuid (passed req s))"
  have q: "packet_wf ?q" by (rule relay_packet_wf) (rule passed_wf [OF wf])
  have t: "packtype ?q = pt_code SIG_BROADCAST" using bc by simp
  have ps: "router_round my (Some ?q) r
      = Inr (map (\<lambda>i. (i, passed ?q (sessions r ! i))) (filter (\<lambda>i. i \<noteq> my) [0..<length (states r)]))"
    using pass_on_ok [OF q] my t by (simp add: router_round_def)
  have "orig_trav ?q = orig_trav req" if "orig_trav req \<noteq> 0"
    using orig_trav_relay [OF that] by simp
  then show ?thesis using ps i t by (intro exI [of _ "passed ?q (sessions r ! i)"] exI conjI) auto
qed

theorem passed_on_again_witness:
  "\<exists>ps p. router_round 1 (Some (relay_packet (passed ((sample_packet 10 101)\<lparr>packtype := pt_code SIG_BROADCAST\<rparr>)
       (dcn_new_session 100)) 101 10)) three_links = Inr ps
     \<and> (0, p) \<in> set ps \<and> packtype p = pt_code SIG_BROADCAST \<and> trav_fuid p = 10"
proof -
  let ?req = "(sample_packet 10 101)\<lparr>packtype := pt_code SIG_BROADCAST\<rparr>"
  have wf: "packet_wf ?req" using sample_packet_wf [of 10 101] by (simp add: packet_wf_def)
  have t: "orig_trav ?req = 10" by (simp add: orig_trav_def sample_packet_def)
  have u: "cli_uid (dcn_new_session 100) = 100" by (simp add: dcn_new_session_def)
  have bc: "packtype ?req = pt_code SIG_BROADCAST" by simp
  have f: "trav_fuid (passed ?req (dcn_new_session 100)) = 10" using t by simp
  have len: "1 < length (states three_links)" "0 < length (states three_links)" by simp_all
  have ne: "cli_uid (dcn_new_session 100) \<noteq> 0" using u by simp
  from passed_on_again [OF wf bc ne len, of 101] show ?thesis unfolding f t by simp
qed

end
