(* ===== verification/RouterPool.thy ===== *)
theory RouterPool
  imports ClientPool Router
begin

text \<open>
  A running router (\<open>router_run\<close> of \<open>src/dnet/router.c\<close>): \<open>L\<close> links, each a client of theory ClientSystem
  with a runner thread (\<open>__router_runner\<close>), and one event loop with \<open>n\<close> workers for the calls and
  the handlers of all of them.  A runner pings, then gathers a request of anybody, passes a broadcast
  on with one \<open>request\<close> after the other, and starts again; it waits in \<open>await\<close> for each call, so that it
  has at most one under way.  The links are taken to be connected and \<open>is_running\<close> to stay set.
\<close>

datatype rpc =
    RPing                            \<comment> \<open>about to ping\<close>
  | RPinged nat                      \<comment> \<open>awaits that call\<close>
  | RAsk                             \<comment> \<open>top of the loop\<close>
  | RAsked nat                       \<comment> \<open>awaits the request of anybody\<close>
  | RSend packet "nat list"          \<comment> \<open>passes the packet on to these links\<close>
  | RSent packet "nat list" nat nat  \<comment> \<open>awaits a call on the given link, with the other links to go\<close>

record rsys =
  links :: "nat \<Rightarrow> csys"
  rjobs :: "(nat \<times> ptask) list"
  rbusy :: "(nat \<times> nat) list"
  runner :: "nat \<Rightarrow> rpc"

definition rsys_init :: "ullong \<Rightarrow> rsys \<Rightarrow> bool" where
  "rsys_init seed st \<longleftrightarrow>
     st = \<lparr>links = (\<lambda>l. started (seed + of_nat l)), rjobs = [], rbusy = [], runner = (\<lambda>_. RPing)\<rparr>"

subsection \<open>The runner\<close>

text \<open>The call that a runner awaits.\<close>

fun awaited :: "nat \<Rightarrow> rpc \<Rightarrow> (nat \<times> nat) option" where
  "awaited l (RPinged i) = Some (l, i)"
| "awaited l (RAsked i) = Some (l, i)"
| "awaited l (RSent p ts t i) = Some (t, i)"
| "awaited l _ = None"

text \<open>
  \<open>calls l pc st t k s pc'\<close>: the runner of link \<open>l\<close> at \<open>pc\<close> starts coroutine \<open>k\<close> on link \<open>t\<close>, which leaves
  that link's session \<open>s\<close>, and awaits it in \<open>pc'\<close>.  A packet that is passed on has been received, so it
  is well formed.
\<close>

inductive calls :: "nat \<Rightarrow> rpc \<Rightarrow> rsys \<Rightarrow> nat \<Rightarrow> coro \<Rightarrow> session \<Rightarrow> (nat \<Rightarrow> rpc) \<Rightarrow> bool" where
  call_ping: "ping (ses (links st l)) = Inr k \<Longrightarrow> calls l RPing st l k (ses (links st l)) RPinged"
| call_gather: "calls l RAsk st l (async_misc_grequests True) (ses (links st l)) RAsked"
| call_request: "copy_packet p = Inr cp \<Longrightarrow> packet_wf cp
     \<Longrightarrow> request cp 0 (orig_trav p) (packtype p) (ses (links st t)) = (q, Some k, s)
     \<Longrightarrow> calls l (RSend p (t # ts)) st t k s (RSent p ts t)"

text \<open>What the runner of link \<open>l\<close> of \<open>L\<close> does with the result of the call that it awaited.\<close>

inductive resumes :: "nat \<Rightarrow> nat \<Rightarrow> rpc \<Rightarrow> result \<Rightarrow> rpc \<Rightarrow> bool" where
  res_ping: "resumes L l (RPinged i) r RAsk"
| res_drop: "(\<And>p. r = RPacket p \<Longrightarrow> packtype p \<noteq> pt_code SIG_BROADCAST) \<Longrightarrow> resumes L l (RAsked i) r RAsk"
| res_pass: "packtype p = pt_code SIG_BROADCAST
     \<Longrightarrow> resumes L l (RAsked i) (RPacket p) (RSend p (filter (\<lambda>t. t \<noteq> l) [0..<L]))"
| res_sent: "resumes L l (RSent p ts t i) r (RSend p ts)"

text \<open>The future of a call is ready once its worker is free again.\<close>

definition finished :: "rsys \<Rightarrow> nat \<times> nat \<Rightarrow> result \<Rightarrow> bool" where
  "finished st x r \<longleftrightarrow> cor (links st (fst x)) (snd x) = Some (CDone r) \<and> x \<notin> set (rbusy st)"

subsection \<open>The system\<close>

inductive rstep :: "nat \<Rightarrow> nat \<Rightarrow> rsys \<Rightarrow> rsys \<Rightarrow> bool" for n L where
  r_poll: "l < L \<Longrightarrow> is_active (cl (links st l)) \<Longrightarrow> good_poll (links st l) ev
     \<Longrightarrow> on_poll ev (loop_state (links st l)) = Some (Inr (c, q)) \<Longrightarrow>
     rstep n L st (st\<lparr>links := (links st)(l := (links st l)\<lparr>cl := c, ses := with_queues (ses (links st l)) q\<rparr>),
       rjobs := rjobs st @ replicate (handlers c - handlers (cl (links st l))) (l, Handler)\<rparr>)"
| r_handler: "rjobs st = (l, Handler) # js \<Longrightarrow> length (rbusy st) < n \<Longrightarrow> handlers (cl (links st l)) = Suc m
     \<Longrightarrow> dcn_on_message trp0 (ses (links st l)) = Inr s \<Longrightarrow>
     rstep n L st (st\<lparr>links := (links st)(l := (links st l)\<lparr>cl := (cl (links st l))\<lparr>handlers := m\<rparr>, ses := s\<rparr>),
       rjobs := js\<rparr>)"
| r_take: "rjobs st = (l, Call i) # js \<Longrightarrow> length (rbusy st) < n \<Longrightarrow>
     rstep n L st (st\<lparr>rjobs := js, rbusy := (l, i) # rbusy st\<rparr>)"
| r_move: "(l, i) \<in> set (rbusy st) \<Longrightarrow> cor (links st l) i = Some k \<Longrightarrow> env_ok (ses (links st l)) e
     \<Longrightarrow> coro_step e k (ses (links st l)) = Some (Inr (k', s)) \<Longrightarrow>
     rstep n L st (st\<lparr>links := (links st)(l := (links st l)\<lparr>ses := s, cor := (cor (links st l))(i \<mapsto> k')\<rparr>)\<rparr>)"
| r_finish: "(l, i) \<in> set (rbusy st) \<Longrightarrow> cor (links st l) i = Some (CDone r) \<Longrightarrow>
     rstep n L st (st\<lparr>rbusy := remove1 (l, i) (rbusy st)\<rparr>)"
| r_call: "l < L \<Longrightarrow> calls l (runner st l) st t k s pc \<Longrightarrow> cor (links st t) i = None \<Longrightarrow>
     rstep n L st (st\<lparr>links := (links st)(t := (links st t)\<lparr>ses := s, cor := (cor (links st t))(i \<mapsto> k)\<rparr>),
       rjobs := rjobs st @ [(t, Call i)], runner := (runner st)(l := pc i)\<rparr>)"
| r_resume: "l < L \<Longrightarrow> awaited l (runner st l) = Some x \<Longrightarrow> finished st x r \<Longrightarrow> resumes L l (runner st l) r pc \<Longrightarrow>
     rstep n L st (st\<lparr>runner := (runner st)(l := pc)\<rparr>)"
| r_next: "l < L \<Longrightarrow> runner st l = RSend p [] \<Longrightarrow> rstep n L st (st\<lparr>runner := (runner st)(l := RAsk)\<rparr>)"

abbreviation rreach :: "ullong \<Rightarrow> nat \<Rightarrow> nat \<Rightarrow> rsys \<Rightarrow> bool" where
  "rreach seed n L \<equiv> reach (rsys_init seed) (rstep n L)"

subsection \<open>Invariant\<close>

lemma calls_starts: "calls l pc st t k s pc' \<Longrightarrow> starts (ses (links st t)) k s"
  by (induction rule: calls.induct) (auto intro: starts.intros)

lemma calls_awaited: "calls l pc st t k s pc' \<Longrightarrow> awaited l (pc' i) = Some (t, i) \<and> awaited l pc = None"
  by (induction rule: calls.induct) auto

lemma resumes_awaited: "resumes L l pc r pc' \<Longrightarrow> awaited l pc' = None"
  by (induction rule: resumes.induct) auto

lemma starts_not_done: "starts s k s' \<Longrightarrow> k \<noteq> CDone r"
  by (induction rule: starts.induct)
    (auto simp: request_def ping_def traceroute_def async_grequests_def async_misc_grequests_def
      async_gtraceroutes_def traceroute_ans_def Let_def packet_init_def bind_res_Inr_iff split: if_splits option.splits)

text \<open>The calls among the tasks, each with its link.\<close>

fun call_of :: "nat \<times> ptask \<Rightarrow> (nat \<times> nat) list" where
  "call_of (l, Handler) = []"
| "call_of (l, Call i) = [(l, i)]"

definition queued_calls :: "rsys \<Rightarrow> (nat \<times> nat) list" where
  "queued_calls st = concat (map call_of (rjobs st))"

definition cor_at :: "rsys \<Rightarrow> nat \<times> nat \<Rightarrow> coro option" where
  "cor_at st x = cor (links st (fst x)) (snd x)"

definition rsys_inv :: "nat \<Rightarrow> nat \<Rightarrow> rsys \<Rightarrow> bool" where
  "rsys_inv n L st \<longleftrightarrow> (\<forall>l. csys_inv (links st l)) \<and> length (rbusy st) \<le> n
     \<and> (\<forall>l. count_list (rjobs st) (l, Handler) = handlers (cl (links st l)))
     \<and> distinct (rbusy st @ queued_calls st)
     \<and> (\<forall>x \<in> set (rbusy st) \<union> set (queued_calls st). \<exists>l < L. awaited l (runner st l) = Some x)
     \<and> (\<forall>l x. awaited l (runner st l) = Some x \<longrightarrow> cor_at st x \<noteq> None)
     \<and> (\<forall>x \<in> set (queued_calls st). \<forall>r. cor_at st x \<noteq> Some (CDone r))"

lemma rsys_inv_held:
  "rsys_inv n L st \<Longrightarrow> x \<in> set (rbusy st) \<union> set (queued_calls st) \<Longrightarrow> \<exists>l < L. awaited l (runner st l) = Some x"
  unfolding rsys_inv_def by (elim conjE) (erule bspec)

lemma rsys_inv_known: "rsys_inv n L st \<Longrightarrow> awaited l (runner st l) = Some x \<Longrightarrow> cor_at st x \<noteq> None"
  unfolding rsys_inv_def by (elim conjE) blast

lemma rsys_inv_queued: "rsys_inv n L st \<Longrightarrow> x \<in> set (queued_calls st) \<Longrightarrow> cor_at st x \<noteq> Some (CDone r)"
  unfolding rsys_inv_def by (elim conjE) blast

lemma rsys_invI:
  assumes "\<And>l. csys_inv (links st l)" and "length (rbusy st) \<le> n"
    and "\<And>l. count_list (rjobs st) (l, Handler) = handlers (cl (links st l))"
    and "distinct (rbusy st @ queued_calls st)"
    and "\<And>x. x \<in> set (rbusy st) \<union> set (queued_calls st) \<Longrightarrow> \<exists>l < L. awaited l (runner st l) = Some x"
    and "\<And>l x. awaited l (runner st l) = Some x \<Longrightarrow> cor_at st x \<noteq> None"
    and "\<And>x r. x \<in> set (queued_calls st) \<Longrightarrow> cor_at st x \<noteq> Some (CDone r)"
  shows "rsys_inv n L st"
  unfolding rsys_inv_def using assms(1-4) by (intro conjI allI ballI impI assms(5-7))

text \<open>With one call under way for each runner, at most \<open>L\<close> workers are held.\<close>

lemma rbusy_le_links:
  assumes "rsys_inv n L st"
  shows "length (rbusy st) \<le> L"
proof -
  have sub: "set (rbusy st) \<subseteq> (\<lambda>l. the (awaited l (runner st l))) ` {..<L}"
  proof
    fix x
    assume "x \<in> set (rbusy st)"
    then obtain l where "l < L" "awaited l (runner st l) = Some x"
      using rsys_inv_held [OF assms] by blast
    then show "x \<in> (\<lambda>l. the (awaited l (runner st l))) ` {..<L}" by force
  qed
  have "length (rbusy st) = card (set (rbusy st))"
    using assms by (simp add: rsys_inv_def distinct_card)
  also have "\<dots> \<le> L"
    using card_mono [OF _ sub] card_image_le [of "{..<L}" "\<lambda>l. the (awaited l (runner st l))"] by simp
  finally show ?thesis .
qed

lemma rsys_inv_init: "rsys_init seed st \<Longrightarrow> rsys_inv n L st"
  using csys_inv_init [of "started u" for u]
  by (auto simp: rsys_init_def rsys_inv_def queued_calls_def csys_init_def started_def cloop_init_def)

lemma rstep_link: "rstep n L st st' \<Longrightarrow> cstep (links st l) (links st' l) \<or> links st' l = links st l"
proof (induction rule: rstep.induct)
  case (r_call l' t k s pc i)
  then show ?case using c_start [OF r_call(3) calls_starts [OF r_call(2)]] by simp
qed (auto intro: cstep.intros)

text \<open>A step that starts no call and leaves the runners alone.\<close>

lemma rsys_inv_pool:
  assumes inv: "rsys_inv n L st" and st: "\<And>l. csys_inv (links st' l)"
    and len: "length (rbusy st') \<le> n"
    and cnt: "\<And>l. count_list (rjobs st') (l, Handler) = handlers (cl (links st' l))"
    and dist: "distinct (rbusy st' @ queued_calls st')"
    and sub: "set (rbusy st') \<union> set (queued_calls st') \<subseteq> set (rbusy st) \<union> set (queued_calls st)"
    and q: "set (queued_calls st') \<subseteq> set (queued_calls st)"
    and run: "runner st' = runner st"
    and keep: "\<And>x. x \<in> set (queued_calls st) \<Longrightarrow> cor_at st' x = cor_at st x"
    and some: "\<And>x. cor_at st x \<noteq> None \<Longrightarrow> cor_at st' x \<noteq> None"
  shows "rsys_inv n L st'"
proof -
  show ?thesis
  proof (rule rsys_invI)
    show "\<exists>l < L. awaited l (runner st' l) = Some x" if "x \<in> set (rbusy st') \<union> set (queued_calls st')" for x
      using rsys_inv_held [OF inv] that sub unfolding run by blast
    show "cor_at st' x \<noteq> None" if "awaited l (runner st' l) = Some x" for l x
      using rsys_inv_known [OF inv] some that unfolding run by blast
    show "cor_at st' x \<noteq> Some (CDone r)" if "x \<in> set (queued_calls st')" for x r
      using rsys_inv_queued [OF inv, of x r] that q keep [of x] by auto
  qed (use st len cnt dist in blast)+
qed

lemma concat_call_handlers [simp]: "concat (map call_of (replicate m (l, Handler))) = []"
  by (induction m) simp_all

lemma count_handlers: "count_list (replicate m (l, Handler)) (l', Handler) = (if l = l' then m else 0)"
  by (induction m) simp_all

text \<open>A runner that goes on without a call.\<close>

lemma rsys_inv_runner:
  assumes inv: "rsys_inv n L st" and pc: "awaited l pc = None"
    and free: "\<And>x. awaited l (runner st l) = Some x \<Longrightarrow> x \<notin> set (rbusy st) \<union> set (queued_calls st)"
  shows "rsys_inv n L (st\<lparr>runner := (runner st)(l := pc)\<rparr>)"
proof -
  let ?st = "st\<lparr>runner := (runner st)(l := pc)\<rparr>"
  have same: "queued_calls ?st = queued_calls st" "cor_at ?st = cor_at st"
    by (simp_all add: queued_calls_def cor_at_def fun_eq_iff)
  show ?thesis
  proof (rule rsys_invI)
    show "\<exists>l' < L. awaited l' (runner ?st l') = Some x" if x: "x \<in> set (rbusy ?st) \<union> set (queued_calls ?st)" for x
    proof -
      have x: "x \<in> set (rbusy st) \<union> set (queued_calls st)" using x by (simp add: same)
      then obtain l' where l': "l' < L" "awaited l' (runner st l') = Some x" using rsys_inv_held [OF inv] by blast
      moreover have "l' \<noteq> l" using l'(2) free x by blast
      ultimately show ?thesis by auto
    qed
    show "cor_at ?st x \<noteq> None" if "awaited l' (runner ?st l') = Some x" for l' x
      using that pc rsys_inv_known [OF inv] unfolding same by (auto split: if_splits)
    show "cor_at ?st x \<noteq> Some (CDone r)" if "x \<in> set (queued_calls ?st)" for x r
      using that rsys_inv_queued [OF inv] unfolding same by blast
  qed (use inv same in \<open>simp_all add: rsys_inv_def\<close>)
qed

lemma rstep_inv:
  assumes inv: "rsys_inv n L st" and step: "rstep n L st st'"
  shows "rsys_inv n L st'"
proof -
  have c: "csys_inv (links st' l)" for l
    using rstep_link [OF step, of l] inv cstep_inv by (auto simp: rsys_inv_def)
  have parts: "length (rbusy st) \<le> n" "\<And>l. count_list (rjobs st) (l, Handler) = handlers (cl (links st l))"
    "distinct (rbusy st @ queued_calls st)"
    using inv by (simp_all add: rsys_inv_def)
  show ?thesis
    using step
  proof (cases rule: rstep.cases)
    case (r_poll l ev c q)
    have "handlers (cl (links st l)) \<le> handlers c"
      using r_poll(5) on_poll_handlers by (auto simp: loop_state_def)
    then show ?thesis
      using parts r_poll(1)
      by (intro rsys_inv_pool [OF inv c]) (auto simp: queued_calls_def cor_at_def count_handlers)
  next
    case (r_handler l js m trp0 s)
    have "count_list js (l', Handler) = handlers (cl (links st' l'))" for l'
      using parts(2) [of l'] r_handler by auto
    then show ?thesis
      using parts r_handler
      by (intro rsys_inv_pool [OF inv c]) (auto simp: queued_calls_def cor_at_def)
  next
    case (r_take l i js)
    then show ?thesis
      using parts parts(2) [of l' for l']
      by (intro rsys_inv_pool [OF inv c]) (auto simp: queued_calls_def cor_at_def)
  next
    case (r_move l i k e k' s)
    then show ?thesis
      using parts by (intro rsys_inv_pool [OF inv c]) (auto simp: queued_calls_def cor_at_def)
  next
    case (r_finish l i r)
    then show ?thesis
      using parts set_remove1_subset [of "(l, i)" "rbusy st"]
      by (intro rsys_inv_pool [OF inv c]) (auto simp: queued_calls_def cor_at_def length_remove1)
  next
    case (r_call l t k s pc i)
    have aw: "awaited l (pc i) = Some (t, i)" "awaited l (runner st l) = None"
      using calls_awaited [OF r_call(3)] by auto
    have new: "(t, i) \<notin> set (rbusy st) \<union> set (queued_calls st)"
    proof
      assume "(t, i) \<in> set (rbusy st) \<union> set (queued_calls st)"
      then obtain l' where "awaited l' (runner st l') = Some (t, i)" using rsys_inv_held [OF inv] by blast
      from rsys_inv_known [OF inv this] show False using r_call(4) by (simp add: cor_at_def)
    qed
    have q: "queued_calls st' = queued_calls st @ [(t, i)]"
      using r_call(1) by (simp add: queued_calls_def)
    have here: "cor_at st' (t, i) = Some k" using r_call(1) by (simp add: cor_at_def)
    have there: "cor_at st' x = cor_at st x" if "x \<noteq> (t, i)" for x
      using that r_call(1) by (cases x) (auto simp: cor_at_def)
    show ?thesis
    proof (rule rsys_invI)
      show "\<exists>l' < L. awaited l' (runner st' l') = Some x" if "x \<in> set (rbusy st') \<union> set (queued_calls st')" for x
      proof (cases "x = (t, i)")
        case True
        then show ?thesis using r_call(1,2) aw by (intro exI [of _ l]) simp
      next
        case False
        then have "x \<in> set (rbusy st) \<union> set (queued_calls st)" using that q r_call(1) by auto
        then obtain l' where l': "l' < L" "awaited l' (runner st l') = Some x" using rsys_inv_held [OF inv] by blast
        then have "l' \<noteq> l" using aw by auto
        with l' show ?thesis using r_call(1) by (intro exI [of _ l']) simp
      qed
      show "cor_at st' x \<noteq> None" if "awaited l' (runner st' l') = Some x" for l' x
        using that here there [of x] aw rsys_inv_known [OF inv, of l' x] r_call(1)
        by (cases "x = (t, i)") (auto split: if_splits)
      show "cor_at st' x \<noteq> Some (CDone r)" if "x \<in> set (queued_calls st')" for x r
        using that here there [of x] q rsys_inv_queued [OF inv, of x r] starts_not_done [OF calls_starts [OF r_call(3)], of r]
        by (cases "x = (t, i)") auto
      show "distinct (rbusy st' @ queued_calls st')" using parts(3) new q r_call(1) by auto
    qed (use c parts r_call(1) in auto)
  next
    case (r_resume l x r pc)
    have "x \<notin> set (queued_calls st)"
      using rsys_inv_queued [OF inv, of x r] r_resume(4) by (auto simp: finished_def cor_at_def)
    then show ?thesis
      using r_resume resumes_awaited [OF r_resume(5)]
      by (auto simp: finished_def intro: rsys_inv_runner [OF inv])
  next
    case (r_next l p)
    then show ?thesis using rsys_inv_runner [OF inv, of l RAsk] by simp
  qed
qed

interpretation rr: invariant_of "rsys_init seed" "rstep n L" "rsys_inv n L" for seed n L
  by unfold_locales (fact rsys_inv_init, fact rstep_inv)

lemma rreach_step: "rreach seed n L st \<Longrightarrow> rstep n L st st' \<Longrightarrow> rreach seed n L st'"
  by (rule reach_step)

subsection \<open>More workers than links\<close>

text \<open>C18: on a loop with more workers than the router has links, a worker is always free, and the oldest
  task is served: the handler of a received packet files it as the specification \<open>receive\<close> says.\<close>

theorem router_never_starves:
  assumes r: "rreach seed n L st" and more: "L < n" and j: "rjobs st = (l, j) # js"
  shows "\<exists>st'. rstep n L st st' \<and> rjobs st' = js \<and> (j = Handler \<longrightarrow> (\<exists>p. msg_ok p
     \<and> queued (ses (links st l)) = packet_bytes p # queued (ses (links st' l))
     \<and> mailbox (ses (links st' l)) = receive (cli_uid (ses (links st l))) p (mailbox (ses (links st l)))))"
proof -
  have inv: "rsys_inv n L st" by (rule rr.reach_inv [OF r])
  have free: "length (rbusy st) < n" using rbusy_le_links [OF inv] more by simp
  show ?thesis
  proof (cases j)
    case Handler
    have cinv: "csys_inv (links st l)" using inv by (simp add: rsys_inv_def)
    have "handlers (cl (links st l)) = count_list (rjobs st) (l, Handler)" using inv by (simp add: rsys_inv_def)
    then obtain m where m: "handlers (cl (links st l)) = Suc m" using j Handler by simp
    fix trp0
    obtain p s where "msg_ok p" "queued (ses (links st l)) = packet_bytes p # queued s"
      "dcn_on_message trp0 (ses (links st l)) = Inr s"
      "mailbox s = receive (cli_uid (ses (links st l))) p (mailbox (ses (links st l)))"
      using message_ok [OF cinv m, of trp0] by metis
    then show ?thesis using r_handler [of st l js n m _ s L] j Handler free m by fastforce
  next
    case (Call i)
    then show ?thesis using r_take [of st l i js n L] j free by (intro exI) auto
  qed
qed

subsection \<open>No more workers than links\<close>

text \<open>All workers are held by calls that sleep, and every runner awaits a call that is not done.\<close>

definition stalled :: "nat \<Rightarrow> nat \<Rightarrow> rsys \<Rightarrow> bool" where
  "stalled n L st \<longleftrightarrow> length (rbusy st) = n \<and> (\<forall>x \<in> set (rbusy st). \<exists>a. asleep (links st (fst x)) (snd x) a)
     \<and> (\<forall>l < L. \<exists>x. awaited l (runner st l) = Some x \<and> (\<forall>r. cor_at st x \<noteq> Some (CDone r)))"

definition at_rest :: "rsys \<Rightarrow> rsys \<Rightarrow> bool" where
  "at_rest st st' \<longleftrightarrow> runner st' = runner st \<and> rbusy st' = rbusy st \<and> prefix (rjobs st) (rjobs st')
     \<and> (\<forall>l. cor (links st' l) = cor (links st l) \<and> mailbox (ses (links st' l)) = mailbox (ses (links st l)))"

lemma stalled_step:
  assumes st: "stalled n L st" and step: "rstep n L st st'"
  shows "stalled n L st' \<and> at_rest st st'"
  using step
proof (cases rule: rstep.cases)
  case (r_poll l ev c q)
  have "asleep (links st' l') i a" if "asleep (links st l') i a" for l' i a
    using that r_poll(1) by (auto simp: asleep_def)
  moreover have "cor_at st' x = cor_at st x" for x using r_poll(1) by (auto simp: cor_at_def)
  ultimately show ?thesis using st r_poll(1) unfolding stalled_def at_rest_def by (fastforce simp: prefix_def)
next
  case (r_move l i k e k' s)
  then obtain a where "asleep (links st l) i a" using st by (fastforce simp: stalled_def)
  from asleep_blocked [OF this r_move(3)] r_move(5) show ?thesis by simp
next
  case (r_finish l i r)
  then obtain a where "asleep (links st l) i a" using st by (fastforce simp: stalled_def)
  with r_finish show ?thesis by (auto simp: asleep_def)
next
  case (r_call l t k s pc i)
  then show ?thesis using st calls_awaited [OF r_call(3)] by (auto simp: stalled_def)
next
  case (r_resume l x r pc)
  then show ?thesis using st by (fastforce simp: stalled_def finished_def cor_at_def)
next
  case (r_next l p)
  then show ?thesis using st by (fastforce simp: stalled_def)
qed (use st in \<open>simp_all add: stalled_def\<close>)

lemma at_rest_trans: "at_rest a b \<Longrightarrow> at_rest b c \<Longrightarrow> at_rest a c"
  by (auto simp: at_rest_def intro: prefix_order.trans)

lemma stalled_run:
  "stalled n L st \<Longrightarrow> is_run (rstep n L) st ts \<Longrightarrow> t \<in> set ts \<Longrightarrow> at_rest st t"
proof (induction ts arbitrary: st)
  case (Cons u ts)
  have u: "stalled n L u" "at_rest st u" using stalled_step [OF Cons.prems(1)] Cons.prems(2) by auto
  show ?case
  proof (cases "t = u")
    case False
    then show ?thesis using Cons.IH [OF u(1)] Cons.prems(2,3) at_rest_trans [OF u(2)] by simp
  qed (use u in simp)
qed simp

text \<open>The ping of one link, up to its wait.\<close>

lemma started_ping:
  obtains q s2 s3 where
    "ping (ses (started u)) = Inr (CExch JPing (ping_packet u) XPost)"
    "coro_step (env_with 1 2) (CExch JPing (ping_packet u) XPost) (ses (started u)) = Some (Inr (CExch JPing q XWatch, s2))"
    "coro_step (env_with 1 2) (CExch JPing q XWatch) s2 = Some (Inr (CExch JPing q (XWait 1), s3))"
    "env_ok (ses (started u)) (env_with 1 2)" "env_ok s2 (env_with 1 2)" "waiters s3 1 = Some waiter_init"
proof -
  let ?s = "ses (started u)" and ?p = "ping_packet u"
  have ok: "sess_ok ?s" by (simp add: started_def)
  obtain w where w: "coro_step (env_with 1 2) (CExch JPing ?p XPost) ?s
      = Some (Inr (CExch JPing (addressed ?s (dest_of JPing ?p) ?p) XWatch, ?s\<lparr>writeq := w\<rparr>))"
    by (rule post_move [OF ok ping_wf])
  have new: "new1 (env_with 1 2) = 1" by (simp add: env_with_def)
  have p: "ping ?s = Inr (CExch JPing ?p XPost)"
    by (simp add: ping_def packet_init_def ping_packet_def started_facts)
  have e: "env_ok ?s (env_with 1 2)" "env_ok (?s\<lparr>writeq := w\<rparr>) (env_with 1 2)"
    by (intro env_with_ok; simp add: started_facts)+
  have watched: "waiters (dcn_watch 1 q t) 1 = Some waiter_init" for q t by (simp add: dcn_watch_def)
  show thesis by (rule that [OF p w _ e watched]) (simp add: new)
qed

text \<open>The first \<open>k\<close> runners have called their pings; the first \<open>n\<close> of these hold the workers.\<close>

definition pinging_links :: "ullong \<Rightarrow> nat \<Rightarrow> nat \<Rightarrow> rsys \<Rightarrow> bool" where
  "pinging_links seed n k st \<longleftrightarrow> rbusy st = rev (map (\<lambda>l. (l, 0)) [0..<min n k])
     \<and> rjobs st = map (\<lambda>l. (l, Call 0)) [n..<k] \<and> (\<forall>l < min n k. \<exists>a. asleep (links st l) 0 a)
     \<and> (\<forall>l < k. runner st l = RPinged 0 \<and> (\<exists>j p x. cor (links st l) 0 = Some (CExch j p x)))
     \<and> (\<forall>l \<ge> k. runner st l = RPing \<and> links st l = started (seed + of_nat l))"

lemma pinging_links_Suc:
  assumes r: "rreach seed n L st" and p: "pinging_links seed n k st" and k: "k < L"
  shows "\<exists>st'. rreach seed n L st' \<and> pinging_links seed n (Suc k) st'"
proof -
  let ?u = "seed + of_nat k" and ?e = "env_with 1 2"
  have here: "links st k = started ?u" "runner st k = RPing" using p by (simp_all add: pinging_links_def)
  obtain q s2 s3 where ping: "ping (ses (started ?u)) = Inr (CExch JPing (ping_packet ?u) XPost)"
    and post: "coro_step ?e (CExch JPing (ping_packet ?u) XPost) (ses (started ?u)) = Some (Inr (CExch JPing q XWatch, s2))"
    and watch: "coro_step ?e (CExch JPing q XWatch) s2 = Some (Inr (CExch JPing q (XWait 1), s3))"
    and e: "env_ok (ses (started ?u)) ?e" "env_ok s2 ?e" and w: "waiters s3 1 = Some waiter_init"
    by (rule started_ping)
  have c: "calls k (runner st k) st k (CExch JPing (ping_packet ?u) XPost) (ses (started ?u)) RPinged"
    using call_ping [of st k] ping unfolding here by simp
  let ?c1 = "(started ?u)\<lparr>ses := ses (started ?u), cor := (cor (started ?u))(0 \<mapsto> CExch JPing (ping_packet ?u) XPost)\<rparr>"
  let ?s1 = "st\<lparr>links := (links st)(k := ?c1), rjobs := rjobs st @ [(k, Call 0)], runner := (runner st)(k := RPinged 0)\<rparr>"
  have r1: "rreach seed n L ?s1"
    using rreach_step [OF r r_call [OF k c, of 0]] by (simp add: here started_facts)
  show ?thesis
  proof (cases "k < n")
    case False
    then have "pinging_links seed n (Suc k) ?s1"
      using p by (auto simp: pinging_links_def min_def less_Suc_eq asleep_def)
    with r1 show ?thesis by blast
  next
    case True
    have j: "rjobs ?s1 = (k, Call 0) # []" "length (rbusy ?s1) < n"
      using p True by (simp_all add: pinging_links_def)
    let ?s2 = "?s1\<lparr>rjobs := [], rbusy := (k, 0) # rbusy ?s1\<rparr>"
    have r2: "rreach seed n L ?s2" by (rule rreach_step [OF r1 r_take [OF j]])
    let ?c3 = "?c1\<lparr>ses := s2, cor := (cor ?c1)(0 \<mapsto> CExch JPing q XWatch)\<rparr>"
    let ?s3 = "?s2\<lparr>links := (links ?s2)(k := ?c3)\<rparr>"
    have "rstep n L ?s2 (?s2\<lparr>links := (links ?s2)(k := (links ?s2 k)\<lparr>ses := s2,
        cor := (cor (links ?s2 k))(0 \<mapsto> CExch JPing q XWatch)\<rparr>)\<rparr>)"
      by (rule r_move [where e = ?e and k = "CExch JPing (ping_packet ?u) XPost"]) (use post e in \<open>simp_all del: coro_step.simps\<close>)
    then have r3: "rreach seed n L ?s3" using rreach_step [OF r2] by simp
    let ?c4 = "?c3\<lparr>ses := s3, cor := (cor ?c3)(0 \<mapsto> CExch JPing q (XWait 1))\<rparr>"
    let ?s4 = "?s3\<lparr>links := (links ?s3)(k := ?c4)\<rparr>"
    have "rstep n L ?s3 (?s3\<lparr>links := (links ?s3)(k := (links ?s3 k)\<lparr>ses := s3,
        cor := (cor (links ?s3 k))(0 \<mapsto> CExch JPing q (XWait 1))\<rparr>)\<rparr>)"
      by (rule r_move [where e = ?e and k = "CExch JPing q XWatch"]) (use watch e in \<open>simp_all del: coro_step.simps\<close>)
    then have r4: "rreach seed n L ?s4" using rreach_step [OF r3] by simp
    have "\<exists>a. asleep (links ?s4 k) 0 a" using w by (auto simp: asleep_def)
    moreover have "min n k = k" "min n (Suc k) = Suc k" using True by simp_all
    ultimately have "pinging_links seed n (Suc k) ?s4"
      using p True by (auto simp: pinging_links_def less_Suc_eq)
    with r4 show ?thesis by blast
  qed
qed

lemma pinging_links_reach: "k \<le> L \<Longrightarrow> \<exists>st. rreach seed n L st \<and> pinging_links seed n k st"
proof (induction k)
  case 0
  let ?st = "\<lparr>links = (\<lambda>l. started (seed + of_nat l)), rjobs = [], rbusy = [], runner = (\<lambda>_. RPing)\<rparr>"
  have "rreach seed n L ?st" by (rule reach_init) (simp add: rsys_init_def)
  then show ?case by (intro exI [of _ ?st]) (simp add: pinging_links_def)
next
  case (Suc k)
  then show ?case using pinging_links_Suc [of seed n L _ k] by fastforce
qed

text \<open>C39: a router with at least as many links as its loop has workers can stop before it has passed on
  anything: all runners have called their pings, these hold all workers, and from then on, whatever
  the servers send, no runner goes on and nothing received is filed.\<close>

theorem router_starves:
  assumes "n \<le> L"
  shows "\<exists>st. rreach seed n L st \<and> length (rbusy st) = n \<and> (\<forall>l < L. runner st l = RPinged 0)
     \<and> (\<forall>ts t. is_run (rstep n L) st ts \<longrightarrow> t \<in> set ts \<longrightarrow> runner t = runner st
          \<and> (\<forall>l. mailbox (ses (links t l)) = mailbox (ses (links st l))) \<and> prefix (rjobs st) (rjobs t))"
proof -
  obtain st where r: "rreach seed n L st" and p: "pinging_links seed n L st"
    using pinging_links_reach [of L L seed n] by auto
  then have b: "length (rbusy st) = n" and a: "\<forall>l < L. runner st l = RPinged 0"
    using assms by (simp_all add: pinging_links_def)
  have "stalled n L st"
    unfolding stalled_def
  proof (intro conjI allI impI ballI b)
    show "\<exists>a. asleep (links st (fst x)) (snd x) a" if "x \<in> set (rbusy st)" for x
      using that p assms by (auto simp: pinging_links_def)
    show "\<exists>x. awaited l (runner st l) = Some x \<and> (\<forall>r. cor_at st x \<noteq> Some (CDone r))" if "l < L" for l
      using that p by (fastforce simp: pinging_links_def cor_at_def)
  qed
  then have "at_rest st t" if "is_run (rstep n L) st ts" "t \<in> set ts" for ts t
    by (rule stalled_run) (use that in simp_all)
  with r b a show ?thesis by (intro exI [of _ st]) (simp add: at_rest_def)
qed

text \<open>The numbers of \<open>code/router.c\<close>, two links on four workers, are on the safe side; four links are not.\<close>

theorem router_starves_witness:
  "\<exists>st. rreach 100 4 4 st \<and> length (rbusy st) = 4
     \<and> (\<forall>ts t. is_run (rstep 4 4) st ts \<longrightarrow> t \<in> set ts \<longrightarrow> runner t = runner st)"
  using router_starves [of 4 4 100] by blast

theorem router_never_starves_witness:
  "\<exists>st st'. rreach 100 4 2 st \<and> rjobs st = [(0, Call 0)] \<and> rstep 4 2 st st' \<and> rjobs st' = []"
proof -
  let ?st = "\<lparr>links = (\<lambda>l. started (100 + of_nat l)), rjobs = [], rbusy = [], runner = (\<lambda>_. RPing)\<rparr>"
  have r: "rreach 100 4 2 ?st" by (rule reach_init) (simp add: rsys_init_def)
  have c: "calls 0 (runner ?st 0) ?st 0 (CExch JPing (ping_packet 100) XPost) (ses (started 100)) RPinged"
    using call_ping [of ?st 0 "CExch JPing (ping_packet 100) XPost"]
    by (simp add: ping_def packet_init_def ping_packet_def started_facts)
  obtain t where t: "rstep 4 2 ?st t" "rjobs t = [(0, Call 0)]"
    using r_call [OF _ c, of 2 0 4] by (simp add: started_facts)
  from router_never_starves [OF rreach_step [OF r t(1)] _ t(2)] t rreach_step [OF r t(1)] show ?thesis by fastforce
qed

end
