(* ===== verification/Transport.thy ===== *)
theory Transport
  imports NetClient
begin

text \<open>
  The two socket loops connected: the bytes that \<open>run_client\<close> writes, cut by TCP in any way, are
  what the receive loop of the server reads, and the other way round.
\<close>

lemma packets_feed:
  assumes "\<forall>p \<in> set ps. packet_wf p" and "concat cs = concat (map packet_bytes ps)"
  shows "feed_all frames [] cs = Some (map packet_bytes ps, [])"
proof -
  have ne: "next_frame [] = None" by (simp add: next_frame_def)
  have "frames (concat cs) = Some (map packet_bytes ps, [])"
    using frames_packets [OF assms(1) ne] assms(2) by simp
  then show ?thesis using pk.feed_all_concat [OF ne, of cs] by simp
qed

text \<open>C7: a connection carries packets in both directions.  What a client has queued, written in whole
  blocks, arrives at the server as the same packets in the same order, each with one worker,
  however TCP cuts the bytes; and packets that arrive at a client in any chunks are queued and get
  one handler each.\<close>

theorem connection_carries_packets:
  assumes wf: "\<forall>p \<in> set ps. packet_wf p" "\<forall>p \<in> set rs. packet_wf p"
    and c: "is_active c" "cl_inv (c, qr, qw)" "wire c = []" "qb_bytes (acc c) = []"
    and out: "contents qw = map packet_bytes ps" "list_all2 writes_all evs (map packet_bytes ps)"
    and inc: "list_all2 reads_chunk evs' cs'" "concat cs' = concat (map packet_bytes rs)"
  shows "\<exists>c1 qw1 c2 qr2. run_client evs (c, qr, qw) = Some (Inr (c1, qr, qw1)) \<and> contents qw1 = []
     \<and> (\<forall>cs. concat cs = wire c1 \<longrightarrow> (\<exists>acc q. recv_chunks qblock_init queue_init 0 cs = Some (Inr (acc, q, length ps))
          \<and> qb_bytes acc = [] \<and> contents q = map packet_bytes ps))
     \<and> run_client evs' (c1, qr, qw1) = Some (Inr (c2, qr2, qw1))
     \<and> contents qr2 = contents qr @ map packet_bytes rs \<and> handlers c2 = handlers c + length rs \<and> qb_bytes (acc c2) = []"
proof -
  obtain c1 qw1 where w: "run_client evs (c, qr, qw) = Some (Inr (c1, qr, qw1))" "cl_inv (c1, qr, qw1)" "is_active c1"
    "wire c1 = concat (map packet_bytes ps)" "contents qw1 = []" "acc c1 = acc c" "handlers c1 = handlers c"
    using run_client_writes [OF out(2) c(1,2), of "[]"] out(1) c(3) by auto
  have "feed_all frames (qb_bytes (acc c1)) cs' = Some (map packet_bytes rs, [])"
    using packets_feed [OF wf(2) inc(2)] w(6) c(4) by simp
  from run_client_feed_all [OF inc(1) w(3,2) this] obtain c2 qr2 where
    r: "run_client evs' (c1, qr, qw1) = Some (Inr (c2, qr2, qw1))" "handlers c2 = handlers c1 + length rs"
      "qb_bytes (acc c2) = []" "contents qr2 = contents qr @ map packet_bytes rs" by auto
  have "\<exists>acc q. recv_chunks qblock_init queue_init 0 cs = Some (Inr (acc, q, length ps))
      \<and> qb_bytes acc = [] \<and> contents q = map packet_bytes ps" if "concat cs = wire c1" for cs
  proof -
    have "feed_all frames (qb_bytes qblock_init) cs = Some (map packet_bytes ps, [])"
      using packets_feed [OF wf(1), of cs] that w(4) by simp
    from recv_chunks_feed_all [OF this, of queue_init 0] show ?thesis by auto
  qed
  with w r show ?thesis by (intro exI [of _ c1] exI [of _ qw1] exI [of _ c2] exI [of _ qr2]) auto
qed

text \<open>A write and a read of one packet.\<close>

definition write_event :: "byte list \<Rightarrow> poll_ev" where
  "write_event bs = \<lparr>pl_ret = 1, pl_in = False, pl_out = True, pl_reads = [], pl_aok = True, pl_sok = True,
     pl_write = Wrote (length bs)\<rparr>"

definition read_event :: "byte list \<Rightarrow> poll_ev" where
  "read_event bs = \<lparr>pl_ret = 1, pl_in = True, pl_out = False, pl_reads = [ReadBytes bs True], pl_aok = True, pl_sok = True,
     pl_write = WouldBlock\<rparr>"

lemma write_event_all: "writes_all (write_event bs) bs"
  by (simp add: writes_all_def write_event_def)

lemma read_event_chunk: "bs \<noteq> [] \<Longrightarrow> length bs < MAX_BUFFER_SIZE \<Longrightarrow> reads_chunk (read_event bs) bs"
  by (simp add: reads_chunk_def read_event_def)

theorem connection_carries_packets_witness:
  "\<exists>c1 qw1 c2 qr2. run_client [write_event (packet_bytes (sample_packet 7 9))]
       (cloop_init, queue_init, enqueue queue_init (mk_block (packet_bytes (sample_packet 7 9)))) = Some (Inr (c1, queue_init, qw1))
     \<and> run_client [read_event (packet_bytes (sample_packet 9 7))] (c1, queue_init, qw1) = Some (Inr (c2, qr2, qw1))
     \<and> contents qr2 = [packet_bytes (sample_packet 9 7)] \<and> handlers c2 = 1"
proof -
  let ?b = "packet_bytes (sample_packet 7 9)" and ?r = "packet_bytes (sample_packet 9 7)"
  let ?q = "enqueue queue_init (mk_block ?b)"
  have q: "queue_inv ?q" "contents ?q = map packet_bytes [sample_packet 7 9]"
    using bq.qok_enq [of queue_init "mk_block ?b"] bq.stored_enq [of queue_init "mk_block ?b"] by simp_all
  have len: "length ?r = 63" using length_packet_bytes [of "sample_packet 9 7"] sample_packet_wf [of 9 7] by simp
  then have "?r \<noteq> []" by (metis list.size(3) zero_neq_numeral)
  then have ev: "list_all2 reads_chunk [read_event ?r] [?r]" "list_all2 writes_all [write_event ?b] (map packet_bytes [sample_packet 7 9])"
    using read_event_chunk [of ?r] len write_event_all by (simp_all add: MAX_BUFFER_SIZE_def)
  have c: "is_active cloop_init" "cl_inv (cloop_init, queue_init, ?q)" "wire cloop_init = []" "qb_bytes (acc cloop_init) = []"
    "handlers cloop_init = 0"
    using q(1) by (simp_all add: cloop_init_def cl_inv_def)
  show ?thesis
    using connection_carries_packets [of "[sample_packet 7 9]" "[sample_packet 9 7]" cloop_init queue_init ?q
        "[write_event ?b]" "[read_event ?r]" "[?r]", OF _ _ c(1-4) q(2) ev(2,1)] sample_packet_wf c(5)
    by (auto simp del: run_client.simps)
qed

end
