(* ===== verification/Wrappers.thy ===== *)
theory Wrappers
  imports Router
begin

text \<open>
  The C++ wrappers of \<open>code/DCN/src/xdnet/client.cpp\<close>: \<open>xdnet::Packet\<close>, an object with the data of
  a packet and a pointer to a C packet that its copies share, and \<open>xdnet::DClient\<close>, a client session.
  The C packets are in a heap of their own; \<open>fresh\<close> is the address that the allocator answers and
  \<open>junk\<close> what is in a block that it has not cleared.
\<close>

type_synonym cpacks = "addr \<rightharpoonup> packet"

record xpacket =
  c_ver :: addr
  xdata :: "byte list"
  xtype :: PACKET_TYPE
  x_from :: ullong
  x_to :: ullong
  x_trav :: ullong

text \<open>The constructors from data; without UIDs they are 0.\<close>

definition xpacket_new :: "byte list \<Rightarrow> ullong \<Rightarrow> ullong \<Rightarrow> xpacket" where
  "xpacket_new bs from to =
     \<lparr>c_ver = 0, xdata = bs, xtype = REQUEST, x_from = from, x_to = to, x_trav = 0\<rparr>"

text \<open>The constructor from a C packet, which it copies and tears down but does not free.\<close>

definition xpacket_of_c :: "addr \<Rightarrow> addr \<Rightarrow> cpacks \<Rightarrow> (xpacket \<times> cpacks) res" where
  "xpacket_of_c fresh pack cs =
     (if pack = 0 then Inr (xpacket_new [] 0 0, cs)
      else case cs pack of
        None \<Rightarrow> Inl UseAfterFree
      | Some p \<Rightarrow>
          bind_res (copy_packet p) (\<lambda>c.
          bind_res (if dsize (pdata c) = 0 then Inr [] else memcpy_from (data (pdata c)) (dsize (pdata c))) (\<lambda>bs.
          Inr (\<lparr>c_ver = fresh, xdata = bs, xtype = REQUEST, x_from = from_uid c, x_to = to_uid c, x_trav = trav_fuid c\<rparr>,
               cs(pack \<mapsto> packet_free p, fresh \<mapsto> c)))))"

text \<open>The copy constructor: \<open>trav_fuid\<close> keeps its default.\<close>

definition xpacket_copy :: "xpacket \<Rightarrow> xpacket" where
  "xpacket_copy x = x\<lparr>x_trav := 0\<rparr>"

definition xcleanup :: "xpacket \<Rightarrow> cpacks \<Rightarrow> cpacks res" where
  "xcleanup x cs =
     (if c_ver x = 0 then Inr cs
      else case cs (c_ver x) of
        None \<Rightarrow> Inl UseAfterFree
      | Some _ \<Rightarrow> Inr (cs(c_ver x := None)))"

text \<open>The C packet that an object is compiled into: its own, or a new one.\<close>

definition own_packet :: "addr \<Rightarrow> packet \<Rightarrow> xpacket \<Rightarrow> cpacks \<Rightarrow> (addr \<times> packet) res" where
  "own_packet fresh junk x cs =
     (if c_ver x = 0 then Inr (fresh, junk)
      else case cs (c_ver x) of None \<Rightarrow> Inl UseAfterFree | Some p \<Rightarrow> Inr (c_ver x, p))"

text \<open>\<open>&data[0]\<close> is a reference to an element, which an empty vector does not have.\<close>

definition templ_compile :: "addr \<Rightarrow> packet \<Rightarrow> xpacket \<Rightarrow> cpacks \<Rightarrow> (xpacket \<times> cpacks) res" where
  "templ_compile fresh junk x cs =
     bind_res (own_packet fresh junk x cs) (\<lambda>(a, p).
     if xdata x = [] then Inl OutOfBounds
     else bind_res (packet_templ p (xdata x)) (\<lambda>p. Inr (x\<lparr>c_ver := a\<rparr>, cs(a \<mapsto> p))))"

definition full_compile :: "addr \<Rightarrow> packet \<Rightarrow> PACKET_TYPE \<Rightarrow> ullong \<Rightarrow> xpacket \<Rightarrow> cpacks \<Rightarrow> (xpacket \<times> cpacks) res" where
  "full_compile fresh junk type m x cs =
     bind_res (own_packet fresh junk x cs) (\<lambda>(a, _).
     if xdata x = [] then Inl OutOfBounds
     else bind_res (packet_init (Buf (xdata x)) (length (xdata x)) (x_from x) (x_to x) m) (\<lambda>p.
       Inr (x\<lparr>c_ver := a, xtype := type\<rparr>, cs(a \<mapsto> p\<lparr>packtype := pt_code type\<rparr>))))"

subsection \<open>The client\<close>

record dclient =
  dstate :: dnet_st
  dsession :: bool    \<comment> \<open>\<open>session\<close> is not \<open>nullptr\<close>\<close>

abbreviation dsess :: "dclient \<Rightarrow> session" where
  "dsess d \<equiv> ds_session (dstate d)"

definition set_dsess :: "session \<Rightarrow> dclient \<Rightarrow> dclient" where
  "set_dsess s d = d\<lparr>dstate := (dstate d)\<lparr>ds_session := s\<rparr>\<rparr>"

text \<open>The constructor does not look at the status of \<open>dnet_state\<close>; \<open>junk\<close> is the member before.\<close>

definition dclient_new ::
  "(string \<Rightarrow> 32 word) \<Rightarrow> places \<Rightarrow> int \<Rightarrow> conn_ans \<Rightarrow> string \<Rightarrow> 16 word \<Rightarrow> ullong \<Rightarrow> dnet_st \<Rightarrow> fds \<Rightarrow> (dclient \<times> fds) res" where
  "dclient_new inet pl sock conn str pt uid junk fds =
     bind_res (dnet_state inet pl sock conn str pt uid junk fds) (\<lambda>(_, state, fds).
     Inr (\<lparr>dstate = state, dsession = False\<rparr>, fds))"

definition dclient_run :: "dclient \<Rightarrow> dclient" where
  "dclient_run d = d\<lparr>dstate := dnet_run (dstate d), dsession := True\<rparr>"

definition dclient_end :: "dclient \<Rightarrow> fds \<Rightarrow> (dclient \<times> fds) res" where
  "dclient_end d fds = bind_res (dnet_stop (dstate d) fds) (\<lambda>(state, fds). Inr (d\<lparr>dstate := state\<rparr>, fds))"

text \<open>The call of \<open>request\<close> on the compiled packet.\<close>

definition xrequest :: "xpacket \<Rightarrow> ullong \<Rightarrow> ullong \<Rightarrow> PACKET_TYPE \<Rightarrow> dclient \<Rightarrow> cpacks \<Rightarrow> (coro option \<times> dclient \<times> cpacks) res" where
  "xrequest x to trav type d cs =
     (case cs (c_ver x) of
        None \<Rightarrow> Inl UseAfterFree
      | Some p \<Rightarrow>
          (if \<not> dsession d then Inl NullAccess
           else case request p to trav (pt_code type) (dsess d) of
             (p, k, s) \<Rightarrow> Inr (k, set_dsess s d, cs(c_ver x \<mapsto> p))))"

text \<open>The three forms of \<open>make_request\<close>; each works on a copy of the caller's object.\<close>

definition make_request_from ::
  "addr \<Rightarrow> packet \<Rightarrow> xpacket \<Rightarrow> ullong \<Rightarrow> ullong \<Rightarrow> PACKET_TYPE \<Rightarrow> dclient \<Rightarrow> cpacks
   \<Rightarrow> (coro option \<times> dclient \<times> cpacks) res" where
  "make_request_from fresh junk pack from to type d cs =
     bind_res (templ_compile fresh junk ((xpacket_copy pack)\<lparr>x_from := from, x_to := to\<rparr>) cs) (\<lambda>(x, cs).
     xrequest x to from type d cs)"

definition make_request_to ::
  "addr \<Rightarrow> packet \<Rightarrow> xpacket \<Rightarrow> ullong \<Rightarrow> PACKET_TYPE \<Rightarrow> dclient \<Rightarrow> cpacks
   \<Rightarrow> (coro option \<times> dclient \<times> cpacks) res" where
  "make_request_to fresh junk pack to type d cs =
     bind_res (templ_compile fresh junk ((xpacket_copy pack)\<lparr>x_to := to\<rparr>) cs) (\<lambda>(x, cs).
     if \<not> dsession d then Inl NullAccess else xrequest x to (cli_uid (dsess d)) type d cs)"

definition make_request ::
  "addr \<Rightarrow> packet \<Rightarrow> xpacket \<Rightarrow> dclient \<Rightarrow> cpacks \<Rightarrow> (coro option \<times> dclient \<times> cpacks) res" where
  "make_request fresh junk pack d cs =
     bind_res (templ_compile fresh junk (xpacket_copy pack) cs) (\<lambda>(x, cs).
     xrequest x (x_to x) (x_from x) (xtype x) d cs)"

definition misc_gather :: "bool \<Rightarrow> coro" where
  "misc_gather neg = async_misc_grequests neg"

definition gather_from :: "ullong \<Rightarrow> coro" where
  "gather_from from = async_grequests from"

subsection \<open>Properties\<close>

text \<open>An object that is compiled and read back from its C packet has the same data and UIDs, but is
  a \<open>REQUEST\<close> whatever it was; the C packet that it was read from is emptied, not freed.\<close>

theorem xpacket_round_trip:
  assumes "c_ver x = 0" and "xdata x \<noteq> []" and "a \<noteq> 0" "b \<noteq> 0" "a \<noteq> b"
  shows "\<exists>x1 cs1 x2 cs2. full_compile a junk type m x cs = Inr (x1, cs1) \<and> xtype x1 = type
     \<and> xpacket_of_c b (c_ver x1) cs1 = Inr (x2, cs2) \<and> xdata x2 = xdata x \<and> x_from x2 = x_from x \<and> x_to x2 = x_to x
     \<and> xtype x2 = REQUEST \<and> c_ver x2 = b \<and> map_option (data \<circ> pdata) (cs2 a) = Some Null"
proof -
  let ?p = "\<lparr>packtype = pt_code type, from_os = False, from_uid = x_from x, to_uid = x_to x, trav_fuid = 0,
     trav_tuid = 0, muid = m, cmuid = 0, pdata = mk_block (xdata x)\<rparr>"
  let ?cs = "cs(a \<mapsto> ?p)"
  have "packet_init (Buf (xdata x)) (length (xdata x)) (x_from x) (x_to x) m = Inr (?p\<lparr>packtype := pt_code REQUEST\<rparr>)"
    using assms(2) by (simp add: packet_init_def memcpy_from_def mk_block_def qblock_init_def)
  then have c: "full_compile a junk type m x cs = Inr (x\<lparr>c_ver := a, xtype := type\<rparr>, ?cs)"
    using assms(1,2) by (simp add: full_compile_def own_packet_def)
  have "copy_packet ?p = Inr ?p" using copy_packet_ok [of ?p] by simp
  moreover have "dsize (mk_block (xdata x)) \<noteq> 0"
    "memcpy_from (data (mk_block (xdata x))) (dsize (mk_block (xdata x))) = Inr (xdata x)"
    using assms(2) by (simp_all add: mk_block_def memcpy_from_def)
  ultimately have "xpacket_of_c b a ?cs = Inr (\<lparr>c_ver = b, xdata = xdata x, xtype = REQUEST, x_from = x_from x,
      x_to = x_to x, x_trav = 0\<rparr>, ?cs(a \<mapsto> packet_free ?p, b \<mapsto> ?p))"
    using assms(3) by (simp add: xpacket_of_c_def)
  with c show ?thesis using assms(5) by (simp add: packet_free_def qblock_free_def)
qed

text \<open>A heap of C packets with one that holds two bytes.\<close>

definition one_cpack :: "addr \<Rightarrow> cpacks" where
  "one_cpack a = [a \<mapsto> sample_packet 7 9]"

theorem xpacket_round_trip_witness:
  "\<exists>x1 cs1 x2 cs2. full_compile 16 (sample_packet 0 0) SIGNAL 3 (xpacket_new [1, 2] 7 9) Map.empty = Inr (x1, cs1)
     \<and> xpacket_of_c 32 (c_ver x1) cs1 = Inr (x2, cs2) \<and> xdata x2 = [1, 2] \<and> xtype x2 = REQUEST"
  using xpacket_round_trip [of "xpacket_new [1, 2] 7 9" 16 32 "sample_packet 0 0" SIGNAL 3 Map.empty]
  by (auto simp: xpacket_new_def)

text \<open>Copies of an object share its C packet: when one of them has been cleaned up, cleaning up or
  compiling the other goes through a freed pointer.\<close>

theorem copies_share_packet:
  assumes "c_ver x \<noteq> 0" and "cs (c_ver x) = Some p"
  shows "\<exists>cs'. xcleanup x cs = Inr cs' \<and> xcleanup (xpacket_copy x) cs' = Inl UseAfterFree
     \<and> templ_compile fresh junk (xpacket_copy x) cs' = Inl UseAfterFree"
  using assms by (simp add: xcleanup_def xpacket_copy_def templ_compile_def own_packet_def)

theorem copies_share_packet_witness:
  "\<exists>cs'. xcleanup ((xpacket_new [7, 8] 7 9)\<lparr>c_ver := 16\<rparr>) (one_cpack 16) = Inr cs'
     \<and> xcleanup (xpacket_copy ((xpacket_new [7, 8] 7 9)\<lparr>c_ver := 16\<rparr>)) cs' = Inl UseAfterFree"
  using copies_share_packet [of "(xpacket_new [7, 8] 7 9)\<lparr>c_ver := 16\<rparr>" "one_cpack 16" "sample_packet 7 9"]
  by (auto simp: one_cpack_def)

lemma request_fields:
  "request p to trv ptype s = (q, k, s') \<Longrightarrow>
   pdata q = pdata p \<and> from_uid q = cli_uid s \<and> to_uid q = to \<and> packtype q = ptype \<and> trav_fuid q = trv"
  by (auto simp: request_def Let_def split: option.splits if_splits)

text \<open>
  What a request of the object \<open>x\<close> amounts to: undefined without data or before \<open>run\<close>; otherwise a new
  C packet with the data of \<open>x\<close>, from the UID of the client, and a call of \<open>request\<close> on it, which starts
  a coroutine for this packet unless it is a response to a user that the client has never asked.
\<close>

definition requests_packet ::
  "addr \<Rightarrow> packet \<Rightarrow> xpacket \<Rightarrow> ullong \<Rightarrow> ullong \<Rightarrow> PACKET_TYPE \<Rightarrow> dclient \<Rightarrow> cpacks
   \<Rightarrow> (coro option \<times> dclient \<times> cpacks) res \<Rightarrow> bool" where
  "requests_packet fresh junk x to trav type d cs r \<longleftrightarrow>
     (if xdata x = [] then r = Inl OutOfBounds
      else if \<not> dsession d then r = Inl NullAccess
      else \<exists>p k s. r = Inr (k, set_dsess s d, cs(fresh \<mapsto> p))
       \<and> request (junk\<lparr>pdata := mk_block (xdata x)\<rparr>) to trav (pt_code type) (dsess d) = (p, k, s)
       \<and> k = (if pt_code type = pt_code RESPONSE \<and> to \<noteq> 0 \<and> map_ptr (last_c_muids (dsess d)) to = None then None
              else Some (CReq p))
       \<and> qb_bytes (pdata p) = xdata x \<and> from_uid p = cli_uid (dsess d) \<and> to_uid p = to
       \<and> packtype p = pt_code type \<and> trav_fuid p = trav)"

lemma xrequest_packet:
  assumes "xdata x \<noteq> []" and "cs' = cs(c_ver y \<mapsto> junk\<lparr>pdata := mk_block (xdata x)\<rparr>)" and "c_ver y = fresh"
  shows "requests_packet fresh junk x to trav type d cs (xrequest y to trav type d cs')"
proof -
  let ?q = "junk\<lparr>pdata := mk_block (xdata x)\<rparr>"
  obtain p k s where r: "request ?q to trav (pt_code type) (dsess d) = (p, k, s)"
    by (cases "request ?q to trav (pt_code type) (dsess d)") auto
  have "k = (if pt_code type = pt_code RESPONSE \<and> to \<noteq> 0 \<and> map_ptr (last_c_muids (dsess d)) to = None then None
      else Some (CReq p))"
    using r by (auto simp: request_def Let_def split: option.splits if_splits)
  then show ?thesis
    using assms request_fields [OF r] r by (simp add: requests_packet_def xrequest_def)
qed

text \<open>C30: each of the three forms of \<open>make_request\<close>, on an object that has not been compiled before, sends
  the data of the object in a new C packet that the caller's object does not point to, from the UID of
  the client to the recipient asked for; as first sender the packet names the client, the \<open>from\<close> asked
  for, or the sender of the object.  Before \<open>run\<close>, or without data, the call is undefined; a response to
  a user that was never asked is not sent.\<close>

theorem make_request_sends:
  assumes "c_ver x = 0"
  shows "requests_packet fresh junk x to (cli_uid (dsess d)) type d cs (make_request_to fresh junk x to type d cs)
     \<and> requests_packet fresh junk x to from type d cs (make_request_from fresh junk x from to type d cs)
     \<and> requests_packet fresh junk x (x_to x) (x_from x) (xtype x) d cs (make_request fresh junk x d cs)"
proof (cases "xdata x = []")
  case True
  then show ?thesis
    using assms
    by (simp add: requests_packet_def make_request_to_def make_request_from_def make_request_def templ_compile_def
        own_packet_def xpacket_copy_def)
next
  case False
  let ?cs = "cs(fresh \<mapsto> junk\<lparr>pdata := mk_block (xdata x)\<rparr>)"
  have c: "templ_compile fresh junk y cs = Inr (y\<lparr>c_ver := fresh\<rparr>, ?cs)" if "c_ver y = 0" "xdata y = xdata x" for y
    using that False
    by (simp add: templ_compile_def own_packet_def packet_templ_def mk_block_def qblock_init_def)
  have q: "requests_packet fresh junk x u t ty d cs (xrequest (y\<lparr>c_ver := fresh\<rparr>) u t ty d ?cs)" for u t ty y
    by (rule xrequest_packet [OF False]) simp_all
  have run: "make_request_to fresh junk x to type d cs
      = xrequest ((xpacket_copy x)\<lparr>x_to := to, c_ver := fresh\<rparr>) to (cli_uid (dsess d)) type d ?cs"
    using assms by (simp add: make_request_to_def c xpacket_copy_def xrequest_def)
  have "make_request_from fresh junk x from to type d cs
      = xrequest ((xpacket_copy x)\<lparr>x_from := from, x_to := to, c_ver := fresh\<rparr>) to from type d ?cs"
    "make_request fresh junk x d cs = xrequest ((xpacket_copy x)\<lparr>c_ver := fresh\<rparr>) (x_to x) (x_from x) (xtype x) d ?cs"
    using assms by (simp_all add: make_request_from_def make_request_def c xpacket_copy_def)
  with run show ?thesis using q by simp
qed

definition seven :: dclient where
  "seven = dclient_run \<lparr>dstate = linked (\<lambda>_. 0) \<lparr>at_loop = 16, at_allc = 32, at_socket = 48\<rparr> 3 ''127.0.0.1'' 9000 7 blank_st, dsession = False\<rparr>"

theorem make_request_sends_witness:
  "\<exists>p s. make_request_to 16 (sample_packet 0 0) (xpacket_new [1, 2] 0 0) 9 REQUEST seven Map.empty
     = Inr (Some (CReq p), set_dsess s seven, [16 \<mapsto> p]) \<and> qb_bytes (pdata p) = [1, 2] \<and> to_uid p = 9"
  using make_request_sends [of "xpacket_new [1, 2] 0 0" 16 "sample_packet 0 0" 9 seven REQUEST Map.empty 0]
  by (auto simp: requests_packet_def xpacket_new_def seven_def dclient_run_def)

end
