(* ===== verification/Allocator.thy ===== *)
theory Allocator
  imports Interfaces Floats
begin

text \<open>
  The tracking allocator of \<open>code/DCN/src/allocator.c\<close>: a chained hash table of the pointers
  that \<open>malloc\<close>, \<open>calloc\<close> and \<open>realloc\<close> handed out, so that \<open>alc_gcollect\<close> can free
  whatever was not freed.  A chain is the list of its nodes' pointers, head first; the nodes
  themselves are list cells.  libc's heap is a map from the live blocks to their bytes, and what
  libc answers to a request is an argument of the operation.  A null pointer is the address 0.
\<close>

type_synonym heap = "addr \<rightharpoonup> byte list"

record allocator =
  buckets :: "addr list list"
  asize :: nat
  capacity :: nat

type_synonym alc_state = "allocator \<times> heap"

definition HASH_TABLE_SIZE :: nat where
  "HASH_TABLE_SIZE = 1024"

text \<open>The product wraps around in \<open>uintptr_t\<close>.\<close>

definition hash_ptr :: "addr \<Rightarrow> nat \<Rightarrow> nat" where
  "hash_ptr ptr table_size = unat (ptr * 2654435761) mod table_size"

subsection \<open>The load factor in single precision\<close>

text \<open>\<open>(float)n\<close>.\<close>

definition f32_of_nat :: "nat \<Rightarrow> nat" where
  "f32_of_nat n = round_sig 24 n"

text \<open>
  \<open>(float)size / capacity > 0.75\<close>.  The capacity is a power of two, so the float quotient is
  exact and the comparison is one of the rounded values.
\<close>

definition load_exceeded :: "nat \<Rightarrow> nat \<Rightarrow> bool" where
  "load_exceeded sz cap \<longleftrightarrow> 4 * f32_of_nat sz > 3 * f32_of_nat cap"

subsection \<open>The table\<close>

text \<open>Pushing a node on the chain of its index, as every insertion does.\<close>

definition link_bucket :: "addr \<Rightarrow> addr list list \<Rightarrow> nat \<Rightarrow> addr list list" where
  "link_bucket p bs cap = bs[hash_ptr p cap := p # bs ! hash_ptr p cap]"

fun rehash_chain :: "nat \<Rightarrow> addr list \<Rightarrow> addr list list \<times> nat \<Rightarrow> addr list list \<times> nat" where
  "rehash_chain cap [] (bs, n) = (bs, n)"
| "rehash_chain cap (p # ps) (bs, n) = rehash_chain cap ps (link_bucket p bs cap, Suc n)"

text \<open>\<open>hash_table_resize\<close>; \<open>ok\<close> says whether the new table can be allocated.\<close>

definition hash_table_resize :: "bool \<Rightarrow> allocator \<Rightarrow> nat \<Rightarrow> allocator" where
  "hash_table_resize ok a new_capacity =
     (if \<not> ok then a
      else let (bs, n) = fold (rehash_chain new_capacity) (buckets a) (replicate new_capacity [], 0)
           in a\<lparr>buckets := bs, capacity := new_capacity, asize := n\<rparr>)"

definition allocator_init :: allocator where
  "allocator_init =
     \<lparr>buckets = replicate HASH_TABLE_SIZE [], asize = 0, capacity = HASH_TABLE_SIZE\<rparr>"

definition track :: "addr \<Rightarrow> allocator \<Rightarrow> allocator" where
  "track p a = a\<lparr>buckets := link_bucket p (buckets a) (capacity a), asize := asize a + 1\<rparr>"

text \<open>The search of \<open>alc_free\<close> and \<open>alc_realloc\<close>: unlink the first node that holds \<open>p\<close>.\<close>

fun unlink :: "addr \<Rightarrow> addr list \<Rightarrow> addr list option" where
  "unlink p [] = None"
| "unlink p (c # cs) = (if c = p then Some cs else map_option (Cons c) (unlink p cs))"

definition untrack :: "addr \<Rightarrow> allocator \<Rightarrow> allocator option" where
  "untrack p a =
     (let i = hash_ptr p (capacity a) in
      map_option (\<lambda>ch. a\<lparr>buckets := (buckets a)[i := ch], asize := asize a - 1\<rparr>)
        (unlink p (buckets a ! i)))"

subsection \<open>libc's heap\<close>

definition sys_free :: "addr \<Rightarrow> heap \<Rightarrow> heap res" where
  "sys_free p h = (if h p = None then Inl DoubleFree else Inr (h(p := None)))"

subsection \<open>Operations\<close>

text \<open>
  \<open>ans\<close> is what \<open>malloc\<close> answers and \<open>junk\<close> the bytes the new block happens to hold; \<open>rok\<close>
  says whether a table to grow into can be allocated.
\<close>

definition alc_malloc ::
  "bool \<Rightarrow> addr option \<Rightarrow> byte list \<Rightarrow> alc_state \<Rightarrow> addr option \<times> alc_state" where
  "alc_malloc rok ans junk s =
     (case (ans, s) of
        (None, _) \<Rightarrow> (None, s)
      | (Some ptr, (a, h)) \<Rightarrow>
          (let a = (if load_exceeded (asize a) (capacity a)
                    then hash_table_resize rok a (capacity a * 2) else a)
           in (Some ptr, (track ptr a, h(ptr \<mapsto> junk)))))"

definition alc_calloc :: "addr option \<Rightarrow> nat \<Rightarrow> nat \<Rightarrow> alc_state \<Rightarrow> addr option \<times> alc_state" where
  "alc_calloc ans count sz s =
     (case (ans, s) of
        (None, _) \<Rightarrow> (None, s)
      | (Some ptr, (a, h)) \<Rightarrow>
          (Some ptr, (track ptr a, h(ptr \<mapsto> replicate (count * sz) 0))))"

definition alc_free :: "addr \<Rightarrow> alc_state \<Rightarrow> alc_state res" where
  "alc_free ptr s =
     (case s of (a, h) \<Rightarrow>
        if ptr = 0 then Inr s
        else case untrack ptr a of
          None \<Rightarrow> Inr s
        | Some a \<Rightarrow> (case sys_free ptr h of Inl e \<Rightarrow> Inl e | Inr h \<Rightarrow> Inr (a, h)))"

text \<open>
  \<open>realloc\<close> keeps the old bytes up to the new size; behind them the block holds \<open>junk\<close>.
\<close>

definition alc_realloc ::
  "bool \<Rightarrow> addr option \<Rightarrow> byte list \<Rightarrow> addr \<Rightarrow> nat \<Rightarrow> alc_state
   \<Rightarrow> (addr option \<times> alc_state) res" where
  "alc_realloc rok ans junk ptr new_bytes s =
     (if ptr = 0 then Inr (alc_malloc rok ans junk s)
      else if new_bytes = 0 then
        (case alc_free ptr s of Inl e \<Rightarrow> Inl e | Inr s \<Rightarrow> Inr (None, s))
      else case s of (a, h) \<Rightarrow>
        (case untrack ptr a of
           None \<Rightarrow> Inr (None, s)
         | Some a \<Rightarrow>
             (case h ptr of
                None \<Rightarrow> Inl UseAfterFree
              | Some old \<Rightarrow>
                  (case ans of
                     None \<Rightarrow> Inr (None, (track ptr a, h))
                   | Some new_ptr \<Rightarrow>
                       (let a = track new_ptr a;
                            h = (h(ptr := None))
                                  (new_ptr \<mapsto> take new_bytes old @ drop (length old) junk);
                            a = (if load_exceeded (asize a) (capacity a)
                                 then hash_table_resize rok a (capacity a * 2) else a)
                        in Inr (Some new_ptr, (a, h)))))))"

fun free_all :: "addr list \<Rightarrow> heap \<Rightarrow> heap res" where
  "free_all [] h = Inr h"
| "free_all (p # ps) h = (case sys_free p h of Inl e \<Rightarrow> Inl e | Inr h \<Rightarrow> free_all ps h)"

definition alc_gcollect :: "alc_state \<Rightarrow> alc_state res" where
  "alc_gcollect s =
     (case s of (a, h) \<Rightarrow>
        (case free_all (concat (buckets a)) h of
           Inl e \<Rightarrow> Inl e
         | Inr h \<Rightarrow> Inr (a\<lparr>buckets := replicate (capacity a) [], asize := 0\<rparr>, h)))"

text \<open>\<open>allocator_end\<close> leaves the heap; the table is gone.\<close>

definition allocator_end :: "alc_state \<Rightarrow> heap res" where
  "allocator_end s = (case alc_gcollect s of Inl e \<Rightarrow> Inl e | Inr (_, h) \<Rightarrow> Inr h)"

subsection \<open>Invariant\<close>

definition tracked :: "allocator \<Rightarrow> addr set" where
  "tracked a = set (concat (buckets a))"

definition table_inv :: "allocator \<Rightarrow> bool" where
  "table_inv a \<longleftrightarrow> length (buckets a) = capacity a \<and> (\<exists>k. capacity a = HASH_TABLE_SIZE * 2 ^ k)
     \<and> (\<forall>i < capacity a. \<forall>p \<in> set (buckets a ! i). hash_ptr p (capacity a) = i)
     \<and> distinct (concat (buckets a)) \<and> asize a = length (concat (buckets a))
     \<and> 0 \<notin> tracked a"

definition alc_inv :: "alc_state \<Rightarrow> bool" where
  "alc_inv s \<longleftrightarrow> table_inv (fst s) \<and> tracked (fst s) \<subseteq> dom (snd s)"

lemma table_inv_capacity: "table_inv a \<Longrightarrow> 0 < capacity a"
  by (auto simp: table_inv_def HASH_TABLE_SIZE_def)

lemma hash_ptr_less [simp]: "0 < cap \<Longrightarrow> hash_ptr p cap < cap"
  by (simp add: hash_ptr_def)

lemma concat_update:
  "i < length xs \<Longrightarrow> concat (xs[i := ys]) = concat (take i xs) @ ys @ concat (drop (Suc i) xs)"
  by (simp add: upd_conv_take_nth_drop)

lemma concat_split:
  "i < length xs \<Longrightarrow> concat xs = concat (take i xs) @ xs ! i @ concat (drop (Suc i) xs)"
  by (metis concat.simps(2) concat_append id_take_nth_drop)

lemma table_inv_init [simp, wf_intro]: "table_inv allocator_init"
proof -
  have "\<exists>k. HASH_TABLE_SIZE = HASH_TABLE_SIZE * 2 ^ k"
    by (rule exI [of _ 0]) simp
  then show ?thesis
    by (simp add: table_inv_def allocator_init_def tracked_def)
qed

lemma tracked_init [simp]: "tracked allocator_init = {}"
  by (simp add: tracked_def allocator_init_def)

text \<open>Linking a node.\<close>

lemma link_bucket_concat:
  assumes "length bs = cap" and "0 < cap"
  shows "set (concat (link_bucket p bs cap)) = insert p (set (concat bs))"
    and "length (concat (link_bucket p bs cap)) = Suc (length (concat bs))"
    and "distinct (concat (link_bucket p bs cap)) \<longleftrightarrow> p \<notin> set (concat bs) \<and> distinct (concat bs)"
proof -
  have i: "hash_ptr p cap < length bs" using assms by simp
  show "set (concat (link_bucket p bs cap)) = insert p (set (concat bs))"
    and "length (concat (link_bucket p bs cap)) = Suc (length (concat bs))"
    and "distinct (concat (link_bucket p bs cap)) \<longleftrightarrow> p \<notin> set (concat bs) \<and> distinct (concat bs)"
    unfolding link_bucket_def concat_update [OF i] concat_split [OF i] by auto
qed

lemma link_bucket_hash:
  assumes "length bs = cap" and "0 < cap"
    and "\<forall>i < cap. \<forall>q \<in> set (bs ! i). hash_ptr q cap = i" and "i < cap"
    and "q \<in> set (link_bucket p bs cap ! i)"
  shows "hash_ptr q cap = i"
  using assms by (auto simp: link_bucket_def nth_list_update split: if_splits)

lemma length_link_bucket [simp]: "length (link_bucket p bs cap) = length bs"
  by (simp add: link_bucket_def)

lemma track_step:
  assumes inv: "table_inv a" and p: "p \<notin> tracked a" "p \<noteq> 0"
  shows "table_inv (track p a)" and "tracked (track p a) = insert p (tracked a)"
proof -
  have l: "length (buckets a) = capacity a" and c: "0 < capacity a"
    using inv table_inv_capacity by (auto simp: table_inv_def)
  have h: "\<forall>i < capacity a. \<forall>q \<in> set (buckets a ! i). hash_ptr q (capacity a) = i"
    using inv by (simp add: table_inv_def)
  note lb = link_bucket_concat [OF l c, of p]
  show t: "tracked (track p a) = insert p (tracked a)"
    using lb(1) by (simp add: track_def tracked_def)
  show "table_inv (track p a)"
    using inv p t lb link_bucket_hash [OF l c h]
    by (auto simp: table_inv_def track_def) (auto simp: tracked_def)
qed

text \<open>Unlinking a node.\<close>

lemma unlink_remove1: "unlink p ch = (if p \<in> set ch then Some (remove1 p ch) else None)"
  by (induction ch) auto

lemma tracked_bucket:
  assumes "table_inv a"
  shows "p \<in> tracked a \<longleftrightarrow> p \<in> set (buckets a ! hash_ptr p (capacity a))"
proof
  assume "p \<in> tracked a"
  then obtain ch where "ch \<in> set (buckets a)" "p \<in> set ch"
    by (auto simp: tracked_def)
  then obtain i where "i < length (buckets a)" "p \<in> set (buckets a ! i)"
    by (auto simp: in_set_conv_nth)
  then show "p \<in> set (buckets a ! hash_ptr p (capacity a))"
    using assms by (auto simp: table_inv_def)
next
  assume "p \<in> set (buckets a ! hash_ptr p (capacity a))"
  moreover have "hash_ptr p (capacity a) < length (buckets a)"
    using assms table_inv_capacity [OF assms] by (simp add: table_inv_def)
  ultimately show "p \<in> tracked a"
    by (auto simp: tracked_def intro: nth_mem)
qed

lemma table_invI [wf_intro]:
  assumes "length bs = cap" and "\<exists>k. cap = HASH_TABLE_SIZE * 2 ^ k"
    and "\<forall>i < cap. \<forall>p \<in> set (bs ! i). hash_ptr p cap = i"
    and "distinct (concat bs)" and "n = length (concat bs)" and "0 \<notin> set (concat bs)"
  shows "table_inv \<lparr>buckets = bs, asize = n, capacity = cap\<rparr>"
  using assms unfolding table_inv_def tracked_def by (simp only: allocator.simps) blast

lemma length_remove1_mid:
  "p \<in> set ch \<Longrightarrow> length (us @ ch @ vs) - 1 = length (us @ remove1 p ch @ vs)"
  by (cases "length ch") (auto simp: length_remove1)

lemma untrack_missing: "table_inv a \<Longrightarrow> p \<notin> tracked a \<Longrightarrow> untrack p a = None"
  by (simp add: untrack_def unlink_remove1 tracked_bucket)

lemma untrack_step:
  assumes inv: "table_inv a" and p: "p \<in> tracked a"
  obtains a' where "untrack p a = Some a'" "table_inv a'" "tracked a' = tracked a - {p}"
    "capacity a' = capacity a"
proof -
  let ?i = "hash_ptr p (capacity a)"
  let ?ch = "remove1 p (buckets a ! ?i)"
  let ?a = "a\<lparr>buckets := (buckets a)[?i := ?ch], asize := asize a - 1\<rparr>"
  have i: "?i < length (buckets a)"
    using inv table_inv_capacity [OF inv] by (simp add: table_inv_def)
  have pin: "p \<in> set (buckets a ! ?i)"
    using p tracked_bucket [OF inv] by simp
  have un: "untrack p a = Some ?a"
    using pin by (simp add: untrack_def unlink_remove1 Let_def)
  obtain us vs where us: "concat (buckets a) = us @ buckets a ! ?i @ vs"
    and vs: "concat ((buckets a)[?i := ?ch]) = us @ ?ch @ vs"
    using concat_split [OF i] concat_update [OF i, of ?ch] by blast
  have d: "distinct (us @ buckets a ! ?i @ vs)"
    and sz: "asize a = length (us @ buckets a ! ?i @ vs)"
    using inv us by (simp_all add: table_inv_def)
  have sp: "set ?ch = set (buckets a ! ?i) - {p}"
    using d by (simp add: set_remove1_eq)
  have t: "tracked ?a = tracked a - {p}"
    using d pin by (auto simp: tracked_def us vs sp simp del: set_concat)
  have "table_inv \<lparr>buckets = (buckets a)[?i := ?ch], asize = asize a - 1, capacity = capacity a\<rparr>"
  proof (rule table_invI)
    show "length ((buckets a)[?i := ?ch]) = capacity a" "\<exists>k. capacity a = HASH_TABLE_SIZE * 2 ^ k"
      using inv by (simp_all only: table_inv_def length_list_update)
    show "distinct (concat ((buckets a)[?i := ?ch]))"
      using d by (auto simp: vs sp)
    show "asize a - 1 = length (concat ((buckets a)[?i := ?ch]))"
      using sz length_remove1_mid [OF pin, of us vs] by (simp only: vs)
    show "\<forall>j < capacity a. \<forall>q \<in> set ((buckets a)[?i := ?ch] ! j). hash_ptr q (capacity a) = j"
      using inv sp by (auto simp: table_inv_def nth_list_update)
    show "0 \<notin> set (concat ((buckets a)[?i := ?ch]))"
      using inv t by (simp add: table_inv_def tracked_def del: set_concat)
  qed
  then have "table_inv ?a" by (cases a) simp
  with un t show thesis by (intro that [of ?a]) simp_all
qed

text \<open>Growing the table.\<close>

definition part_table :: "nat \<Rightarrow> addr set \<Rightarrow> addr list list \<times> nat \<Rightarrow> bool" where
  "part_table cap S t \<longleftrightarrow> length (fst t) = cap
     \<and> (\<forall>i < cap. \<forall>p \<in> set (fst t ! i). hash_ptr p cap = i)
     \<and> distinct (concat (fst t)) \<and> snd t = length (concat (fst t)) \<and> set (concat (fst t)) = S"

lemma part_table_link:
  assumes "part_table cap S (bs, n)" and "0 < cap" and "p \<notin> S"
  shows "part_table cap (insert p S) (link_bucket p bs cap, Suc n)"
proof -
  have l: "length bs = cap" using assms(1) by (simp add: part_table_def)
  show ?thesis
    using assms link_bucket_concat [OF l assms(2), of p] link_bucket_hash [OF l assms(2)]
    by (auto simp: part_table_def)
qed

lemma rehash_chain_step:
  "part_table cap S t \<Longrightarrow> 0 < cap \<Longrightarrow> distinct ps \<Longrightarrow> set ps \<inter> S = {} \<Longrightarrow>
   part_table cap (set ps \<union> S) (rehash_chain cap ps t)"
proof (induction cap ps t arbitrary: S rule: rehash_chain.induct)
  case (1 cap bs n)
  then show ?case by simp
next
  case (2 cap p ps bs n)
  then have "part_table cap (insert p S) (link_bucket p bs cap, Suc n)"
    by (intro part_table_link) auto
  then have "part_table cap (set ps \<union> insert p S) (rehash_chain cap ps (link_bucket p bs cap, Suc n))"
    using 2 by (intro "2.IH") auto
  then show ?case by simp
qed

lemma rehash_step:
  "part_table cap S t \<Longrightarrow> 0 < cap \<Longrightarrow> distinct (concat chs) \<Longrightarrow> set (concat chs) \<inter> S = {} \<Longrightarrow>
   part_table cap (set (concat chs) \<union> S) (fold (rehash_chain cap) chs t)"
proof (induction chs arbitrary: S t)
  case Nil
  then show ?case by simp
next
  case (Cons ch chs)
  have "part_table cap (set ch \<union> S) (rehash_chain cap ch t)"
    using Cons.prems by (intro rehash_chain_step) auto
  then have "part_table cap (set (concat chs) \<union> (set ch \<union> S)) (fold (rehash_chain cap) chs (rehash_chain cap ch t))"
    using Cons.prems by (intro Cons.IH) auto
  then show ?case by (simp add: Un_left_commute Un_assoc)
qed

lemma resize_step:
  assumes inv: "table_inv a"
  shows "table_inv (hash_table_resize ok a (capacity a * 2))"
    and "tracked (hash_table_resize ok a (capacity a * 2)) = tracked a"
proof -
  let ?cap = "capacity a * 2"
  have c: "0 < ?cap" using table_inv_capacity [OF inv] by simp
  have "part_table ?cap {} (replicate ?cap [], 0)"
    by (simp add: part_table_def)
  then have pt: "part_table ?cap (tracked a)
      (fold (rehash_chain ?cap) (buckets a) (replicate ?cap [], 0))"
    using rehash_step [of ?cap "{}" _ "buckets a"] c inv by (simp add: table_inv_def tracked_def)
  obtain bs n where f: "fold (rehash_chain ?cap) (buckets a) (replicate ?cap [], 0) = (bs, n)"
    by (cases "fold (rehash_chain ?cap) (buckets a) (replicate ?cap [], 0)") auto
  have "\<exists>k. ?cap = HASH_TABLE_SIZE * 2 ^ k"
  proof -
    obtain k where "capacity a = HASH_TABLE_SIZE * 2 ^ k" using inv by (auto simp: table_inv_def)
    then show ?thesis by (intro exI [of _ "Suc k"]) simp
  qed
  then show "table_inv (hash_table_resize ok a ?cap)"
    and t: "tracked (hash_table_resize ok a ?cap) = tracked a"
    using inv pt f
    by (simp_all add: hash_table_resize_def table_inv_def part_table_def tracked_def del: set_concat)
qed

lemma grow_step:
  assumes "table_inv a"
  shows "table_inv (if load_exceeded (asize a) (capacity a)
                    then hash_table_resize ok a (capacity a * 2) else a)"
    and "tracked (if load_exceeded (asize a) (capacity a)
                  then hash_table_resize ok a (capacity a * 2) else a) = tracked a"
  using assms resize_step [OF assms, of ok] by simp_all

subsection \<open>The operations keep the invariant\<close>

lemma alc_malloc_step:
  assumes inv: "alc_inv s" and p: "p \<noteq> 0" "p \<notin> dom (snd s)"
  shows "\<exists>s'. alc_malloc rok (Some p) junk s = (Some p, s') \<and> alc_inv s'
     \<and> tracked (fst s') = insert p (tracked (fst s)) \<and> snd s' = (snd s)(p \<mapsto> junk)"
proof -
  obtain a h where s: "s = (a, h)" by (cases s)
  let ?a = "if load_exceeded (asize a) (capacity a) then hash_table_resize rok a (capacity a * 2) else a"
  have t: "table_inv a" "tracked a \<subseteq> dom h" using inv s by (simp_all add: alc_inv_def)
  note g = grow_step [OF t(1), of rok]
  have "p \<notin> tracked ?a" using g(2) t(2) p s by auto
  note tr = track_step [OF g(1) this p(1)]
  have m: "alc_malloc rok (Some p) junk s = (Some p, (track p ?a, h(p \<mapsto> junk)))"
    by (simp add: alc_malloc_def s Let_def)
  have tt: "tracked (track p ?a) = insert p (tracked a)" using tr(2) g(2) by simp
  then have "alc_inv (track p ?a, h(p \<mapsto> junk))"
    using tr(1) t(2) by (auto simp: alc_inv_def)
  with m tt s show ?thesis by auto
qed

lemma alc_calloc_step:
  assumes inv: "alc_inv s" and p: "p \<noteq> 0" "p \<notin> dom (snd s)"
  shows "\<exists>s'. alc_calloc (Some p) n sz s = (Some p, s') \<and> alc_inv s'
     \<and> tracked (fst s') = insert p (tracked (fst s)) \<and> snd s' = (snd s)(p \<mapsto> replicate (n * sz) 0)"
proof -
  obtain a h where s: "s = (a, h)" by (cases s)
  have t: "table_inv a" "tracked a \<subseteq> dom h" using inv s by (simp_all add: alc_inv_def)
  have "p \<notin> tracked a" using t(2) p s by auto
  note tr = track_step [OF t(1) this p(1)]
  then show ?thesis
    using t(2) by (auto simp: alc_calloc_def s alc_inv_def)
qed

lemma alc_free_untracked:
  assumes "alc_inv s" and "p \<notin> tracked (fst s)"
  shows "alc_free p s = Inr s"
  using assms untrack_missing [of "fst s" p]
  by (cases s) (simp add: alc_free_def alc_inv_def)

lemma alc_free_step:
  assumes inv: "alc_inv s" and p: "p \<in> tracked (fst s)"
  shows "\<exists>s'. alc_free p s = Inr s' \<and> alc_inv s' \<and> tracked (fst s') = tracked (fst s) - {p}
     \<and> snd s' = (snd s)(p := None)"
proof -
  obtain a h where s: "s = (a, h)" by (cases s)
  have t: "table_inv a" "tracked a \<subseteq> dom h" "p \<in> tracked a"
    using inv p s by (simp_all add: alc_inv_def)
  then have "p \<noteq> 0" by (auto simp: table_inv_def)
  obtain a' where "untrack p a = Some a'" "table_inv a'" "tracked a' = tracked a - {p}"
    using untrack_step [OF t(1,3)] by blast
  then show ?thesis
    using t \<open>p \<noteq> 0\<close> by (auto simp: alc_free_def s sys_free_def alc_inv_def)
qed

lemma free_all_step:
  "distinct ps \<Longrightarrow> set ps \<subseteq> dom h \<Longrightarrow> free_all ps h = Inr (h |` (- set ps))"
proof (induction ps arbitrary: h)
  case Nil
  then show ?case by simp
next
  case (Cons p ps)
  then have "free_all ps (h(p := None)) = Inr ((h(p := None)) |` (- set ps))"
    by (intro Cons.IH) auto
  moreover have "(h(p := None)) |` (- set ps) = h |` (- set (p # ps))"
    by (auto simp: restrict_map_def fun_eq_iff)
  ultimately show ?case
    using Cons.prems by (auto simp: sys_free_def)
qed

lemma alc_gcollect_step:
  assumes inv: "alc_inv s"
  shows "\<exists>s'. alc_gcollect s = Inr s' \<and> alc_inv s' \<and> tracked (fst s') = {}
     \<and> snd s' = snd s |` (- tracked (fst s))"
proof -
  obtain a h where s: "s = (a, h)" by (cases s)
  have t: "table_inv a" "tracked a \<subseteq> dom h" using inv s by (simp_all add: alc_inv_def)
  have "free_all (concat (buckets a)) h = Inr (h |` (- tracked a))"
    using free_all_step [of "concat (buckets a)" h] t by (simp add: table_inv_def tracked_def)
  then show ?thesis
    using t by (auto simp: alc_gcollect_def s alc_inv_def table_inv_def tracked_def)
qed

lemma alc_realloc_untracked:
  assumes "alc_inv s" and "p \<notin> tracked (fst s)" and "p \<noteq> 0" and "0 < n"
  shows "alc_realloc rok ans junk p n s = Inr (None, s)"
  using assms untrack_missing [of "fst s" p]
  by (cases s) (simp add: alc_realloc_def alc_inv_def)

lemma retrack_step:
  assumes t: "table_inv a" "tracked a \<subseteq> dom h" "p \<in> tracked a" and un: "untrack p a = Some a'"
    and q: "q \<noteq> 0" "q = p \<or> h q = None"
  shows "table_inv (track q a')" and "tracked (track q a') = insert q (tracked a - {p})"
proof -
  have a': "table_inv a'" "tracked a' = tracked a - {p}"
    using untrack_step [OF t(1,3)] un by auto
  then have "q \<notin> tracked a'" using t(2) q by auto
  from track_step [OF a'(1) this q(1)] a'(2)
  show "table_inv (track q a')" and "tracked (track q a') = insert q (tracked a - {p})"
    by simp_all
qed

lemma alc_realloc_step:
  assumes inv: "alc_inv s" and p: "p \<in> tracked (fst s)" and n: "0 < n"
    and old: "snd s p = Some old" and q: "q \<noteq> 0" "q = p \<or> q \<notin> dom (snd s)"
  shows "\<exists>s'. alc_realloc rok (Some q) junk p n s = Inr (Some q, s') \<and> alc_inv s'
     \<and> tracked (fst s') = insert q (tracked (fst s) - {p})
     \<and> snd s' = ((snd s)(p := None))(q \<mapsto> take n old @ drop (length old) junk)"
proof -
  obtain a h where s: "s = (a, h)" by (cases s)
  have t: "table_inv a" "tracked a \<subseteq> dom h" "p \<in> tracked a"
    using inv p s by (simp_all add: alc_inv_def)
  then have p0: "p \<noteq> 0" by (auto simp: table_inv_def)
  obtain a' where un: "untrack p a = Some a'"
    using untrack_step [OF t(1,3)] by blast
  let ?a = "track q a'"
  have "q = p \<or> h q = None" using q(2) s by auto
  note tr = retrack_step [OF t un q(1) this]
  note g = grow_step [OF tr(1), of rok]
  show ?thesis
    using un p0 n old s g tr t
    by (auto simp: alc_realloc_def alc_inv_def Let_def)
qed

lemma alc_realloc_nomem:
  assumes inv: "alc_inv s" and p: "p \<in> tracked (fst s)" and n: "0 < n"
  shows "\<exists>s'. alc_realloc rok None junk p n s = Inr (None, s') \<and> alc_inv s'
     \<and> tracked (fst s') = tracked (fst s) \<and> snd s' = snd s"
proof -
  obtain a h where s: "s = (a, h)" by (cases s)
  have t: "table_inv a" "tracked a \<subseteq> dom h" "p \<in> tracked a"
    using inv p s by (simp_all add: alc_inv_def)
  then have p0: "p \<noteq> 0" by (auto simp: table_inv_def)
  obtain a' where un: "untrack p a = Some a'"
    using untrack_step [OF t(1,3)] by blast
  obtain old where "h p = Some old" using t by auto
  moreover note retrack_step [OF t un p0, simplified]
  ultimately show ?thesis
    using un p0 n s t by (auto simp: alc_realloc_def alc_inv_def insert_absorb)
qed

lemmas alc_steps = alc_malloc_step alc_calloc_step alc_free_step alc_realloc_step
  alc_realloc_nomem alc_gcollect_step

subsection \<open>The allocator as a registry of live blocks\<close>

definition alc_acquire :: "addr \<Rightarrow> alc_state \<Rightarrow> alc_state" where
  "alc_acquire p s = snd (alc_malloc True (Some p) [] s)"

definition alc_release :: "addr \<Rightarrow> alc_state \<Rightarrow> alc_state" where
  "alc_release p s = projr (alc_free p s)"

definition alc_collect :: "alc_state \<Rightarrow> alc_state" where
  "alc_collect s = projr (alc_gcollect s)"

lemma alc_acquire_step:
  assumes "alc_inv s" and "p \<noteq> 0 \<and> p \<notin> dom (snd s)"
  shows "alc_inv (alc_acquire p s)" and "tracked (fst (alc_acquire p s)) = insert p (tracked (fst s))"
    and "dom (snd (alc_acquire p s)) = insert p (dom (snd s))"
proof -
  obtain s' where "alc_malloc True (Some p) [] s = (Some p, s')" and s': "alc_inv s'"
    "tracked (fst s') = insert p (tracked (fst s))" "snd s' = (snd s)(p \<mapsto> [])"
    using assms alc_malloc_step [of s p True "[]"] by blast
  then have "alc_acquire p s = s'" by (simp add: alc_acquire_def)
  with s' show "alc_inv (alc_acquire p s)"
    and "tracked (fst (alc_acquire p s)) = insert p (tracked (fst s))"
    and "dom (snd (alc_acquire p s)) = insert p (dom (snd s))"
    by simp_all
qed

lemma alc_release_step:
  assumes inv: "alc_inv s"
  shows "alc_inv (alc_release p s)" and "tracked (fst (alc_release p s)) = tracked (fst s) - {p}"
    and "dom (snd (alc_release p s))
       = (if p \<in> tracked (fst s) then dom (snd s) - {p} else dom (snd s))"
proof -
  obtain s' where "alc_free p s = Inr s'" and s': "alc_inv s'" "tracked (fst s') = tracked (fst s) - {p}"
    "snd s' = (if p \<in> tracked (fst s) then (snd s)(p := None) else snd s)"
    using alc_free_step [OF inv, of p] alc_free_untracked [OF inv, of p] inv by fastforce
  then have "alc_release p s = s'" by (simp add: alc_release_def)
  with s' show "alc_inv (alc_release p s)"
    and "tracked (fst (alc_release p s)) = tracked (fst s) - {p}"
    and "dom (snd (alc_release p s))
       = (if p \<in> tracked (fst s) then dom (snd s) - {p} else dom (snd s))"
    by simp_all
qed

lemma alc_collect_step:
  assumes inv: "alc_inv s"
  shows "alc_inv (alc_collect s)" and "tracked (fst (alc_collect s)) = {}"
    and "dom (snd (alc_collect s)) = dom (snd s) - tracked (fst s)"
proof -
  obtain s' where "alc_gcollect s = Inr s'" and s': "alc_inv s'" "tracked (fst s') = {}"
    "snd s' = snd s |` (- tracked (fst s))"
    using alc_gcollect_step [OF inv] by blast
  then have "alc_collect s = s'" by (simp add: alc_collect_def)
  with s' show "alc_inv (alc_collect s)" and "tracked (fst (alc_collect s)) = {}"
    and "dom (snd (alc_collect s)) = dom (snd s) - tracked (fst s)"
    by (simp_all add: Diff_eq)
qed

interpretation ar: block_registry "\<lambda>s. tracked (fst s)" "\<lambda>s. dom (snd s)"
  alc_acquire alc_release alc_collect alc_inv "\<lambda>p s. p \<noteq> 0 \<and> p \<notin> dom (snd s)"
  by unfold_locales
    (simp_all add: alc_acquire_step alc_release_step alc_collect_step, simp add: alc_inv_def)

subsection \<open>The load factor\<close>

lemma f32_of_nat_small: "n < 2 ^ 24 \<Longrightarrow> f32_of_nat n = n"
  by (simp add: f32_of_nat_def round_sig_fits)

lemma load_exceeded_small:
  "sz < 2 ^ 24 \<Longrightarrow> cap < 2 ^ 24 \<Longrightarrow> load_exceeded sz cap \<longleftrightarrow> 3 * cap < 4 * sz"
  by (simp add: load_exceeded_def f32_of_nat_small)

subsection \<open>Runs of the allocator against a map of blocks\<close>

text \<open>
  A client's calls, with the addresses that libc answers, on the allocator and on the map from the
  live blocks to their bytes.  \<open>call_ok\<close> says that libc hands out fresh addresses.
\<close>

datatype alc_call =
    CMalloc addr "byte list"
  | CCalloc addr nat nat
  | CRealloc addr nat addr "byte list"
  | CFree addr
  | CCollect

fun call_step :: "alc_state \<Rightarrow> alc_call \<Rightarrow> alc_state res" where
  "call_step s (CMalloc q junk) = Inr (snd (alc_malloc True (Some q) junk s))"
| "call_step s (CCalloc q n sz) = Inr (snd (alc_calloc (Some q) n sz s))"
| "call_step s (CRealloc p n q junk) =
     (case alc_realloc True (Some q) junk p n s of Inl e \<Rightarrow> Inl e | Inr (_, s) \<Rightarrow> Inr s)"
| "call_step s (CFree p) = alc_free p s"
| "call_step s CCollect = alc_gcollect s"

fun heap_call :: "heap \<Rightarrow> alc_call \<Rightarrow> heap" where
  "heap_call h (CMalloc q junk) = h(q \<mapsto> junk)"
| "heap_call h (CCalloc q n sz) = h(q \<mapsto> replicate (n * sz) 0)"
| "heap_call h (CRealloc p n q junk) =
     (if p = 0 then h(q \<mapsto> junk)
      else if n = 0 then h(p := None)
      else case h p of
        None \<Rightarrow> h
      | Some old \<Rightarrow> (h(p := None))(q \<mapsto> take n old @ drop (length old) junk))"
| "heap_call h (CFree p) = h(p := None)"
| "heap_call h CCollect = Map.empty"

fun call_ok :: "heap \<Rightarrow> alc_call \<Rightarrow> bool" where
  "call_ok h (CMalloc q junk) \<longleftrightarrow> q \<noteq> 0 \<and> h q = None"
| "call_ok h (CCalloc q n sz) \<longleftrightarrow> q \<noteq> 0 \<and> h q = None"
| "call_ok h (CRealloc p n q junk) \<longleftrightarrow> q \<noteq> 0 \<and> (h q = None \<or> q = p)"
| "call_ok h (CFree p) \<longleftrightarrow> True"
| "call_ok h CCollect \<longleftrightarrow> True"

fun calls_ok :: "heap \<Rightarrow> alc_call list \<Rightarrow> bool" where
  "calls_ok h [] \<longleftrightarrow> True"
| "calls_ok h (c # cs) \<longleftrightarrow> call_ok h c \<and> calls_ok (heap_call h c) cs"

fun alc_calls :: "alc_state \<Rightarrow> alc_call list \<Rightarrow> alc_state res" where
  "alc_calls s [] = Inr s"
| "alc_calls s (c # cs) = (case call_step s c of Inl e \<Rightarrow> Inl e | Inr s \<Rightarrow> alc_calls s cs)"

text \<open>Every block of the heap came from the allocator.\<close>

definition alc_owns :: "alc_state \<Rightarrow> bool" where
  "alc_owns s \<longleftrightarrow> alc_inv s \<and> tracked (fst s) = dom (snd s)"

lemma tracked_not_0: "alc_inv s \<Longrightarrow> 0 \<notin> tracked (fst s)"
  by (simp add: alc_inv_def table_inv_def)

lemma alc_free_0: "alc_free 0 s = Inr s"
  by (cases s) (simp add: alc_free_def)

lemma alc_free_call:
  assumes "alc_owns s"
  shows "\<exists>s'. alc_free p s = Inr s' \<and> alc_owns s' \<and> snd s' = (snd s)(p := None)"
proof (cases "p \<in> tracked (fst s)")
  case True
  then show ?thesis
    using alc_free_step [of s p] assms by (auto simp: alc_owns_def)
next
  case False
  then have "snd s p = None" using assms by (auto simp: alc_owns_def)
  then have "(snd s)(p := None) = snd s" by auto
  then show ?thesis using alc_free_untracked [of s p] False assms by (auto simp: alc_owns_def)
qed

lemma alc_malloc_call:
  assumes "alc_owns s" and "q \<noteq> 0" and "snd s q = None"
  shows "\<exists>s'. alc_malloc True (Some q) junk s = (Some q, s') \<and> alc_owns s' \<and> snd s' = (snd s)(q \<mapsto> junk)"
proof -
  have "alc_inv s" "q \<notin> dom (snd s)" using assms by (auto simp: alc_owns_def)
  from alc_malloc_step [OF this(1) assms(2) this(2), of True junk] show ?thesis
    using assms(1) by (auto simp: alc_owns_def)
qed

lemma alc_realloc_call:
  assumes o: "alc_owns s" and q: "q \<noteq> 0" "snd s q = None \<or> q = p"
  shows "\<exists>r s'. alc_realloc True (Some q) junk p n s = Inr (r, s') \<and> alc_owns s'
    \<and> snd s' = heap_call (snd s) (CRealloc p n q junk)"
proof -
  have inv: "alc_inv s" and t: "tracked (fst s) = dom (snd s)" using o by (auto simp: alc_owns_def)
  have z: "snd s 0 = None" using tracked_not_0 [OF inv] t by auto
  consider (null) "p = 0" | (zero) "p \<noteq> 0" "n = 0" | (miss) "p \<noteq> 0" "0 < n" "snd s p = None"
    | (hit) old where "p \<noteq> 0" "0 < n" "snd s p = Some old"
    by (cases "snd s p") auto
  then show ?thesis
  proof cases
    case null
    then have "snd s q = None" using q z by auto
    from alc_malloc_call [OF o q(1) this, of junk] show ?thesis
      using null by (auto simp: alc_realloc_def)
  next
    case zero
    then show ?thesis using alc_free_call [OF o, of p] by (auto simp: alc_realloc_def)
  next
    case miss
    then have "p \<notin> tracked (fst s)" using t by auto
    from alc_realloc_untracked [OF inv this miss(1,2), of True "Some q" junk] show ?thesis
      using miss o by simp
  next
    case (hit old)
    then have p: "p \<in> tracked (fst s)" using t by auto
    have "q = p \<or> q \<notin> dom (snd s)" using q(2) by auto
    from alc_realloc_step [OF inv p hit(2,3) q(1) this, of True junk] show ?thesis
      using hit t by (auto simp: alc_owns_def)
  qed
qed

lemma call_step_heap:
  assumes o: "alc_owns s" and c: "call_ok (snd s) c"
  shows "\<exists>s'. call_step s c = Inr s' \<and> alc_owns s' \<and> snd s' = heap_call (snd s) c"
proof (cases c)
  case (CMalloc q junk)
  then show ?thesis using alc_malloc_call [OF o, of q junk] c by auto
next
  case (CCalloc q n sz)
  then have "q \<noteq> 0" "q \<notin> dom (snd s)" and inv: "alc_inv s" using c o by (auto simp: alc_owns_def)
  from alc_calloc_step [OF inv this(1,2), of n sz] show ?thesis
    using CCalloc o by (auto simp: alc_owns_def)
next
  case (CRealloc p n q junk)
  then show ?thesis using alc_realloc_call [OF o, of q p junk n] c by auto
next
  case (CFree p)
  then show ?thesis using alc_free_call [OF o, of p] by auto
next
  case CCollect
  have inv: "alc_inv s" and t: "tracked (fst s) = dom (snd s)" using o by (auto simp: alc_owns_def)
  have "snd s |` (- tracked (fst s)) = Map.empty" using t by (auto simp: restrict_map_def fun_eq_iff)
  then show ?thesis using alc_gcollect_step [OF inv] CCollect by (auto simp: alc_owns_def)
qed

subsection \<open>Properties\<close>

text \<open>C21: no sequence of calls on an allocator, whatever pointers the client passes to
  \<open>alc_free\<close> and \<open>alc_realloc\<close>, frees a block twice or touches a freed one, and the heap ends
  as the map of the blocks: growing the table, moving a block and collecting included.\<close>

theorem allocator_refines_heap:
  assumes "alc_owns s" and "calls_ok (snd s) cs"
  shows "\<exists>s'. alc_calls s cs = Inr s' \<and> alc_owns s' \<and> snd s' = fold (\<lambda>c h. heap_call h c) cs (snd s)"
  using assms
proof (induction cs arbitrary: s)
  case Nil
  then show ?case by simp
next
  case (Cons c cs)
  then obtain s1 where "call_step s c = Inr s1" "alc_owns s1" "snd s1 = heap_call (snd s) c"
    using call_step_heap by fastforce
  then show ?case using Cons.IH [of s1] Cons.prems by auto
qed

theorem allocator_refines_heap_witness:
  "\<exists>s'. alc_calls (allocator_init, Map.empty)
       [CMalloc 64 [1, 2], CRealloc 64 1 128 [0], CFree 64, CFree 128, CCalloc 64 1 1]
     = Inr s' \<and> snd s' = [64 \<mapsto> [0]]"
proof -
  have "alc_owns (allocator_init, Map.empty)"
    by (simp add: alc_owns_def alc_inv_def)
  moreover let ?cs = "[CMalloc 64 [1, 2], CRealloc 64 1 128 [0], CFree 64, CFree 128, CCalloc 64 1 1]"
  have "calls_ok Map.empty ?cs" by simp
  ultimately obtain s' where "alc_calls (allocator_init, Map.empty) ?cs = Inr s'"
    and "snd s' = fold (\<lambda>c h. heap_call h c) ?cs Map.empty"
    using allocator_refines_heap [of "(allocator_init, Map.empty)" ?cs] unfolding snd_conv by blast
  moreover have "fold (\<lambda>c h. heap_call h c) ?cs Map.empty = [64 \<mapsto> [0]]"
    by (simp add: fun_eq_iff)
  ultimately show ?thesis by (intro exI [of _ s'] conjI) (simp_all only:)
qed

text \<open>\<open>alc_gcollect\<close> frees exactly the tracked blocks, each once: the blocks that did not
  come from the allocator are untouched, and the table is empty and usable again.\<close>

theorem gcollect_frees_tracked:
  assumes "alc_inv s"
  shows "\<exists>s'. alc_gcollect s = Inr s' \<and> alc_inv s' \<and> tracked (fst s') = {}
     \<and> (\<forall>p. snd s' p = (if p \<in> tracked (fst s) then None else snd s p))"
  using alc_gcollect_step [OF assms] by (auto simp: restrict_map_def)

theorem gcollect_frees_tracked_witness:
  "\<exists>s'. alc_gcollect (allocator_init, [5 \<mapsto> [1]]) = Inr s' \<and> snd s' 5 = Some [1]"
  using gcollect_frees_tracked [of "(allocator_init, [5 \<mapsto> [1]])"]
  by (auto simp: alc_inv_def)

text \<open>The table grows in time: below \<open>2 ^ 24\<close> entries a \<open>alc_malloc\<close> that can allocate a
  larger table leaves it at most three quarters full, plus the entry it adds.\<close>

theorem malloc_keeps_load:
  assumes "alc_inv (a, h)" and "4 * asize a \<le> 3 * capacity a + 4" and "capacity a < 2 ^ 22"
    and "p \<noteq> 0" and "h p = None"
  shows "case alc_malloc True (Some p) junk (a, h) of
     (r, (a', h')) \<Rightarrow> r = Some p \<and> 4 * asize a' \<le> 3 * capacity a' + 4"
proof -
  have t: "table_inv a" using assms(1) by (simp add: alc_inv_def)
  have cap: "0 < capacity a" by (rule table_inv_capacity [OF t])
  have small: "asize a < 2 ^ 24" "capacity a < 2 ^ 24" using assms(2,3) by simp_all
  let ?g = "hash_table_resize True a (capacity a * 2)"
  have g: "table_inv ?g" "tracked ?g = tracked a" using resize_step [OF t] by simp_all
  have sz: "asize b = card (tracked b)" if "table_inv b" for b
    using that unfolding table_inv_def tracked_def by (metis distinct_card)
  then have "asize ?g = asize a" using sz [OF t] sz [OF g(1)] g(2) by simp
  moreover have "capacity ?g = capacity a * 2"
    by (simp add: hash_table_resize_def split: prod.split)
  ultimately show ?thesis
    using assms(2) cap load_exceeded_small [OF small]
    by (simp add: alc_malloc_def Let_def track_def)
qed

theorem malloc_keeps_load_witness:
  "case alc_malloc True (Some 8) [] (allocator_init, Map.empty) of
     (r, (a', h')) \<Rightarrow> r = Some 8 \<and> 4 * asize a' \<le> 3 * capacity a' + 4"
  by (rule malloc_keeps_load)
    (simp_all add: alc_inv_def, simp_all add: allocator_init_def HASH_TABLE_SIZE_def)

end
