(* ===== verification/Events.thy ===== *)
theory Events
  imports Asyncio
begin

text \<open>
  The event registry of \<open>code/DCN/src/asyncio.c\<close> and the life of a loop: \<open>loop_create\<close>,
  \<open>asyncio_create_event\<close>, \<open>asyncio_subscribe\<close>, \<open>asyncio_remevent\<close>, \<open>loop_stop\<close>.
  The map \<open>events\<close> is declared to hold pointers, but \<open>asyncio_create_event\<close> hands the event
  itself to \<open>map_set\<close>, so that a slot gets the first eight bytes of a \<open>struct
  asyncio_event\<close>: the \<open>data\<close> pointer of its block.
\<close>

record asyncio_event =
  ev_data :: qblock
  ev_uid :: ullong
  ev_trigger :: addr

record workers_strct =
  subs :: "addr list"      \<comment> \<open>\<open>workers\<close>\<close>
  workers_num :: nat

record ev_loop =
  g_euid :: ullong
  working_pool :: pool
  events :: "(ullong, addr) cmap"
  ev_workers :: "(ullong, workers_strct) cmap"

definition event_init :: "ev_loop \<Rightarrow> addr \<Rightarrow> asyncio_event \<times> ev_loop" where
  "event_init loop func =
     (\<lparr>ev_data = qblock_init, ev_uid = g_euid loop, ev_trigger = func\<rparr>,
      loop\<lparr>g_euid := g_euid loop + 1\<rparr>)"

definition event_free :: "asyncio_event \<Rightarrow> asyncio_event" where
  "event_free event = event\<lparr>ev_data := qblock_free (ev_data event), ev_trigger := 0, ev_uid := 0\<rparr>"

text \<open>Without its mutex, which only these two allocate and free.\<close>

definition workers_strct_init :: workers_strct where
  "workers_strct_init = \<lparr>subs = [], workers_num = 0\<rparr>"

definition workers_strct_free :: "workers_strct \<Rightarrow> workers_strct" where
  "workers_strct_free strc = strc\<lparr>workers_num := 0, subs := []\<rparr>"

text \<open>The first eight bytes of an event, read as a pointer; a live block has a non-null address.\<close>

definition first_word :: "asyncio_event \<Rightarrow> addr" where
  "first_word e = (if data (ev_data e) = Null then 0 else 1)"

definition loop_create :: "nat \<Rightarrow> ev_loop" where
  "loop_create cores =
     \<lparr>g_euid = 1, working_pool = pool_init cores, events = map_init 8 8, ev_workers = map_init 8 24\<rparr>"

definition asyncio_create_event :: "ev_loop \<Rightarrow> addr \<Rightarrow> ullong \<times> ev_loop" where
  "asyncio_create_event loop trigger =
     (case event_init loop trigger of (event, loop) \<Rightarrow>
        (ev_uid event,
         loop\<lparr>events := snd (map_set True True (events loop) (Some (ev_uid event)) (Some (first_word event)))\<rparr>))"

definition asyncio_subscribe :: "ev_loop \<Rightarrow> ullong \<Rightarrow> addr \<Rightarrow> bool \<times> ev_loop" where
  "asyncio_subscribe loop event_uid worker =
     (if \<not> map_in (events loop) event_uid then (False, loop)
      else case map_ptr (ev_workers loop) event_uid of
        None \<Rightarrow> (False, loop)
      | Some (inx, strc) \<Rightarrow>
          (True, loop\<lparr>ev_workers := (ev_workers loop)\<lparr>mvals := (mvals (ev_workers loop))
             [inx := \<lparr>subs = subs strc @ [worker], workers_num = workers_num strc + 1\<rparr>]\<rparr>\<rparr>))"

text \<open>
  \<open>asyncio_remevent\<close>: past its three checks it tears down an event through the address of a
  slot that is eight bytes wide, which is a read past the slot.
\<close>

definition asyncio_remevent :: "ev_loop \<Rightarrow> ullong \<Rightarrow> ev_loop res" where
  "asyncio_remevent loop event_uid =
     (if \<not> map_in (events loop) event_uid then Inr loop
      else case map_ptr (ev_workers loop) event_uid of
        None \<Rightarrow> Inr loop
      | Some _ \<Rightarrow> (case map_ptr (events loop) event_uid of
          None \<Rightarrow> Inr loop
        | Some _ \<Rightarrow> Inl OutOfBounds))"

text \<open>The loops of \<open>loop_stop\<close>; \<open>__event_free(*event)\<close> reads through the stored word.\<close>

fun stop_workers :: "nat list \<Rightarrow> ev_loop \<Rightarrow> ev_loop res" where
  "stop_workers [] loop = Inr loop"
| "stop_workers (i # is) loop =
     (case map_ptr (ev_workers loop) (snd (map_key_at (ev_workers loop) 0 i)) of
        None \<Rightarrow> Inl NullAccess
      | Some (inx, strc) \<Rightarrow> stop_workers is (loop\<lparr>ev_workers := (ev_workers loop)
          \<lparr>mvals := (mvals (ev_workers loop))[inx := \<lparr>subs = [], workers_num = 0\<rparr>]\<rparr>\<rparr>))"

fun stop_events :: "nat list \<Rightarrow> ev_loop \<Rightarrow> ev_loop res" where
  "stop_events [] loop = Inr loop"
| "stop_events (i # is) loop =
     (case map_ptr (events loop) (snd (map_key_at (events loop) 0 i)) of
        None \<Rightarrow> Inl NullAccess
      | Some (_, ptr) \<Rightarrow> (if ptr = 0 then Inl NullAccess else Inl WildAccess))"

definition loop_stop :: "ev_loop \<Rightarrow> ev_loop res" where
  "loop_stop loop =
     (let loop = loop\<lparr>working_pool := pool_free (working_pool loop)\<rparr> in
      bind_res (stop_workers [0..<mlen (ev_workers loop)] loop) (\<lambda>loop.
      bind_res (stop_events [0..<mlen (events loop)] loop) (\<lambda>loop.
      Inr (loop\<lparr>ev_workers := map_free (ev_workers loop), events := map_free (events loop)\<rparr>))))"

text \<open>
  One round of \<open>__events_worker\<close>, which \<open>loop_create\<close> would start but for a comment sign: \<open>None\<close> when
  it leaves the loop, else whether it had events.  The pointer that \<open>map_at\<close> answers is to the slot,
  so that \<open>event->trigger\<close> is again a read past it.
\<close>

fun events_scan :: "nat list \<Rightarrow> ev_loop \<Rightarrow> bool res" where
  "events_scan [] loop = Inr False"
| "events_scan (i # is) loop =
     (let ev_uid = snd (map_key_at (events loop) 0 i) in
      if ev_uid = 0 then events_scan is loop
      else case map_ptr (events loop) ev_uid of
        None \<Rightarrow> events_scan is loop
      | Some _ \<Rightarrow> Inl OutOfBounds)"

definition events_worker :: "ev_loop \<Rightarrow> bool res option" where
  "events_worker loop =
     (if pool_active (working_pool loop) then Some (events_scan [0..<mlen (events loop)] loop) else None)"

subsection \<open>Every loop that the registry's calls lead to\<close>

datatype ev_op = is_NewEvent: NewEvent addr | Subscribe ullong addr | RemEvent ullong

datatype ev_ans = Uid ullong | Subscribed bool | Removed

fun ev_call :: "ev_loop \<Rightarrow> ev_op \<Rightarrow> (ev_ans \<times> ev_loop) res" where
  "ev_call loop (NewEvent f) = (case asyncio_create_event loop f of (u, loop) \<Rightarrow> Inr (Uid u, loop))"
| "ev_call loop (Subscribe u f) = (case asyncio_subscribe loop u f of (b, loop) \<Rightarrow> Inr (Subscribed b, loop))"
| "ev_call loop (RemEvent u) = bind_res (asyncio_remevent loop u) (\<lambda>loop. Inr (Removed, loop))"

fun ev_calls :: "ev_loop \<Rightarrow> ev_op list \<Rightarrow> (ev_ans list \<times> ev_loop) res" where
  "ev_calls loop [] = Inr ([], loop)"
| "ev_calls loop (c # cs) =
     bind_res (ev_call loop c) (\<lambda>(a, loop). bind_res (ev_calls loop cs) (\<lambda>(as, loop). Inr (a # as, loop)))"

text \<open>Nobody ever fills \<open>workers\<close>, and every slot of \<open>events\<close> holds a null pointer.\<close>

definition loop_inv :: "nat \<Rightarrow> ev_loop \<Rightarrow> bool" where
  "loop_inv n loop \<longleftrightarrow> map_ok (events loop) \<and> map_ok (ev_workers loop) \<and> mlen (ev_workers loop) = 0
     \<and> g_euid loop = of_nat (Suc n)
     \<and> (\<forall>u. map_get (events loop) u = (if \<exists>k. 0 < k \<and> k \<le> n \<and> u = of_nat k then Some 0 else None))"

lemma no_workers: "map_ok m \<Longrightarrow> mlen m = 0 \<Longrightarrow> map_get m k = None"
  by (simp add: map_get_eq_find find_from.simps)

text \<open>What the calls answer: the number of events so far is all they depend on.\<close>

fun ev_spec :: "nat \<Rightarrow> ev_op list \<Rightarrow> ev_ans list" where
  "ev_spec n [] = []"
| "ev_spec n (NewEvent f # cs) = Uid (of_nat (Suc n)) # ev_spec (Suc n) cs"
| "ev_spec n (Subscribe u f # cs) = Subscribed False # ev_spec n cs"
| "ev_spec n (RemEvent u # cs) = Removed # ev_spec n cs"

fun new_events :: "ev_op list \<Rightarrow> nat" where
  "new_events [] = 0"
| "new_events (NewEvent f # cs) = Suc (new_events cs)"
| "new_events (c # cs) = new_events cs"

lemma create_event_inv:
  assumes "loop_inv n loop"
  shows "\<exists>loop'. asyncio_create_event loop f = (of_nat (Suc n), loop') \<and> loop_inv (Suc n) loop'"
proof -
  let ?u = "of_nat (Suc n) :: ullong"
  have inv: "map_ok (events loop)" "g_euid loop = ?u" using assms by (simp_all add: loop_inv_def)
  let ?l = "loop\<lparr>g_euid := ?u + 1, events := map_put ?u 0 (events loop)\<rparr>"
  have "asyncio_create_event loop f = (?u, ?l)"
    using inv by (simp add: asyncio_create_event_def event_init_def first_word_def qblock_init_def map_set_put)
  moreover have "map_get (events ?l) u = (if \<exists>k. 0 < k \<and> k \<le> Suc n \<and> u = of_nat k then Some 0 else None)" for u
  proof -
    have "(\<exists>k. 0 < k \<and> k \<le> Suc n \<and> u = of_nat k) \<longleftrightarrow> u = ?u \<or> (\<exists>k. 0 < k \<and> k \<le> n \<and> u = of_nat k)"
      by (auto simp: le_Suc_eq)
    then show ?thesis using assms inv(1) by (auto simp: map_get_put loop_inv_def)
  qed
  moreover have "map_ok (events ?l)" using inv(1) by simp
  ultimately show ?thesis using assms by (simp add: loop_inv_def add.commute)
qed

lemma ev_calls_spec:
  assumes "loop_inv n loop"
  shows "\<exists>loop'. ev_calls loop cs = Inr (ev_spec n cs, loop') \<and> loop_inv (n + new_events cs) loop'
     \<and> ev_calls loop (filter is_NewEvent cs) = Inr (ev_spec n (filter is_NewEvent cs), loop')"
  using assms
proof (induction n cs arbitrary: loop rule: ev_spec.induct)
  case (1 n)
  then show ?case by simp
next
  case (2 n f cs)
  obtain l where l: "asyncio_create_event loop f = (of_nat (Suc n), l)" "loop_inv (Suc n) l"
    using create_event_inv [OF 2(2)] by blast
  with 2(1) [OF l(2)] show ?case by auto
next
  case (3 n u f cs)
  have "map_ptr (ev_workers loop) u = None"
    using 3(2) by (intro map_ptr_NoneI no_workers) (simp_all add: loop_inv_def)
  then have "asyncio_subscribe loop u f = (False, loop)" by (simp add: asyncio_subscribe_def)
  with 3(1) [OF 3(2)] show ?case by auto
next
  case (4 n u cs)
  have "map_ptr (ev_workers loop) u = None"
    using 4(2) by (intro map_ptr_NoneI no_workers) (simp_all add: loop_inv_def)
  then have "asyncio_remevent loop u = Inr loop" by (simp add: asyncio_remevent_def)
  with 4(1) [OF 4(2)] show ?case by auto
qed

lemma loop_inv_create: "loop_inv 0 (loop_create cores)"
  by (simp add: loop_inv_def loop_create_def map_init_def [of 8 24]) (simp add: map_ok_def)

lemma loop_inv_events:
  assumes "loop_inv n loop"
  shows "mlen (events loop) = 0 \<longleftrightarrow> n = 0"
proof
  assume "mlen (events loop) = 0"
  moreover have "map_ok (events loop)" using assms by (simp add: loop_inv_def)
  ultimately have "map_get (events loop) (of_nat 1) = None" by (intro no_workers)
  then have "\<not> (\<exists>k. 0 < k \<and> k \<le> n \<and> of_nat 1 = (of_nat k :: ullong))"
    using assms unfolding loop_inv_def by (metis option.distinct(1))
  then show "n = 0" by (metis One_nat_def Suc_leI gr0I zero_less_one)
next
  assume "n = 0"
  then have none: "map_get (events loop) u = None" for u using assms by (simp add: loop_inv_def)
  have ok: "map_ok (events loop)" using assms by (simp add: loop_inv_def)
  have "u \<notin> set (mkeys (events loop))" for u using none [of u] map_get_None_iff [OF ok, of u] by simp
  then have "mkeys (events loop) = []" by (metis list.exhaust list.set_intros(1))
  then show "mlen (events loop) = 0" using ok by (simp add: map_ok_def)
qed

lemma stop_first_event:
  assumes ok: "map_ok m" and ne: "mlen m \<noteq> 0" and null: "\<And>u v. map_get m u = Some v \<Longrightarrow> v = 0"
    and l: "events l = m"
  shows "stop_events [0..<mlen m] l = Inl NullAccess"
proof -
  obtain k where k: "mlen m = Suc k" using ne by (cases "mlen m") auto
  have i: "map_get m (mkeys m ! 0) = Some (mvals m ! 0)"
    unfolding map_get_Some_iff [OF ok] using k by (intro exI [of _ 0]) simp
  obtain j where j: "map_ptr m (mkeys m ! 0) = Some (j, mvals m ! 0)" by (rule map_ptr_Some [OF ok i])
  have "snd (map_key_at m 0 0) = mkeys m ! 0" using k by (simp add: map_key_at_def)
  moreover have "[0..<mlen m] = 0 # [1..<mlen m]" using k by (simp add: upt_conv_Cons)
  ultimately show ?thesis using j null [OF i] l by simp
qed

subsection \<open>Properties\<close>

text \<open>C29: the event registry does nothing: whatever is called on a loop, new events get the UIDs 1, 2
  and so on, no subscription is ever accepted, and no event is ever removed: the registry is the one
  that the creations alone would make, and holds the events created so far.\<close>

theorem registry_is_inert:
  shows "\<exists>loop'. ev_calls (loop_create cores) cs = Inr (ev_spec 0 cs, loop')
     \<and> (\<exists>as. ev_calls (loop_create cores) (filter is_NewEvent cs) = Inr (as, loop'))
     \<and> (\<forall>u. map_get (ev_workers loop') u = None)
     \<and> (\<forall>u. map_in (events loop') u \<longleftrightarrow> (\<exists>k. 0 < k \<and> k \<le> new_events cs \<and> u = of_nat k))"
proof -
  obtain l where l: "ev_calls (loop_create cores) cs = Inr (ev_spec 0 cs, l)" "loop_inv (0 + new_events cs) l"
    "ev_calls (loop_create cores) (filter is_NewEvent cs) = Inr (ev_spec 0 (filter is_NewEvent cs), l)"
    using ev_calls_spec [OF loop_inv_create] by blast
  then show ?thesis using no_workers by (auto simp: loop_inv_def map_in_iff)
qed

theorem registry_is_inert_witness:
  "\<exists>loop. ev_calls (loop_create 2) [NewEvent 5, Subscribe 1 6, RemEvent 1] = Inr ([Uid 1, Subscribed False, Removed], loop)
     \<and> map_in (events loop) 1"
proof -
  let ?cs = "[NewEvent 5, Subscribe 1 6, RemEvent 1]"
  obtain loop where l: "ev_calls (loop_create 2) ?cs = Inr (ev_spec 0 ?cs, loop)"
    "\<forall>u. map_in (events loop) u \<longleftrightarrow> (\<exists>k. 0 < k \<and> k \<le> new_events ?cs \<and> u = of_nat k)"
    using registry_is_inert [of 2 ?cs] by blast
  have "map_in (events loop) 1" using l(2) by (auto intro: exI [of _ 1])
  with l(1) show ?thesis by (intro exI conjI) (simp_all del: ev_calls.simps)
qed

text \<open>Stopping a loop faults if and only if an event was ever created in it: the stored word is a
  null pointer, which \<open>__event_free\<close> reads through.\<close>

theorem loop_stop_faults_iff:
  assumes "ev_calls (loop_create cores) cs = Inr (as, loop)"
  shows "(new_events cs \<noteq> 0 \<and> loop_stop loop = Inl NullAccess)
     \<or> (new_events cs = 0 \<and> (\<exists>loop'. loop_stop loop = Inr loop'))"
proof -
  have inv: "loop_inv (new_events cs) loop"
    using ev_calls_spec [OF loop_inv_create, of cores cs] assms by auto
  let ?n = "new_events cs"
  have ok: "map_ok (events loop)" and none: "mlen (ev_workers loop) = 0" using inv by (simp_all add: loop_inv_def)
  have len: "mlen (events loop) = 0 \<longleftrightarrow> ?n = 0" by (rule loop_inv_events [OF inv])
  have first: "stop_events [0..<mlen (events loop)] l = Inl NullAccess" if "mlen (events loop) \<noteq> 0" "events l = events loop" for l
  proof (rule stop_first_event [OF ok that(1) _ that(2)])
    show "v = 0" if "map_get (events loop) u = Some v" for u v
      using that inv by (simp add: loop_inv_def split: if_splits)
  qed
  have stop: "loop_stop loop = (if ?n = 0 then Inr (loop\<lparr>working_pool := pool_free (working_pool loop),
      ev_workers := map_free (ev_workers loop), events := map_free (events loop)\<rparr>) else Inl NullAccess)"
    using len first [of "loop\<lparr>working_pool := pool_free (working_pool loop)\<rparr>"] none
    by (auto simp: loop_stop_def Let_def)
  then show ?thesis by simp
qed

theorem loop_stop_faults_iff_witness:
  "\<exists>as loop. ev_calls (loop_create 2) [NewEvent 5] = Inr (as, loop) \<and> loop_stop loop = Inl NullAccess"
proof -
  obtain as loop where c: "ev_calls (loop_create 2) [NewEvent 5] = Inr (as, loop)"
    using ev_calls_spec [OF loop_inv_create, of 2 "[NewEvent 5]"] by blast
  from loop_stop_faults_iff [OF c] c show ?thesis by auto
qed

text \<open>Nor could \<open>__events_worker\<close> be started: its first round reads past a slot if and only if an event
  was ever created.\<close>

lemma events_scan_hit:
  assumes ok: "map_ok (events loop)" and u: "u \<noteq> 0" and i: "i \<in> set is" "i < mlen (events loop)" "mkeys (events loop) ! i = u"
  shows "events_scan is loop = Inl OutOfBounds"
  using i(1)
proof (induction "is")
  case (Cons j "is")
  have "map_get (events loop) u = Some (mvals (events loop) ! i)"
    unfolding map_get_Some_iff [OF ok] using i by blast
  then obtain k where "map_ptr (events loop) u = Some (k, mvals (events loop) ! i)"
    using map_ptr_Some [OF ok] by metis
  then show ?case
    using Cons u i by (auto simp: Let_def map_key_at_def split: option.split)
qed simp

theorem events_worker_faults_iff:
  assumes "ev_calls (loop_create cores) cs = Inr (as, loop)" and "pool_active (working_pool loop)"
  shows "(new_events cs \<noteq> 0 \<and> events_worker loop = Some (Inl OutOfBounds))
     \<or> (new_events cs = 0 \<and> events_worker loop = Some (Inr False))"
proof -
  let ?n = "new_events cs"
  have inv: "loop_inv ?n loop"
    using ev_calls_spec [OF loop_inv_create, of cores cs] assms(1) by auto
  have ok: "map_ok (events loop)" using inv by (simp add: loop_inv_def)
  show ?thesis
  proof (cases "?n = 0")
    case True
    then show ?thesis using loop_inv_events [OF inv] assms(2) by (simp add: events_worker_def)
  next
    case False
    then have "map_get (events loop) 1 = Some 0"
      using inv by (auto simp: loop_inv_def intro: exI [of _ 1])
    then obtain i where "i < mlen (events loop)" "mkeys (events loop) ! i = 1"
      using map_get_Some_iff [OF ok] by blast
    then have "events_scan [0..<mlen (events loop)] loop = Inl OutOfBounds"
      by (intro events_scan_hit [OF ok, of 1 i]) simp_all
    then show ?thesis using False assms(2) by (simp add: events_worker_def)
  qed
qed

theorem events_worker_faults_iff_witness:
  "\<exists>as loop. ev_calls (loop_create 2) [NewEvent 5] = Inr (as, loop) \<and> events_worker loop = Some (Inl OutOfBounds)"
proof -
  obtain as loop where c: "ev_calls (loop_create 2) [NewEvent 5] = Inr (as, loop)"
    using ev_calls_spec [OF loop_inv_create, of 2 "[NewEvent 5]"] by blast
  have "working_pool loop = working_pool (loop_create 2)"
    using c by (auto simp: asyncio_create_event_def event_init_def)
  then have "pool_active (working_pool loop)" by (simp add: loop_create_def pool_init_def)
  from events_worker_faults_iff [OF c this] c show ?thesis by auto
qed

end
