(* ===== verification/ZlUtils.thy ===== *)
theory ZlUtils
  imports Allocator Events
begin

text \<open>
  The C++ classes of \<open>code/DCN/src/zlutils.cpp\<close>: \<open>zl::Allocator\<close>, \<open>zl::EventLoop\<close> and \<open>zl::Future\<close>,
  objects that hold a pointer to a C structure and forward their methods to it.  What matters is who
  ends the structure: \<open>is_allc\<close> says whether the object has allocated it.  The C structures are in a
  memory \<open>zmem\<close>; one that has been ended is not in it any more, since every further use goes through
  freed tables and destroyed mutexes.
\<close>

record zmem =
  c_allocs :: "addr \<rightharpoonup> allocator"
  c_heap :: heap
  c_loops :: "addr \<rightharpoonup> ev_loop"

record zallocator =
  za_owned :: bool    \<comment> \<open>\<open>is_allc\<close>\<close>
  za_c :: addr        \<comment> \<open>\<open>allc\<close>\<close>

record zloop =
  zl_owned :: bool
  zl_c :: addr

subsection \<open>Allocators\<close>

definition zallocator_of :: "addr \<Rightarrow> zallocator" where
  "zallocator_of allc = \<lparr>za_owned = False, za_c = allc\<rparr>"

definition zallocator_new :: "addr \<Rightarrow> zmem \<Rightarrow> zallocator \<times> zmem" where
  "zallocator_new fresh m =
     (\<lparr>za_owned = True, za_c = fresh\<rparr>, m\<lparr>c_allocs := (c_allocs m)(fresh \<mapsto> allocator_init)\<rparr>)"

text \<open>A method that forwards to the C function \<open>f\<close>.\<close>

definition forward :: "(alc_state \<Rightarrow> ('a \<times> alc_state) res) \<Rightarrow> zallocator \<Rightarrow> zmem \<Rightarrow> ('a \<times> zmem) res" where
  "forward f z m =
     (case c_allocs m (za_c z) of
        None \<Rightarrow> Inl UseAfterFree
      | Some a \<Rightarrow> bind_res (f (a, c_heap m)) (\<lambda>(x, a, h).
          Inr (x, m\<lparr>c_allocs := (c_allocs m)(za_c z \<mapsto> a), c_heap := h\<rparr>)))"

definition zmalloc :: "bool \<Rightarrow> addr option \<Rightarrow> byte list \<Rightarrow> zallocator \<Rightarrow> zmem \<Rightarrow> (addr option \<times> zmem) res" where
  "zmalloc rok ans bytes = forward (\<lambda>s. Inr (alc_malloc rok ans bytes s))"

definition zcalloc :: "addr option \<Rightarrow> nat \<Rightarrow> nat \<Rightarrow> zallocator \<Rightarrow> zmem \<Rightarrow> (addr option \<times> zmem) res" where
  "zcalloc ans n el_size = forward (\<lambda>s. Inr (alc_calloc ans n el_size s))"

definition zrealloc ::
  "bool \<Rightarrow> addr option \<Rightarrow> byte list \<Rightarrow> addr \<Rightarrow> nat \<Rightarrow> zallocator \<Rightarrow> zmem \<Rightarrow> (addr option \<times> zmem) res" where
  "zrealloc rok ans junk ptr bytes = forward (alc_realloc rok ans junk ptr bytes)"

definition zfree :: "addr \<Rightarrow> zallocator \<Rightarrow> zmem \<Rightarrow> (unit \<times> zmem) res" where
  "zfree ptr = forward (\<lambda>s. bind_res (alc_free ptr s) (\<lambda>s. Inr ((), s)))"

text \<open>\<open>~Allocator\<close>: it ends the C allocator whether or not it is its own.\<close>

definition zallocator_end :: "zallocator \<Rightarrow> zmem \<Rightarrow> zmem res" where
  "zallocator_end z m =
     (case c_allocs m (za_c z) of
        None \<Rightarrow> Inl UseAfterFree
      | Some a \<Rightarrow> bind_res (allocator_end (a, c_heap m)) (\<lambda>h.
          Inr (m\<lparr>c_allocs := (c_allocs m)(za_c z := None), c_heap := h\<rparr>)))"

subsection \<open>Event loops and futures\<close>

definition zloop_of :: "addr \<Rightarrow> zloop" where
  "zloop_of loop = \<lparr>zl_owned = False, zl_c = loop\<rparr>"

definition zloop_new :: "addr \<Rightarrow> nat \<Rightarrow> zmem \<Rightarrow> zloop \<times> zmem" where
  "zloop_new fresh cores m =
     (\<lparr>zl_owned = True, zl_c = fresh\<rparr>, m\<lparr>c_loops := (c_loops m)(fresh \<mapsto> loop_create cores)\<rparr>)"

definition zloop_end :: "zloop \<Rightarrow> zmem \<Rightarrow> zmem res" where
  "zloop_end z m =
     (case c_loops m (zl_c z) of
        None \<Rightarrow> Inl UseAfterFree
      | Some l \<Rightarrow> bind_res (loop_stop l) (\<lambda>_. Inr (m\<lparr>c_loops := (c_loops m)(zl_c z := None)\<rparr>)))"

text \<open>\<open>Future::wait\<close>: \<open>await\<close> on the pointer, cast to the type asked for.\<close>

definition zwait :: "addr \<Rightarrow> pool \<Rightarrow> (addr \<times> pool) res option" where
  "zwait fut p = await fut p"

subsection \<open>Lemmas\<close>

lemma allocator_end_step:
  assumes "alc_inv (a, h)"
  shows "allocator_end (a, h) = Inr (h |` (- tracked a))"
  using alc_gcollect_step [OF assms] by (auto simp: allocator_end_def)

text \<open>An allocator of which every tracked block is live.\<close>

definition z_ok :: "zallocator \<Rightarrow> zmem \<Rightarrow> bool" where
  "z_ok z m \<longleftrightarrow> (\<exists>a. c_allocs m (za_c z) = Some a \<and> alc_inv (a, c_heap m))"

lemma zallocator_end_ok:
  assumes "c_allocs m (za_c z) = Some a" and "alc_inv (a, c_heap m)"
  shows "zallocator_end z m
    = Inr (m\<lparr>c_allocs := (c_allocs m)(za_c z := None), c_heap := c_heap m |` (- tracked a)\<rparr>)"
  using assms allocator_end_step by (simp add: zallocator_end_def)

subsection \<open>Properties\<close>

text \<open>The destructor of any object over an allocator frees every block that the allocator still tracks,
  and after it each use of the allocator through another object over it is a use of freed memory, its
  destructor included, even if that other object is the one that owns the allocator.\<close>

theorem second_end_faults:
  assumes "z_ok z m" and "za_c z' = za_c z"
  shows "\<exists>m'. zallocator_end z m = Inr m' \<and> zallocator_end z' m' = Inl UseAfterFree
     \<and> zfree p z' m' = Inl UseAfterFree
     \<and> (\<forall>a. c_allocs m (za_c z) = Some a \<longrightarrow> (\<forall>b. c_heap m' b = (if b \<in> tracked a then None else c_heap m b)))"
proof -
  obtain a where a: "c_allocs m (za_c z) = Some a" "alc_inv (a, c_heap m)" using assms(1) by (auto simp: z_ok_def)
  show ?thesis
    using a(1) assms(2) zallocator_end_ok [OF a]
    by (auto simp: zallocator_end_def zfree_def forward_def restrict_map_def)
qed

theorem second_end_faults_witness:
  "\<exists>m. zallocator_end (zallocator_of 8) (snd (zallocator_new 8 \<lparr>c_allocs = Map.empty, c_heap = Map.empty, c_loops = Map.empty\<rparr>))
       = Inr m
     \<and> zallocator_end (fst (zallocator_new 8 \<lparr>c_allocs = Map.empty, c_heap = Map.empty, c_loops = Map.empty\<rparr>)) m
       = Inl UseAfterFree"
proof -
  let ?new = "zallocator_new 8 \<lparr>c_allocs = Map.empty, c_heap = Map.empty, c_loops = Map.empty\<rparr>"
  have "z_ok (zallocator_of 8) (snd ?new)"
    by (simp add: z_ok_def zallocator_of_def zallocator_new_def alc_inv_def)
  from second_end_faults [OF this, of "fst ?new"] show ?thesis
    by (auto simp: zallocator_of_def zallocator_new_def)
qed

text \<open>An object that owns its event loop ends it: this goes well if and only if no event was created.\<close>

theorem zloop_end_faults_iff:
  assumes "c_loops m (zl_c z) = Some loop" and "ev_calls (loop_create cores) cs = Inr (as, loop)"
  shows "(new_events cs \<noteq> 0 \<and> zloop_end z m = Inl NullAccess)
     \<or> (new_events cs = 0 \<and> zloop_end z m = Inr (m\<lparr>c_loops := (c_loops m)(zl_c z := None)\<rparr>))"
  using loop_stop_faults_iff [OF assms(2)] assms(1) by (auto simp: zloop_end_def)

end
